(* ===== verification/Prelude.thy ===== *)
theory Prelude
  imports Main "HOL-Library.Word" "HOL-Library.Monad_Syntax"
begin

text \<open>
  Shared vocabulary of the development: the machine integers of the Rust sources, byte
  buffers, slices and indexing that panic out of range, little-endian reads and writes,
  \<open>Vec::resize\<close>, \<open>usize::div_ceil\<close> and the half-open binary search every reader uses.

  Conventions.  A \<open>w\<close>-bit unsigned integer is a \<open>w word\<close>, so \<open>+\<close>, \<open>-\<close> and \<open>*\<close> wrap as
  they do in the release profile of the workspace (overflow checks are on in the test
  profile only).  A \<open>usize\<close> is a \<open>nat\<close>: on a 64-bit target the sums and products of
  file sizes below stay far from \<open>2 ^ 64\<close>.  A computation that may panic has type
  \<open>'a exec\<close>, with \<open>None\<close> for the panic; a Rust \<open>Option\<close> inside such a computation is the
  inner \<open>option\<close> of an \<open>'a option exec\<close>.  A \<open>debug_assert!\<close> is compiled out.
\<close>

unbundle bit_operations_syntax

named_theorems layout_simps \<open>lengths and positions of serialised fields\<close>
named_theorems exec_simps \<open>evaluation of indexing, slicing and reads\<close>

section \<open>Types\<close>

type_synonym u8 = "8 word"
type_synonym u16 = "16 word"
type_synonym u32 = "32 word"
type_synonym u64 = "64 word"
type_synonym bytes = "u8 list"
type_synonym 'a exec = "'a option"

abbreviation u32_of :: "nat \<Rightarrow> u32" where "u32_of n \<equiv> of_nat n"
abbreviation u64_of :: "nat \<Rightarrow> u64" where "u64_of n \<equiv> of_nat n"

text \<open>A byte string literal \<open>b"..."\<close>.\<close>

definition bstr :: "string \<Rightarrow> bytes" where
  "bstr s = map (\<lambda>c. of_nat (of_char c)) s"

lemma length_bstr [simp]: "length (bstr s) = length s"
  by (simp add: bstr_def)

section \<open>Indexing and slicing\<close>

text \<open>\<open>xs[i]\<close> and \<open>&xs[a..b]\<close>: both panic out of range.\<close>

definition idx :: "'a list \<Rightarrow> nat \<Rightarrow> 'a exec" where
  "idx xs i = (if i < length xs then Some (xs ! i) else None)"

definition slice :: "'a list \<Rightarrow> nat \<Rightarrow> nat \<Rightarrow> 'a list exec" where
  "slice xs a b = (if a \<le> b \<and> b \<le> length xs then Some (take (b - a) (drop a xs)) else None)"

definition slice_from :: "'a list \<Rightarrow> nat \<Rightarrow> 'a list exec" where
  "slice_from xs a = slice xs a (length xs)"

lemma idx_Some: "i < length xs \<Longrightarrow> idx xs i = Some (xs ! i)"
  by (simp add: idx_def)

lemma idx_None: "length xs \<le> i \<Longrightarrow> idx xs i = None"
  by (simp add: idx_def)

lemma drop_Cons_idx:
  assumes "drop pos data = b # post"
  shows "idx data pos = Some b" and "drop (Suc pos) data = post"
proof -
  have "pos < length data" using assms by (metis drop_all leI list.distinct(1))
  then have "drop pos data = data ! pos # drop (Suc pos) data" by (simp add: Cons_nth_drop_Suc)
  with assms \<open>pos < length data\<close> show "idx data pos = Some b" and "drop (Suc pos) data = post"
    by (simp_all add: idx_def)
qed

lemma slice_middle:
  "a = length pre \<Longrightarrow> b = length pre + length xs \<Longrightarrow> slice (pre @ xs @ post) a b = Some xs"
  by (simp add: slice_def)

lemma slice_Some:
  "a \<le> b \<Longrightarrow> b \<le> length xs \<Longrightarrow> slice xs a b = Some (take (b - a) (drop a xs))"
  by (simp add: slice_def)

lemma slice_eq_Some_iff:
  "slice xs a b = Some ys \<longleftrightarrow> a \<le> b \<and> b \<le> length xs \<and> ys = take (b - a) (drop a xs)"
  by (auto simp: slice_def)

lemma length_slice: "slice xs a b = Some ys \<Longrightarrow> length ys = b - a"
  by (auto simp: slice_eq_Some_iff)

lemma slice_from_append: "a = length pre \<Longrightarrow> slice_from (pre @ xs) a = Some xs"
  by (simp add: slice_from_def slice_def)

lemma take_drop_slice: "slice xs 0 (length xs) = Some xs"
  by (simp add: slice_def)

section \<open>\<open>Vec::resize\<close>, \<open>div_ceil\<close>\<close>

definition resize :: "'a list \<Rightarrow> nat \<Rightarrow> 'a \<Rightarrow> 'a list" where
  "resize xs n v = take n xs @ replicate (n - length xs) v"

lemma length_resize [simp]: "length (resize xs n v) = n"
  by (simp add: resize_def)

lemma nth_resize: "i < n \<Longrightarrow> resize xs n v ! i = (if i < length xs then xs ! i else v)"
  by (auto simp: resize_def nth_append)

definition div_ceil :: "nat \<Rightarrow> nat \<Rightarrow> nat" where
  "div_ceil a b = (if a mod b > 0 then a div b + 1 else a div b)"

lemma div_ceil_mult: "0 < b \<Longrightarrow> i < a \<Longrightarrow> i div b < div_ceil a b"
proof -
  assume b: "0 < b" and i: "i < a"
  have "i div b \<le> a div b" using i by (simp add: div_le_mono)
  moreover have "i div b \<noteq> a div b" if "a mod b = 0"
    using that b i by (metis div_less_iff_less_mult mult.commute mult_div_mod_eq add.right_neutral nat_less_le)
  ultimately show ?thesis by (auto simp: div_ceil_def)
qed

section \<open>\<open>slice::chunks\<close>\<close>

function chunks :: "nat \<Rightarrow> 'a list \<Rightarrow> 'a list list" where
  "chunks n xs = (if n = 0 \<or> xs = [] then [] else take n xs # chunks n (drop n xs))"
  by pat_completeness auto
termination
  by (relation "measure (\<lambda>(n, xs). length xs)") auto

declare chunks.simps [simp del]

lemma chunks_Nil [simp]: "chunks n [] = []"
  by (simp add: chunks.simps)

lemma chunks_nonempty: "c \<in> set (chunks n xs) \<Longrightarrow> c \<noteq> []"
proof (induction n xs rule: chunks.induct)
  case (1 n xs)
  then show ?case by (subst (asm) (2) chunks.simps) (auto split: if_splits)
qed

lemma concat_chunks: "0 < n \<Longrightarrow> concat (chunks n xs) = xs"
proof (induction n xs rule: chunks.induct)
  case (1 n xs)
  then show ?case by (subst chunks.simps) auto
qed

lemma length_chunks: "0 < n \<Longrightarrow> length (chunks n xs) = div_ceil (length xs) n"
proof (induction n xs rule: chunks.induct)
  case (1 n xs)
  show ?case
  proof (cases "xs = []")
    case True
    then show ?thesis by (simp add: div_ceil_def)
  next
    case False
    have "length (chunks n xs) = Suc (div_ceil (length xs - n) n)"
      using 1 False by (subst chunks.simps) simp
    also have "... = div_ceil (length xs) n"
    proof (cases "n \<le> length xs")
      case True
      then show ?thesis using \<open>0 < n\<close> by (simp add: div_ceil_def le_div_geq le_mod_geq)
    next
      case False
      then show ?thesis using \<open>xs \<noteq> []\<close> by (simp add: div_ceil_def)
    qed
    finally show ?thesis .
  qed
qed

lemma nth_chunks: "i < length (chunks n xs) \<Longrightarrow> chunks n xs ! i = take n (drop (n * i) xs)"
proof (induction n xs arbitrary: i rule: chunks.induct)
  case (1 n xs)
  have "chunks n xs = []" if "n = 0 \<or> xs = []" using that by (simp add: chunks.simps [of n xs])
  with "1.prems" have ne: "\<not> (n = 0 \<or> xs = [])" by (metis length_0_conv less_nat_zero_code)
  then have c: "chunks n xs = take n xs # chunks n (drop n xs)" by (simp add: chunks.simps)
  show ?case
  proof (cases i)
    case 0
    then show ?thesis by (simp add: c)
  next
    case (Suc j)
    then show ?thesis using 1 ne by (simp add: c add.commute)
  qed
qed

lemma nth_chunk_elem:
  assumes "0 < n" and "i < length xs"
  shows "i div n < length (chunks n xs)" and "i mod n < length (chunks n xs ! (i div n))"
    and "chunks n xs ! (i div n) ! (i mod n) = xs ! i"
proof -
  show l: "i div n < length (chunks n xs)" using assms by (simp add: length_chunks div_ceil_mult)
  have "i mod n < length xs - n * (i div n)"
    using assms(2) by (metis minus_mult_div_eq_mod add_diff_cancel_left' diff_less_mono less_or_eq_imp_le
      mult_div_mod_eq nat_le_iff_add)
  then show "i mod n < length (chunks n xs ! (i div n))"
    and "chunks n xs ! (i div n) ! (i mod n) = xs ! i"
    using assms by (simp_all add: nth_chunks [OF l])
qed

section \<open>Little-endian integers\<close>

text \<open>
  \<open>x.to_le_bytes()\<close> of an \<open>n\<close>-byte integer and \<open>from_le_bytes\<close>.  \<open>to_le k x\<close> with \<open>k\<close> below
  the width of \<open>x\<close> is the prefix \<open>x.to_le_bytes()[..k]\<close>, and \<open>from_le\<close> of a short list is the
  value with the missing high bytes at zero.
\<close>

primrec to_le :: "nat \<Rightarrow> 'a::len word \<Rightarrow> bytes" where
  "to_le 0 w = []"
| "to_le (Suc n) w = ucast w # to_le n (drop_bit 8 w)"

primrec from_le :: "bytes \<Rightarrow> 'a::len word" where
  "from_le [] = 0"
| "from_le (b # bs) = ucast b OR push_bit 8 (from_le bs)"

abbreviation le16 :: "u16 \<Rightarrow> bytes" where "le16 w \<equiv> to_le 2 w"
abbreviation le32 :: "u32 \<Rightarrow> bytes" where "le32 w \<equiv> to_le 4 w"
abbreviation le64 :: "u64 \<Rightarrow> bytes" where "le64 w \<equiv> to_le 8 w"

lemma length_to_le [simp]: "length (to_le n w) = n"
  by (induction n arbitrary: w) auto

lemma to_le_zero [simp]: "to_le n (0 :: 'a::len word) = replicate n 0"
  by (induction n) auto

lemma from_le_to_le_take: "from_le (to_le n w) = take_bit (8 * n) (w :: 'a::len word)"
proof (induction n arbitrary: w)
  case 0
  then show ?case by simp
next
  case (Suc n)
  have "ucast (ucast w :: u8) OR push_bit 8 (take_bit (8 * n) (drop_bit 8 w)) = take_bit (8 * Suc n) w"
    by (rule bit_word_eqI) (auto simp: bit_simps)
  with Suc show ?case by simp
qed

lemma from_le_to_le: "LENGTH('a) \<le> 8 * n \<Longrightarrow> from_le (to_le n w) = (w :: 'a::len word)"
  unfolding from_le_to_le_take by (rule bit_word_eqI) (auto simp: bit_simps dest: bit_imp_le_length)

lemma from_le_16 [simp]: "from_le (le16 w) = w" by (rule from_le_to_le) simp
lemma from_le_32 [simp]: "from_le (le32 w) = w" by (rule from_le_to_le) simp
lemma from_le_64 [simp]: "from_le (le64 w) = w" by (rule from_le_to_le) simp

lemma from_le_append_zeros: "from_le (bs @ replicate k 0) = from_le bs"
  by (induction bs) (auto, induction k, auto)

text \<open>\<open>uN::from_le_bytes(bs[p..p + n].try_into().unwrap())\<close>.\<close>

definition read_le :: "nat \<Rightarrow> bytes \<Rightarrow> nat \<Rightarrow> 'a::len word exec" where
  "read_le n bs p = map_option from_le (slice bs p (p + n))"

abbreviation read_u16 :: "bytes \<Rightarrow> nat \<Rightarrow> u16 exec" where "read_u16 \<equiv> read_le 2"
abbreviation read_u32 :: "bytes \<Rightarrow> nat \<Rightarrow> u32 exec" where "read_u32 \<equiv> read_le 4"
abbreviation read_u64 :: "bytes \<Rightarrow> nat \<Rightarrow> u64 exec" where "read_u64 \<equiv> read_le 8"

lemma read_le_middle:
  "p = length pre \<Longrightarrow> n = length xs \<Longrightarrow> read_le n (pre @ xs @ post) p = Some (from_le xs)"
  by (simp add: read_le_def slice_middle)

lemma read_le_defined: "p + n \<le> length bs \<Longrightarrow> read_le n bs p \<noteq> None"
  by (simp add: read_le_def slice_def)

text \<open>Reading behind a prefix: these rules evaluate the reads of a header field by field.\<close>

lemma read_u16_head [exec_simps]: "read_u16 (le16 w @ post) 0 = Some w"
  using read_le_middle [of 0 "[]" 2 "le16 w" post, where ?'a = 16] by simp

lemma read_u32_head [exec_simps]: "read_u32 (le32 w @ post) 0 = Some w"
  using read_le_middle [of 0 "[]" 4 "le32 w" post, where ?'a = 32] by simp

lemma read_u64_head [exec_simps]: "read_u64 (le64 w @ post) 0 = Some w"
  using read_le_middle [of 0 "[]" 8 "le64 w" post, where ?'a = 64] by simp

lemma read_u16_all [exec_simps]: "read_u16 (le16 w) 0 = Some w" using read_u16_head [of w "[]"] by simp
lemma read_u32_all [exec_simps]: "read_u32 (le32 w) 0 = Some w" using read_u32_head [of w "[]"] by simp
lemma read_u64_all [exec_simps]: "read_u64 (le64 w) 0 = Some w" using read_u64_head [of w "[]"] by simp

lemma slice_skip [exec_simps]:
  "length ys \<le> a \<Longrightarrow> a \<le> b \<Longrightarrow> slice (ys @ xs) a b = slice xs (a - length ys) (b - length ys)"
  by (auto simp: slice_def)

lemma slice_head [exec_simps]: "b = length ys \<Longrightarrow> slice (ys @ xs) 0 b = Some ys"
  by (simp add: slice_def)

lemma slice_skip_Cons [exec_simps]:
  "0 < a \<Longrightarrow> a \<le> b \<Longrightarrow> slice (y # xs) a b = slice xs (a - 1) (b - 1)"
  using slice_skip [of "[y]" a b xs] by simp

lemma read_le_skip [exec_simps]:
  "length ys \<le> p \<Longrightarrow> read_le n (ys @ xs) p = read_le n xs (p - length ys)"
  by (simp add: read_le_def slice_skip)

lemma read_le_skip_Cons [exec_simps]: "0 < p \<Longrightarrow> read_le n (y # xs) p = read_le n xs (p - 1)"
  using read_le_skip [of "[y]" p n xs] by simp

lemma idx_skip [exec_simps]: "length ys \<le> p \<Longrightarrow> idx (ys @ xs) p = idx xs (p - length ys)"
  by (auto simp: idx_def nth_append)

lemma idx_skip_Cons [exec_simps]: "0 < p \<Longrightarrow> idx (y # xs) p = idx xs (p - 1)"
  using idx_skip [of "[y]" p xs] by simp

lemma idx_head [exec_simps]: "idx (y # xs) 0 = Some y"
  by (simp add: idx_def)

section \<open>Fixed-width tables\<close>

text \<open>The bytes of a table of \<open>w\<close>-byte records, and its \<open>i\<close>-th record.\<close>

lemma length_concat_fixed [layout_simps]:
  "(\<And>x. x \<in> set xs \<Longrightarrow> length (f x) = w) \<Longrightarrow> length (concat (map f xs)) = w * length xs"
  by (induction xs) auto

lemma concat_fixed_split:
  assumes "\<And>x. x \<in> set xs \<Longrightarrow> length (f x) = w" and "i < length xs"
  shows "\<exists>pre post. concat (map f xs) = pre @ f (xs ! i) @ post \<and> length pre = w * i"
proof (intro exI conjI)
  have "xs = take i xs @ xs ! i # drop (Suc i) xs" using assms(2) by (simp add: id_take_nth_drop)
  then have "concat (map f xs) = concat (map f (take i xs @ xs ! i # drop (Suc i) xs))" by simp
  then show "concat (map f xs) = concat (map f (take i xs)) @ f (xs ! i) @ concat (map f (drop (Suc i) xs))"
    by simp
  have "length (concat (map f (take i xs))) = w * length (take i xs)"
    by (rule length_concat_fixed) (meson assms(1) in_set_takeD)
  then show "length (concat (map f (take i xs))) = w * i" using assms(2) by simp
qed

lemma slice_concat_fixed:
  assumes "\<And>x. x \<in> set xs \<Longrightarrow> length (f x) = w" and "i < length xs"
    and "a = length pre + w * i" and "b = a + w"
  shows "slice (pre @ concat (map f xs) @ post) a b = Some (f (xs ! i))"
proof -
  obtain p q where pq: "concat (map f xs) = p @ f (xs ! i) @ q" "length p = w * i"
    using concat_fixed_split [of xs f w i] assms(1,2) by blast
  have "length (f (xs ! i)) = w" using assms(1,2) by simp
  then have "slice ((pre @ p) @ f (xs ! i) @ (q @ post)) a b = Some (f (xs ! i))"
    by (intro slice_middle) (simp_all add: assms(3,4) pq(2))
  then show ?thesis by (simp add: pq(1))
qed

lemma read_le_concat_fixed:
  assumes "\<And>x. x \<in> set xs \<Longrightarrow> length (f x) = w" and "i < length xs" and "p = length pre + w * i"
  shows "read_le w (pre @ concat (map f xs) @ post) p = Some (from_le (f (xs ! i)))"
  using slice_concat_fixed [OF assms(1,2) assms(3) refl] by (simp add: read_le_def)

lemma read_u32_table:
  assumes "i < length xs" and "p = length pre + 4 * i"
  shows "read_u32 (pre @ concat (map le32 xs) @ post) p = Some (xs ! i)"
  using read_le_concat_fixed [of xs le32 4 i p pre post, where ?'b = 32] assms by simp

lemma read_u64_table:
  assumes "i < length xs" and "p = length pre + 8 * i"
  shows "read_u64 (pre @ concat (map le64 xs) @ post) p = Some (xs ! i)"
  using read_le_concat_fixed [of xs le64 8 i p pre post, where ?'b = 64] assms by simp

text \<open>A field of the \<open>i\<close>-th record.\<close>

lemma slice_within:
  "a = length pre + o1 \<Longrightarrow> b = a + n \<Longrightarrow> o1 + n \<le> length xs \<Longrightarrow>
   slice (pre @ xs @ post) a b = slice xs o1 (o1 + n)"
  by (simp add: slice_def)

lemma read_le_field:
  assumes "\<And>x. x \<in> set xs \<Longrightarrow> length (f x) = w" and "i < length xs"
    and "p = length pre + w * i + o1" and "o1 + n \<le> w"
  shows "read_le n (pre @ concat (map f xs) @ post) p = read_le n (f (xs ! i)) o1"
proof -
  obtain pr q where pq: "concat (map f xs) = pr @ f (xs ! i) @ q" "length pr = w * i"
    using concat_fixed_split [of xs f w i] assms(1,2) by blast
  have "slice ((pre @ pr) @ f (xs ! i) @ (q @ post)) p (p + n) = slice (f (xs ! i)) o1 (o1 + n)"
    using assms pq(2) by (intro slice_within) simp_all
  then show ?thesis by (simp add: read_le_def pq(1))
qed

section \<open>Concatenated regions and their start offsets\<close>

text \<open>The running start offsets of a list of regions, with the final end as a sentinel.\<close>

primrec starts :: "nat \<Rightarrow> 'a list list \<Rightarrow> nat list" where
  "starts o1 [] = [o1]"
| "starts o1 (x # xs) = o1 # starts (o1 + length x) xs"

lemma length_starts [simp]: "length (starts o1 xs) = Suc (length xs)"
  by (induction xs arbitrary: o1) auto

lemma nth_starts: "i \<le> length xs \<Longrightarrow> starts o1 xs ! i = o1 + length (concat (take i xs))"
  by (induction xs arbitrary: o1 i) (auto simp: nth_Cons take_Cons split: nat.splits)

lemma starts_lower: "y \<in> set (starts o1 xs) \<Longrightarrow> o1 \<le> y"
  by (induction xs arbitrary: o1) (auto, fastforce)

lemma sorted_starts: "sorted (starts o1 xs)"
  by (induction xs arbitrary: o1) (auto dest: starts_lower)

lemma concat_region_split:
  assumes "i < length xs"
  shows "concat xs = concat (take i xs) @ xs ! i @ concat (drop (Suc i) xs)"
proof -
  have "xs = take i xs @ xs ! i # drop (Suc i) xs" using assms by (simp add: id_take_nth_drop)
  then have "concat xs = concat (take i xs @ xs ! i # drop (Suc i) xs)" by simp
  then show ?thesis by simp
qed

lemma starts_Suc: "i < length xs \<Longrightarrow> starts o1 xs ! Suc i = starts o1 xs ! i + length (xs ! i)"
  by (simp add: nth_starts take_Suc_conv_app_nth)

lemma slice_concat_region:
  assumes "i < length xs"
  shows "slice (concat xs @ post) (starts 0 xs ! i) (starts 0 xs ! Suc i) = Some (xs ! i)"
proof -
  have "slice (concat (take i xs) @ xs ! i @ (concat (drop (Suc i) xs) @ post))
          (starts 0 xs ! i) (starts 0 xs ! Suc i) = Some (xs ! i)"
    using assms by (intro slice_middle) (simp_all add: nth_starts take_Suc_conv_app_nth)
  then show ?thesis using concat_region_split [OF assms] by simp
qed

lemma starts_le_total: "i \<le> length xs \<Longrightarrow> starts o1 xs ! i \<le> o1 + length (concat xs)"
proof -
  assume "i \<le> length xs"
  have "length (concat (take i xs)) \<le> length (concat (take i xs @ drop i xs))"
    unfolding concat_append by simp
  then show ?thesis using \<open>i \<le> length xs\<close> by (simp add: nth_starts)
qed

lemma starts_butlast: "butlast (starts o1 xs) @ [o1 + length (concat xs)] = starts o1 xs"
proof (induction xs arbitrary: o1)
  case (Cons x xs)
  then show ?case using Cons [of "o1 + length x"] by (cases xs) (auto simp: add.assoc)
qed simp

lemma distinct_remdups_adj_sorted: "sorted xs \<Longrightarrow> distinct (remdups_adj (xs :: 'a::linorder list))"
  by (induction xs rule: remdups_adj.induct) (auto simp: antisym)

text \<open>The invariant rule of a counting loop \<open>for i in k..n\<close>.\<close>

lemma fold_upt_invariant:
  assumes "k \<le> n" and "P k s" and "\<And>i s. k \<le> i \<Longrightarrow> i < n \<Longrightarrow> P i s \<Longrightarrow> P (Suc i) (f i s)"
  shows "P n (fold f [k..<n] s)"
  using assms(1,3)
proof (induction n rule: nat_induct_at_least)
  case base
  then show ?case using assms(2) by simp
next
  case (Suc n)
  then show ?case by simp
qed

text \<open>A row-major index determines its row and its column.\<close>

lemma row_major_inj:
  assumes "b < w" and "b' < (w :: nat)"
  shows "a * w + b = a' * w + b' \<longleftrightarrow> a = a' \<and> b = b'"
proof
  assume "a * w + b = a' * w + b'"
  then have "(a * w + b) div w = (a' * w + b') div w" "(a * w + b) mod w = (a' * w + b') mod w" by simp_all
  then show "a = a' \<and> b = b'" using assms by simp
qed simp

lemma row_major_bound: "a \<le> m \<Longrightarrow> b < (w :: nat) \<Longrightarrow> a * w + b < (m + 1) * w"
proof -
  assume "a \<le> m" "b < w"
  then have "a * w + b < (a + 1) * w" by simp
  also have "... \<le> (m + 1) * w" using \<open>a \<le> m\<close> by (intro mult_le_mono1) simp
  finally show ?thesis .
qed

lemma upt_Suc_Cons: "[0..<Suc n] = 0 # map Suc [0..<n]"
  by (simp add: upt_conv_Cons map_Suc_upt del: upt_Suc)

section \<open>Binary search\<close>

text \<open>
  The loop \<open>while lo < hi { mid = lo + (hi - lo) / 2; if p(mid) { lo = mid + 1 } else { hi = mid } }\<close>
  of the readers; the probe may panic.
\<close>

function bsearch :: "(nat \<Rightarrow> bool exec) \<Rightarrow> nat \<Rightarrow> nat \<Rightarrow> nat exec" where
  "bsearch p lo hi =
     (if lo < hi then
        (let mid = lo + (hi - lo) div 2 in
         case p mid of None \<Rightarrow> None
         | Some b \<Rightarrow> if b then bsearch p (mid + 1) hi else bsearch p lo mid)
      else Some lo)"
  by pat_completeness auto
termination
  by (relation "measure (\<lambda>(p, lo, hi). hi - lo)") auto

declare bsearch.simps [simp del]

lemma bsearch_partition:
  assumes "lo \<le> hi" and "\<And>i. lo \<le> i \<Longrightarrow> i < hi \<Longrightarrow> p i = Some (q i)"
    and "\<And>i j. lo \<le> i \<Longrightarrow> i \<le> j \<Longrightarrow> j < hi \<Longrightarrow> q j \<Longrightarrow> q i"
  shows "\<exists>r. bsearch p lo hi = Some r \<and> lo \<le> r \<and> r \<le> hi
           \<and> (\<forall>i. lo \<le> i \<and> i < r \<longrightarrow> q i) \<and> (\<forall>i. r \<le> i \<and> i < hi \<longrightarrow> \<not> q i)"
  using assms
proof (induction p lo hi rule: bsearch.induct)
  case (1 p lo hi)
  show ?case
  proof (cases "lo < hi")
    case False
    with "1.prems"(1) show ?thesis by (subst bsearch.simps) auto
  next
    case True
    define mid where "mid = lo + (hi - lo) div 2"
    have mid: "lo \<le> mid" "mid < hi" using True by (auto simp: mid_def)
    have pm: "p mid = Some (q mid)" using "1.prems"(2) mid by simp
    show ?thesis
    proof (cases "q mid")
      case True
      have "\<exists>r. bsearch p (mid + 1) hi = Some r \<and> mid + 1 \<le> r \<and> r \<le> hi
           \<and> (\<forall>i. mid + 1 \<le> i \<and> i < r \<longrightarrow> q i) \<and> (\<forall>i. r \<le> i \<and> i < hi \<longrightarrow> \<not> q i)"
        using mid pm True \<open>lo < hi\<close> "1.prems"(2,3)
        by (intro "1.IH"(1) [OF \<open>lo < hi\<close> mid_def pm]) auto
      then obtain r where r: "bsearch p (mid + 1) hi = Some r" "mid + 1 \<le> r" "r \<le> hi"
        "\<forall>i. mid + 1 \<le> i \<and> i < r \<longrightarrow> q i" "\<forall>i. r \<le> i \<and> i < hi \<longrightarrow> \<not> q i" by blast
      have "q i" if "lo \<le> i" "i < r" for i
        using that r(4) "1.prems"(3) [of i mid] True mid by (cases "i \<le> mid") auto
      moreover have "bsearch p lo hi = Some r"
        using \<open>lo < hi\<close> pm True r(1) by (subst bsearch.simps) (simp add: mid_def [symmetric])
      ultimately show ?thesis using r mid by (intro exI [of _ r]) auto
    next
      case False
      have "\<exists>r. bsearch p lo mid = Some r \<and> lo \<le> r \<and> r \<le> mid
           \<and> (\<forall>i. lo \<le> i \<and> i < r \<longrightarrow> q i) \<and> (\<forall>i. r \<le> i \<and> i < mid \<longrightarrow> \<not> q i)"
        using mid pm False \<open>lo < hi\<close> "1.prems"(2,3)
        by (intro "1.IH"(2) [OF \<open>lo < hi\<close> mid_def pm]) auto
      then obtain r where r: "bsearch p lo mid = Some r" "lo \<le> r" "r \<le> mid"
        "\<forall>i. lo \<le> i \<and> i < r \<longrightarrow> q i" "\<forall>i. r \<le> i \<and> i < mid \<longrightarrow> \<not> q i" by blast
      have "\<not> q i" if "r \<le> i" "i < hi" for i
        using that r(2,5) "1.prems"(3) [of mid i] False mid by (cases "i < mid") auto
      moreover have "bsearch p lo hi = Some r"
        using \<open>lo < hi\<close> pm False r(1) by (subst bsearch.simps) (simp add: mid_def [symmetric])
      ultimately show ?thesis using r mid by (intro exI [of _ r]) auto
    qed
  qed
qed

section \<open>Conversions\<close>

lemma unat_of_nat_u32 [simp]: "n < 2 ^ 32 \<Longrightarrow> unat (u32_of n) = n"
  by (simp add: unat_of_nat)

lemma u32_of_less_iff: "a < 2 ^ 32 \<Longrightarrow> b < 2 ^ 32 \<Longrightarrow> u32_of a < u32_of b \<longleftrightarrow> a < b"
  by (simp add: word_less_nat_alt)

lemma u32_of_le_iff: "a < 2 ^ 32 \<Longrightarrow> b < 2 ^ 32 \<Longrightarrow> u32_of a \<le> u32_of b \<longleftrightarrow> a \<le> b"
  by (simp add: word_le_nat_alt)

lemma u32_of_eq_iff: "a < 2 ^ 32 \<Longrightarrow> b < 2 ^ 32 \<Longrightarrow> u32_of a = u32_of b \<longleftrightarrow> a = b"
  by (metis unat_of_nat_u32)

lemma max_u32_of: "a < 2 ^ 32 \<Longrightarrow> b < 2 ^ 32 \<Longrightarrow> max (u32_of a) (u32_of b) = u32_of (max a b)"
  by (simp add: max_def u32_of_le_iff)

lemma min_u32_of: "a < 2 ^ 32 \<Longrightarrow> b < 2 ^ 32 \<Longrightarrow> min (u32_of a) (u32_of b) = u32_of (min a b)"
  by (simp add: min_def u32_of_le_iff)

lemma unat_of_nat_u64 [simp]: "n < 2 ^ 64 \<Longrightarrow> unat (u64_of n) = n"
  by (simp add: unat_of_nat)

lemma unat_drop_bit_div: "unat (drop_bit n w) = unat w div 2 ^ n"
  by (metis unat_drop_bit_eq drop_bit_eq_div)

lemma unat_take_bit: "unat (take_bit n w) = take_bit n (unat w)"
  by (simp add: unsigned_take_bit_eq)

lemma unat_u32_bound: "unat (w :: u32) < 2 ^ 32"
  using unsigned_less [of w, where ?'a = nat] by simp

lemma unat_u64_bound: "unat (w :: u64) < 2 ^ 64"
  using unsigned_less [of w, where ?'a = nat] by simp

lemma unat_ucast_u32_u64 [simp]: "unat (ucast (w :: u32) :: u64) = unat w"
  using unat_u32_bound [of w] by (simp add: unsigned_ucast_eq take_bit_nat_eq_self)

lemma ucast_u32_u64_inverse [simp]: "(ucast (ucast (w :: u32) :: u64) :: u32) = w"
  by (rule bit_word_eqI) (auto simp: bit_simps)

lemma ucast_u16_u64_inverse [simp]: "(ucast (ucast (w :: u16) :: u64) :: u16) = w"
  by (rule bit_word_eqI) (auto simp: bit_simps)

end
