(* ===== verification/Codec.thy ===== *)
theory Codec
  imports Prelude
begin

text \<open>
  The contract between an encoder that appends the bytes of a value to a buffer and a decoder
  that reads one value at a position and returns it with the position behind it.  Every
  sequential reader of the sidecars relies on this contract and on nothing else of the
  encoding: the lemmas below are proved once from it, for single values, pairs and runs of
  values, and instantiated for the varints in \<open>Varint\<close>.
\<close>

section \<open>Combinators\<close>

definition enc_pair :: "('a \<Rightarrow> bytes) \<Rightarrow> ('b \<Rightarrow> bytes) \<Rightarrow> 'a \<times> 'b \<Rightarrow> bytes" where
  "enc_pair e1 e2 = (\<lambda>(a, b). e1 a @ e2 b)"

definition dec_pair ::
  "(bytes \<Rightarrow> nat \<Rightarrow> ('a \<times> nat) option) \<Rightarrow> (bytes \<Rightarrow> nat \<Rightarrow> ('b \<times> nat) option) \<Rightarrow>
   bytes \<Rightarrow> nat \<Rightarrow> (('a \<times> 'b) \<times> nat) option" where
  "dec_pair d1 d2 data pos = do {
     (a, pos) \<leftarrow> d1 data pos;
     (b, pos) \<leftarrow> d2 data pos;
     Some ((a, b), pos) }"

primrec dec_many ::
  "(bytes \<Rightarrow> nat \<Rightarrow> ('a \<times> nat) option) \<Rightarrow> nat \<Rightarrow> bytes \<Rightarrow> nat \<Rightarrow> ('a list \<times> nat) option" where
  "dec_many d 0 data pos = Some ([], pos)"
| "dec_many d (Suc n) data pos = do {
     (a, pos) \<leftarrow> d data pos;
     (as, pos) \<leftarrow> dec_many d n data pos;
     Some (a # as, pos) }"

section \<open>The contract\<close>

locale codec =
  fixes enc :: "'a \<Rightarrow> bytes"
    and dec :: "bytes \<Rightarrow> nat \<Rightarrow> ('a \<times> nat) option"
    and ok :: "'a \<Rightarrow> bool"
  assumes dec_enc: "ok v \<Longrightarrow> dec (pre @ enc v @ post) (length pre) = Some (v, length pre + length (enc v))"
    and enc_nonempty: "ok v \<Longrightarrow> enc v \<noteq> []"
begin

lemma dec_at:
  assumes "ok v" and "drop pos data = enc v @ post"
  shows "dec data pos = Some (v, pos + length (enc v))"
    and "drop (pos + length (enc v)) data = post"
    and "pos < length data"
proof -
  have "drop pos data \<noteq> []" using assms enc_nonempty by simp
  then show "pos < length data" by auto
  then have "data = take pos data @ enc v @ post" and "length (take pos data) = pos"
    using assms(2) by (metis append_take_drop_id, simp)
  then show "dec data pos = Some (v, pos + length (enc v))"
    using dec_enc [OF assms(1), of "take pos data" post] by simp
  show "drop (pos + length (enc v)) data = post"
    using assms(2) by (metis add.commute append_eq_conv_conj drop_drop)
qed

lemma dec_many_at:
  assumes "\<forall>v \<in> set vs. ok v" and "drop pos data = concat (map enc vs) @ post"
  shows "dec_many dec (length vs) data pos = Some (vs, pos + length (concat (map enc vs)))"
    and "drop (pos + length (concat (map enc vs))) data = post"
  using assms
proof (induction vs arbitrary: pos)
  case Nil
  { case 1 then show ?case by simp next case 2 then show ?case by simp }
next
  case (Cons v vs)
  { case 1
    have v: "dec data pos = Some (v, pos + length (enc v))"
      "drop (pos + length (enc v)) data = concat (map enc vs) @ post"
      using 1 dec_at [of v pos data "concat (map enc vs) @ post"] by auto
    show ?case using Cons.IH(1) [OF _ v(2)] 1 v(1) by (simp add: add.assoc)
  next
    case 2
    have v: "drop (pos + length (enc v)) data = concat (map enc vs) @ post"
      using 2 dec_at(2) [of v pos data "concat (map enc vs) @ post"] by auto
    show ?case using Cons.IH(2) [OF _ v] 2 by (simp add: add.assoc) }
qed

end

text \<open>Two codecs in sequence are a codec of pairs.\<close>

locale codec_pair = c1: codec e1 d1 ok1 + c2: codec e2 d2 ok2
  for e1 :: "'a \<Rightarrow> bytes" and d1 ok1 and e2 :: "'b \<Rightarrow> bytes" and d2 ok2

sublocale codec_pair \<subseteq> pair: codec "enc_pair e1 e2" "dec_pair d1 d2" "\<lambda>(a, b). ok1 a \<and> ok2 b"
proof (unfold_locales, goal_cases)
  case (1 v pre post)
  obtain a b where v: "v = (a, b)" by (cases v)
  have a: "d1 (pre @ e1 a @ e2 b @ post) (length pre) = Some (a, length pre + length (e1 a))"
    using 1 v c1.dec_enc [of a pre "e2 b @ post"] by simp
  have "d2 ((pre @ e1 a) @ e2 b @ post) (length (pre @ e1 a))
      = Some (b, length (pre @ e1 a) + length (e2 b))"
    using 1 v by (intro c2.dec_enc) simp
  then show ?case using v a by (simp add: enc_pair_def dec_pair_def add.assoc)
next
  case (2 v)
  then show ?case using c1.enc_nonempty by (auto simp: enc_pair_def split: prod.splits)
qed

end
