(* ===== verification/Varint.thy ===== *)
theory Varint
  imports Codec
begin

text \<open>
  LEB128 varints, \<open>src/src/suffix_fst/varint.rs\<close>, and the tight decoder of
  \<open>src/src/suffix_fst/sfxpost_v2.rs\<close>.  The writer appends to a buffer; the reader takes a
  position and returns the value with the position behind it.  (On \<open>None\<close> the Rust reader
  leaves its position argument somewhere inside the input; every caller then stops reading,
  so the model does not return it.)
\<close>

section \<open>Definitions\<close>

function write_varint :: "bytes \<Rightarrow> u64 \<Rightarrow> bytes" where
  "write_varint buf v =
     (if 0x80 \<le> v then write_varint (buf @ [ucast v OR 0x80]) (drop_bit 7 v)
      else buf @ [ucast v])"
  by pat_completeness auto
termination
proof (relation "measure (\<lambda>(buf, v). unat v)", goal_cases)
  case (2 buf v)
  then have "128 \<le> unat v" by (simp add: word_le_nat_alt)
  then show ?case by (simp add: unat_drop_bit_div)
qed simp

declare write_varint.simps [simp del]

definition checked_shl :: "u64 \<Rightarrow> nat \<Rightarrow> u64 option" where
  "checked_shl w s = (if s < 64 then Some (push_bit s w) else None)"

fun read_varint_loop :: "bytes \<Rightarrow> nat list \<Rightarrow> nat \<Rightarrow> u64 \<Rightarrow> (u64 \<times> nat) option" where
  "read_varint_loop data [] pos v = None"
| "read_varint_loop data (shift # shifts) pos v = do {
     b \<leftarrow> idx data pos;
     x \<leftarrow> checked_shl (ucast (b AND 0x7f)) shift;
     let v = v OR x;
     if b AND 0x80 = 0 then Some (v, pos + 1)
     else read_varint_loop data shifts (pos + 1) v }"

definition read_varint :: "bytes \<Rightarrow> nat \<Rightarrow> (u64 \<times> nat) option" where
  "read_varint data pos = read_varint_loop data [0, 7, 14, 21, 28, 35, 42, 49, 56, 63] pos 0"

definition read_varint_u32 :: "bytes \<Rightarrow> nat \<Rightarrow> (u32 \<times> nat) option" where
  "read_varint_u32 data pos = do {
     (v, pos) \<leftarrow> read_varint data pos;
     if v \<le> 0xFFFFFFFF then Some (ucast v, pos) else None }"

function varint_len_loop :: "nat \<Rightarrow> u64 \<Rightarrow> nat" where
  "varint_len_loop n v = (if v > 0 then varint_len_loop (n + 1) (drop_bit 7 v) else n)"
  by pat_completeness auto
termination
proof (relation "measure (\<lambda>(n, v). unat v)", goal_cases)
  case (2 n v)
  then have "0 < unat v" by (simp add: unat_gt_0 word_neq_0_conv)
  then show ?case by (simp add: unat_drop_bit_div)
qed simp

declare varint_len_loop.simps [simp del]

definition varint_len :: "u64 \<Rightarrow> nat" where
  "varint_len v = varint_len_loop 1 (drop_bit 7 v)"

fun decode_vint_loop :: "bytes \<Rightarrow> nat \<Rightarrow> nat \<Rightarrow> u32 \<Rightarrow> u32 \<times> nat option" where
  "decode_vint_loop [] i shift r = (r, None)"
| "decode_vint_loop (b # bs) i shift r =
     (let r = r OR push_bit shift (ucast (b AND 0x7F)) in
      if b AND 0x80 = 0 then (r, Some (i + 1))
      else decode_vint_loop bs (i + 1) (shift + 7) r)"

definition decode_vint :: "bytes \<Rightarrow> u32 \<times> nat" where
  "decode_vint data =
     (case decode_vint_loop (take 5 data) 0 0 0 of
        (r, Some n) \<Rightarrow> (r, n)
      | (r, None) \<Rightarrow> (r, min (length data) 5))"

section \<open>What the writer appends\<close>

definition varint_bytes :: "u64 \<Rightarrow> bytes" where
  "varint_bytes v = write_varint [] v"

abbreviation varint32 :: "u32 \<Rightarrow> bytes" where
  "varint32 w \<equiv> varint_bytes (ucast w)"

lemma write_varint_prefix: "write_varint (pre @ buf) v = pre @ write_varint buf v"
proof (induction buf v rule: write_varint.induct)
  case (1 buf v)
  then show ?case by (simp add: write_varint.simps [of "pre @ buf"] write_varint.simps [of buf])
qed

lemma write_varint_append: "write_varint buf v = buf @ varint_bytes v"
  using write_varint_prefix [of buf "[]" v] by (simp add: varint_bytes_def)

lemma varint_bytes_unfold:
  "varint_bytes v = (if 0x80 \<le> v then (ucast v OR 0x80) # varint_bytes (drop_bit 7 v) else [ucast v])"
proof -
  have "varint_bytes v = (if 0x80 \<le> v then write_varint [ucast v OR 0x80] (drop_bit 7 v) else [ucast v])"
    unfolding varint_bytes_def by (subst write_varint.simps) simp
  then show ?thesis by (simp add: write_varint_append)
qed

lemma varint_bytes_small: "v < 0x80 \<Longrightarrow> varint_bytes v = [ucast v]"
  by (subst varint_bytes_unfold) (auto simp: not_less [symmetric])

lemma varint_bytes_big: "0x80 \<le> v \<Longrightarrow> varint_bytes v = (ucast v OR 0x80) # varint_bytes (drop_bit 7 v)"
  by (subst varint_bytes_unfold) simp

lemma varint_bytes_nonempty [simp]: "varint_bytes v \<noteq> []"
  by (subst varint_bytes_unfold) simp

lemma varint_induct [case_names small big]:
  assumes "\<And>v. v < 0x80 \<Longrightarrow> P v" and "\<And>v. 0x80 \<le> v \<Longrightarrow> P (drop_bit 7 v) \<Longrightarrow> P (v :: u64)"
  shows "P v"
proof (induction "unat v" arbitrary: v rule: less_induct)
  case less
  show ?case
  proof (cases "0x80 \<le> v")
    case True
    then have "128 \<le> unat v" by (simp add: word_le_nat_alt)
    then have "unat (drop_bit 7 v) < unat v" by (simp add: unat_drop_bit_div)
    then show ?thesis using assms(2) [OF True] less by blast
  qed (use assms(1) not_le in auto)
qed

section \<open>Reading back\<close>

lemma mask7_u8: "(0x7F :: u8) = mask 7"
  by (simp add: mask_eq_exp_minus_1)

lemma bit8_u8: "bit (0x80 :: u8) n \<longleftrightarrow> n = 7"
proof -
  have "(0x80 :: u8) = 2 ^ 7" by simp
  then show ?thesis by (auto simp only: bit_exp_iff possible_bit_def) simp_all
qed

lemma bit8_int [simp]: "bit (0x80 :: int) n \<longleftrightarrow> n = 7"
proof -
  have "(0x80 :: int) = 2 ^ 7" by simp
  then show ?thesis by (auto simp only: bit_exp_iff possible_bit_def)
qed

lemma payload_bits:
  "(ucast (ucast (v :: u64) AND (0x7F :: u8)) :: 'a::len word) = ucast (take_bit 7 v)"
  unfolding mask7_u8 by (rule bit_word_eqI) (auto simp: bit_simps)

lemma payload_bits_cont:
  "(ucast ((ucast (v :: u64) OR 0x80) AND (0x7F :: u8)) :: 'a::len word) = ucast (take_bit 7 v)"
  unfolding mask7_u8 by (rule bit_word_eqI) (auto simp: bit_simps)

lemma continuation_bit:
  "((ucast (v :: u64) OR 0x80) AND (0x80 :: u8)) \<noteq> 0"
  "(v :: u64) < 0x80 \<Longrightarrow> ucast v AND (0x80 :: u8) = 0"
proof -
  have "bit ((ucast v OR 0x80) AND (0x80 :: u8)) 7" by (simp add: bit_simps bit8_u8)
  then show "((ucast v OR 0x80) AND (0x80 :: u8)) \<noteq> 0" by auto
next
  assume "v < 0x80"
  then have "unat v < 128" by (simp add: word_less_nat_alt)
  then have "unat (take_bit 7 v) = unat v" by (simp add: unat_take_bit take_bit_nat_eq_self)
  then have "v = take_bit 7 v" by (simp add: word_unat_eq_iff)
  then have "\<not> bit v 7" by (metis bit_take_bit_iff less_irrefl)
  then show "ucast v AND (0x80 :: u8) = 0" 
    by (intro bit_word_eqI) (auto simp: bit_simps bit8_u8)
qed

lemma small_take_bit: "(v :: u64) < 0x80 \<Longrightarrow> take_bit 7 v = v"
  by (simp add: word_less_nat_alt word_unat_eq_iff unat_take_bit take_bit_nat_eq_self)

lemma take_drop_7: "push_bit n (take_bit 7 v) OR push_bit (n + 7) (drop_bit 7 v) = push_bit n (v :: u64)"
proof (rule bit_word_eqI)
  fix m assume "m < LENGTH(64)"
  show "bit (push_bit n (take_bit 7 v) OR push_bit (n + 7) (drop_bit 7 v)) m = bit (push_bit n v) m"
    by (cases "n \<le> m"; cases "n + 7 \<le> m") (auto simp: bit_simps)
qed

abbreviation shifts_from :: "nat \<Rightarrow> nat list" where
  "shifts_from i \<equiv> map (\<lambda>k. 7 * k) [i..<10]"

lemma shifts_all: "[0, 7, 14, 21, 28, 35, 42, 49, 56, 63] = shifts_from 0"
  by (simp add: upt_conv_Cons)

lemma read_varint_loop_stop:
  assumes "idx data pos = Some (ucast v)" and "v < 0x80" and "s < 64"
  shows "read_varint_loop data (s # ss) pos acc = Some (acc OR push_bit s v, pos + 1)"
  unfolding read_varint_loop.simps(2) assms(1) bind.bind_lunit checked_shl_def Let_def
    continuation_bit(2) [OF assms(2)] payload_bits small_take_bit [OF assms(2)]
  using assms(3) by simp

lemma read_varint_loop_cont:
  assumes "idx data pos = Some (ucast (v :: u64) OR 0x80)" and "s < 64"
  shows "read_varint_loop data (s # ss) pos acc
           = read_varint_loop data ss (pos + 1) (acc OR push_bit s (take_bit 7 v))"
  unfolding read_varint_loop.simps(2) assms(1) bind.bind_lunit checked_shl_def Let_def payload_bits_cont
  using assms(2) continuation_bit(1) [of v] by simp

lemma read_varint_loop_bytes:
  assumes "i \<le> 9" and "unat v < 2 ^ (64 - 7 * i)" and "drop pos data = varint_bytes v @ post"
  shows "read_varint_loop data (shifts_from i) pos acc
           = Some (acc OR push_bit (7 * i) v, pos + length (varint_bytes v))"
  using assms
proof (induction v arbitrary: i pos acc rule: varint_induct)
  case (small v)
  then have b: "drop pos data = ucast v # post" by (subst (asm) varint_bytes_unfold) simp
  then have "idx data pos = Some (ucast v)" by (rule drop_Cons_idx)
  moreover have "length (varint_bytes v) = 1" using small.hyps by (subst varint_bytes_unfold) simp
  ultimately show ?case using small read_varint_loop_stop [of data pos v "7 * i"]
    by (simp add: upt_conv_Cons)
next
  case (big v)
  have len: "varint_bytes v = (ucast v OR 0x80) # varint_bytes (drop_bit 7 v)"
    using big.hyps by (subst varint_bytes_unfold) simp
  then have b: "drop pos data = (ucast v OR 0x80) # varint_bytes (drop_bit 7 v) @ post"
    using big.prems by simp
  then have ix: "idx data pos = Some (ucast v OR 0x80)"
    and d: "drop (Suc pos) data = varint_bytes (drop_bit 7 v) @ post"
    by (rule drop_Cons_idx)+
  have "128 \<le> unat v" using big.hyps by (simp add: word_le_nat_alt)
  then have "(2::nat) ^ 7 < 2 ^ (64 - 7 * i)" using big.prems(2) by simp
  then have "7 < 64 - 7 * i" by (rule power_less_imp_less_exp [rotated]) simp
  then have i: "i \<le> 8" by simp
  then have "(2::nat) ^ (64 - 7 * i) = 2 ^ (64 - 7 * Suc i) * 2 ^ 7"
    by (simp only: power_add [symmetric]) simp
  then have "unat v < 2 ^ (64 - 7 * Suc i) * 2 ^ 7" using big.prems(2) by simp
  then have bound: "unat (drop_bit 7 v) < 2 ^ (64 - 7 * Suc i)"
    unfolding unat_drop_bit_div by (rule less_mult_imp_div_less)
  have "read_varint_loop data (shifts_from (Suc i)) (Suc pos) (acc OR push_bit (7 * i) (take_bit 7 v))
      = Some ((acc OR push_bit (7 * i) (take_bit 7 v)) OR push_bit (7 * Suc i) (drop_bit 7 v),
              Suc pos + length (varint_bytes (drop_bit 7 v)))"
    using i bound d by (intro big.IH) auto
  moreover have "(acc OR push_bit (7 * i) (take_bit 7 v)) OR push_bit (7 * Suc i) (drop_bit 7 v)
      = acc OR push_bit (7 * i) v"
    using take_drop_7 [of "7 * i" v] by (simp add: or.assoc add.commute)
  moreover have "shifts_from i = 7 * i # shifts_from (Suc i)" using i by (simp add: upt_conv_Cons)
  ultimately show ?case using i len read_varint_loop_cont [OF ix, of "7 * i" "shifts_from (Suc i)" acc]
    by simp
qed

lemma read_varint_bytes:
  "drop pos data = varint_bytes v @ post \<Longrightarrow> read_varint data pos = Some (v, pos + length (varint_bytes v))"
  unfolding read_varint_def shifts_all
  using read_varint_loop_bytes [of 0 v pos data post 0] unat_u64_bound [of v] by simp

lemma read_varint_u32_bytes:
  assumes "drop pos data = varint32 w @ post"
  shows "read_varint_u32 data pos = Some (w, pos + length (varint32 w))"
proof -
  have "(ucast w :: u64) \<le> 0xFFFFFFFF"
    using unat_u32_bound [of w] by (simp add: word_le_nat_alt)
  then show ?thesis using read_varint_bytes [OF assms] by (simp add: read_varint_u32_def)
qed

interpretation varint: codec varint_bytes read_varint "\<lambda>_. True"
  by unfold_locales (auto intro!: read_varint_bytes)

interpretation varint_u32: codec varint32 read_varint_u32 "\<lambda>_. True"
  by unfold_locales (auto intro!: read_varint_u32_bytes)

section \<open>Lengths and bounds\<close>

lemma varint_len_loop_bytes:
  "varint_len_loop n v = (if v = 0 then n else n + length (varint_bytes v))"
proof (induction v arbitrary: n rule: varint_induct)
  case (small v)
  then have "drop_bit 7 v = 0"
    by (metis (no_types) drop_bit_take_bit diff_self_eq_0 small_take_bit take_bit_0)
  with small show ?case
    by (simp add: varint_len_loop.simps [of n v] varint_len_loop.simps [of "Suc n" 0]
        varint_bytes_small word_neq_0_conv)
next
  case (big v)
  then have "v \<noteq> 0" and "drop_bit 7 v \<noteq> 0"
    by (auto simp: word_le_nat_alt word_unat_eq_iff unat_drop_bit_div)
  then show ?case using big
    by (simp add: varint_len_loop.simps [of n v] varint_bytes_unfold [of v] word_neq_0_conv)
qed

lemma varint_len_bytes: "varint_len v = length (varint_bytes v)"
proof (cases "0x80 \<le> v")
  case True
  then have "drop_bit 7 v \<noteq> 0" by (auto simp: word_le_nat_alt word_unat_eq_iff unat_drop_bit_div)
  with True show ?thesis
    by (simp add: varint_len_def varint_len_loop_bytes varint_bytes_unfold [of v])
next
  case False
  then have "drop_bit 7 v = 0"
    by (auto simp: word_le_nat_alt word_unat_eq_iff unat_drop_bit_div)
  with False show ?thesis
    by (simp add: varint_len_def varint_len_loop_bytes varint_bytes_unfold [of v])
qed

lemma varint_bytes_length_bound: "unat v < 2 ^ (7 * n) \<Longrightarrow> 0 < n \<Longrightarrow> length (varint_bytes v) \<le> n"
proof (induction v arbitrary: n rule: varint_induct)
  case (small v)
  then show ?case by (simp add: varint_bytes_small)
next
  case (big v)
  have "128 \<le> unat v" using big.hyps by (simp add: word_le_nat_alt)
  with big.prems have "(2::nat) ^ 7 < 2 ^ (7 * n)" by simp
  then have "7 < 7 * n" by (rule power_less_imp_less_exp [rotated]) simp
  then obtain m where m: "n = Suc m" "0 < m" by (cases n) auto
  have "unat v < 2 ^ (7 * m) * 2 ^ 7" using big.prems m by (simp add: power_add mult.commute)
  then have "unat (drop_bit 7 v) < 2 ^ (7 * m)"
    unfolding unat_drop_bit_div by (rule less_mult_imp_div_less)
  then have "length (varint_bytes (drop_bit 7 v)) \<le> m" using big.IH m by simp
  then show ?case using big.hyps m by (subst varint_bytes_unfold) simp
qed

lemma varint_bytes_le_10: "length (varint_bytes v) \<le> 10"
  using varint_bytes_length_bound [of v 10] unat_u64_bound [of v] by simp

lemma varint32_le_5: "length (varint32 w) \<le> 5"
  using varint_bytes_length_bound [of "ucast w" 5] unat_u32_bound [of w] by simp

lemma read_varint_loop_range:
  "read_varint_loop data ss pos v = Some (r, p) \<Longrightarrow> pos < p \<and> p \<le> pos + length ss \<and> p \<le> length data"
proof (induction data ss pos v rule: read_varint_loop.induct)
  case (2 data s ss pos v)
  then show ?case
    by (fastforce simp: checked_shl_def idx_def Let_def split: if_splits bind_splits)
qed simp

lemma read_varint_range:
  "read_varint data pos = Some (v, p) \<Longrightarrow> pos < p \<and> p \<le> pos + 10 \<and> p \<le> length data"
  unfolding read_varint_def by (drule read_varint_loop_range) simp

lemma read_varint_loop_truncated:
  assumes "k < length (varint_bytes v)" and "drop pos data = take k (varint_bytes v)"
  shows "read_varint_loop data (shifts_from i) pos acc = None"
  using assms
proof (induction v arbitrary: i k pos acc rule: varint_induct)
  case (small v)
  then have "idx data pos = None" by (simp add: varint_bytes_small idx_def)
  then show ?case by (cases "i < 10") (simp_all add: upt_conv_Cons)
next
  case (big v)
  show ?case
  proof (cases k)
    case 0
    then have "idx data pos = None" using big.prems by (simp add: idx_def)
    then show ?thesis by (cases "i < 10") (simp_all add: upt_conv_Cons)
  next
    case (Suc j)
    then have "drop pos data = (ucast v OR 0x80) # take j (varint_bytes (drop_bit 7 v))"
      using big by (simp add: varint_bytes_big)
    note step = drop_Cons_idx [OF this]
    show ?thesis
    proof (cases "i < 10")
      case True
      have "read_varint_loop data (shifts_from (Suc i)) (pos + 1) a = None" for a
        using big Suc step(2) by (intro big.IH [of j]) (simp_all add: varint_bytes_big)
      moreover have "shifts_from i = 7 * i # shifts_from (Suc i)" using True by (simp add: upt_conv_Cons)
      ultimately show ?thesis
        using True read_varint_loop_cont [OF step(1), of "7 * i" "shifts_from (Suc i)" acc] by simp
    qed simp
  qed
qed

section \<open>The tight decoder\<close>

lemma take_drop_7_u32:
  "push_bit n (ucast (take_bit 7 v)) OR push_bit (n + 7) (ucast (drop_bit 7 v)) = push_bit n (ucast (v :: u64) :: u32)"
proof (rule bit_word_eqI)
  fix m assume "m < LENGTH(32)"
  then show "bit (push_bit n (ucast (take_bit 7 v)) OR push_bit (n + 7) (ucast (drop_bit 7 v)) :: u32) m
      = bit (push_bit n (ucast v :: u32)) m"
    by (cases "n \<le> m"; cases "n + 7 \<le> m") (auto simp: bit_simps)
qed

lemma decode_vint_loop_bytes:
  "decode_vint_loop (varint_bytes v @ post) i s r
     = (r OR push_bit s (ucast v), Some (i + length (varint_bytes v)))"
proof (induction v arbitrary: i s r rule: varint_induct)
  case (small v)
  then show ?case
    by (simp add: varint_bytes_small Let_def continuation_bit(2) payload_bits small_take_bit)
next
  case (big v)
  have "decode_vint_loop ((ucast v OR 0x80) # varint_bytes (drop_bit 7 v) @ post) i s r
      = decode_vint_loop (varint_bytes (drop_bit 7 v) @ post) (i + 1) (s + 7) (r OR push_bit s (ucast (take_bit 7 v)))"
    unfolding decode_vint_loop.simps(2) Let_def payload_bits_cont using continuation_bit(1) [of v] by simp
  then show ?case using big take_drop_7_u32 [of s v] by (simp add: varint_bytes_big or.assoc)
qed

lemma decode_vint_bytes: "decode_vint (varint32 w @ post) = (w, length (varint32 w))"
proof -
  have "take 5 (varint32 w @ post) = varint32 w @ take (5 - length (varint32 w)) post"
    using varint32_le_5 [of w] by simp
  then show ?thesis by (simp add: decode_vint_def decode_vint_loop_bytes)
qed

section \<open>Properties\<close>

text \<open>
  C1.  Writing any 64-bit value at the end of a buffer and reading it back at the position where
  the buffer ended gives the value and leaves the reader exactly behind the written bytes,
  whatever was in the buffer before and whatever follows; the 32-bit reader does the same for
  every 32-bit value.
\<close>

theorem varint_roundtrip:
  "read_varint (write_varint buf v @ post) (length buf) = Some (v, length (write_varint buf v))
   \<and> read_varint_u32 (write_varint buf (ucast (w :: u32)) @ post) (length buf)
       = Some (w, length (write_varint buf (ucast w)))"
  using varint.dec_enc [where pre = buf and v = v and post = post]
    varint_u32.dec_enc [where pre = buf and v = w and post = post]
  by (simp add: write_varint_append)

text \<open>
  \<open>varint_len\<close> is the number of bytes the writer appends, between one and ten.
\<close>

theorem varint_len_correct:
  "length (write_varint buf v) = length buf + varint_len v \<and> 1 \<le> varint_len v \<and> varint_len v \<le> 10"
  using varint_bytes_le_10 [of v] varint_bytes_nonempty [of v]
  by (simp add: write_varint_append varint_len_bytes Suc_le_eq del: varint_bytes_nonempty)

text \<open>
  C3.  A file cut inside a varint is detected: reading any strict prefix of an encoding gives
  \<open>None\<close>, and a successful read consumes between one and ten bytes and never runs past the
  input.
\<close>

theorem read_varint_truncated:
  "(k < length (write_varint [] v) \<longrightarrow> read_varint (take k (write_varint [] v)) 0 = None)
   \<and> (read_varint data pos = Some (x, p) \<longrightarrow> pos < p \<and> p \<le> pos + 10 \<and> p \<le> length data)"
  using read_varint_loop_truncated [of k v 0 "take k (varint_bytes v)" 0 0] read_varint_range
  by (auto simp: write_varint_append read_varint_def shifts_all)

theorem read_varint_truncated_witness:
  "read_varint (take 1 (write_varint [] 300)) 0 = None
   \<and> read_varint [0xAC, 0x02, 0x07] 0 = Some (300, 2) \<and> (2::nat) \<le> 3"
proof -
  have len: "length (write_varint [] 300) = 2"
    by (simp add: write_varint_append varint_bytes_unfold)
  have rd: "read_varint [0xAC, 0x02, 0x07] 0 = Some (300, 2)"
    by (simp add: read_varint_def idx_def checked_shl_def)
  show ?thesis
    using read_varint_truncated [of 1 300 "[0xAC, 0x02, 0x07]" 0 300 2] len rd by simp
qed

text \<open>
  C4.  The unchecked decoder of the posting payloads agrees with the writer on every 32-bit value:
  it returns the value and the number of bytes the varint takes.
\<close>

theorem decode_vint_correct:
  "decode_vint (write_varint [] (ucast w) @ post) = (w, varint_len (ucast w))"
  by (simp add: write_varint_append decode_vint_bytes varint_len_bytes)

text \<open>
  The 32-bit reader does not refuse every value that does not fit: a ten-byte encoding of
  \<open>2 ^ 64\<close> loses its high bit in the shift by 63 and reads back as 0.
\<close>

theorem read_varint_u32_wraps:
  "read_varint_u32 [0x80, 0x80, 0x80, 0x80, 0x80, 0x80, 0x80, 0x80, 0x80, 0x02] 0 = Some (0, 10)"
  by (simp add: read_varint_u32_def read_varint_def idx_def checked_shl_def)

end
