(* ===== verification/BlockOffsets.thy ===== *)
theory BlockOffsets
  imports Prelude
begin

text \<open>
  Block-coded offset tables, \<open>src/src/suffix_fst/block_offsets.rs\<close>: the encoder, the view with
  its \<open>parse\<close> and \<open>get\<close>, and the two-shape \<open>OffsetTable\<close> behind one \<open>get\<close>.  The locale
  \<open>offset_table\<close> is what the per-ordinal sidecars rely on: looking up the \<open>i\<close>-th offset
  returns it, so two adjacent offsets cut the region of entry \<open>i\<close> out of the data.
\<close>

section \<open>Definitions\<close>

definition BLOCK :: nat where "BLOCK = 64"

definition block_width :: "u32 \<Rightarrow> u8" where
  "block_width span =
     (if span = 0 then 0 else if span < push_bit 8 1 then 1 else if span < push_bit 16 1 then 2
      else if span < push_bit 24 1 then 3 else 4)"

definition encode_block :: "u32 list \<Rightarrow> bytes" where
  "encode_block chunk =
     (let base = chunk ! 0;
          span = chunk ! (length chunk - 1) - base;
          width = block_width span
      in le32 base @ [width] @ concat (map (\<lambda>o1. to_le (unat width) (o1 - base)) chunk))"

fun encode_blocks :: "u32 list list \<Rightarrow> u32 list \<Rightarrow> bytes \<Rightarrow> u32 list \<times> bytes" where
  "encode_blocks [] dir blocks = (dir, blocks)"
| "encode_blocks (chunk # rest) dir blocks =
     encode_blocks rest (dir @ [u32_of (length blocks)]) (blocks @ encode_block chunk)"

definition encode :: "u32 list \<Rightarrow> bytes" where
  "encode offsets =
     (let num = length offsets;
          num_blocks = div_ceil num BLOCK;
          (dir, blocks) = encode_blocks (chunks BLOCK offsets) [] []
      in le32 (u32_of num) @ le32 (u32_of num_blocks) @ le32 (u32_of (length blocks))
         @ concat (map le32 dir) @ blocks)"

record BlockOffsets =
  bo_num :: u32
  bo_dir :: bytes
  bo_blocks :: bytes

text \<open>Every slice of \<open>parse\<close> is in range by the guards before it: \<open>None\<close> is the returned \<open>None\<close>.\<close>

definition parse :: "bytes \<Rightarrow> (BlockOffsets \<times> nat) option" where
  "parse bs =
     (if length bs < 12 then None else do {
        num \<leftarrow> read_u32 bs 0;
        nb \<leftarrow> read_u32 bs 4;
        bb \<leftarrow> read_u32 bs 8;
        let dir_end = 12 + unat nb * 4;
        let end1 = dir_end + unat bb;
        if length bs < end1 \<or> unat nb \<noteq> div_ceil (unat num) BLOCK then None
        else do {
          dir \<leftarrow> slice bs 12 dir_end;
          blocks \<leftarrow> slice bs dir_end end1;
          Some (\<lparr>bo_num = num, bo_dir = dir, bo_blocks = blocks\<rparr>, end1) } })"

definition bo_get :: "BlockOffsets \<Rightarrow> u32 \<Rightarrow> u32 exec" where
  "bo_get t i = (
     let b = unat i div BLOCK; r = unat i mod BLOCK in do {
       p \<leftarrow> map_option unat (read_u32 (bo_dir t) (b * 4));
       base \<leftarrow> read_u32 (bo_blocks t) p;
       width \<leftarrow> map_option unat (idx (bo_blocks t) (p + 4));
       if width = 0 then Some base
       else if 4 < width then None
       else do {
         let q = p + 5 + r * width;
         d \<leftarrow> slice (bo_blocks t) q (q + width);
         Some (base + from_le (d @ replicate (4 - width) 0)) } })"

datatype OffsetTable = Flat bytes | Block BlockOffsets

fun ot_get :: "OffsetTable \<Rightarrow> u32 \<Rightarrow> u32 exec" where
  "ot_get (Flat bs) i = read_u32 bs (unat i * 4)"
| "ot_get (Block t) i = bo_get t i"

section \<open>The contract of an offset table\<close>

text \<open>The bytes of entry \<open>i\<close>, cut by the offsets \<open>i\<close> and \<open>i + 1\<close>.\<close>

definition region :: "('t \<Rightarrow> u32 \<Rightarrow> u32 exec) \<Rightarrow> 't \<Rightarrow> bytes \<Rightarrow> u32 \<Rightarrow> bytes exec" where
  "region get t data i = do {
     a \<leftarrow> get t i;
     b \<leftarrow> get t (i + 1);
     slice data (unat a) (unat b) }"

definition region_offsets :: "bytes list \<Rightarrow> u32 list" where
  "region_offsets xss = map u32_of (starts 0 xss)"

locale offset_table =
  fixes table :: "u32 list \<Rightarrow> 't"
    and get :: "'t \<Rightarrow> u32 \<Rightarrow> u32 exec"
    and ok :: "u32 list \<Rightarrow> bool"
  assumes get_table: "ok os \<Longrightarrow> i < length os \<Longrightarrow> get (table os) (u32_of i) = Some (os ! i)"
    and ok_length: "ok os \<Longrightarrow> length os \<le> 2 ^ 32"
begin

lemma get_offset:
  assumes "ok (region_offsets xss)" and "length (concat xss) < 2 ^ 32" and "i \<le> length xss"
  shows "map_option unat (get (table (region_offsets xss)) (u32_of i)) = Some (starts 0 xss ! i)"
proof -
  have "starts 0 xss ! i < 2 ^ 32" using starts_le_total [OF assms(3), of 0] assms(2) by simp
  then show ?thesis
    using get_table [OF assms(1), of i] assms(3) by (simp add: region_offsets_def)
qed

lemma region_table:
  assumes "ok (region_offsets xss)" and "length (concat xss) < 2 ^ 32" and "i < length xss"
  shows "region get (table (region_offsets xss)) (concat xss @ post) (u32_of i) = Some (xss ! i)"
proof -
  have "u32_of i + 1 = u32_of (Suc i)" by simp
  moreover obtain a b where
    "get (table (region_offsets xss)) (u32_of i) = Some a" "unat a = starts 0 xss ! i"
    "get (table (region_offsets xss)) (u32_of (Suc i)) = Some b" "unat b = starts 0 xss ! Suc i"
    using get_offset [OF assms(1,2), of i] get_offset [OF assms(1,2), of "Suc i"] assms(3) by auto
  ultimately show ?thesis
    using slice_concat_region [OF assms(3)] by (simp add: region_def add.commute)
qed

end

section \<open>Layout of the encoded table\<close>

lemma encode_blocks_eq:
  "encode_blocks cs dir blocks =
     (dir @ map u32_of (butlast (starts (length blocks) (map encode_block cs))),
      blocks @ concat (map encode_block cs))"
  by (induction cs arbitrary: dir blocks) (auto simp: neq_Nil_conv simp flip: length_0_conv)

definition blocks_of :: "u32 list \<Rightarrow> bytes list" where
  "blocks_of os = map encode_block (chunks BLOCK os)"

definition dir_of :: "u32 list \<Rightarrow> u32 list" where
  "dir_of os = map u32_of (butlast (starts 0 (blocks_of os)))"

definition view_of :: "u32 list \<Rightarrow> BlockOffsets" where
  "view_of os = \<lparr>bo_num = u32_of (length os), bo_dir = concat (map le32 (dir_of os)),
                 bo_blocks = concat (blocks_of os)\<rparr>"

lemma length_blocks_of [simp]: "length (blocks_of os) = div_ceil (length os) BLOCK"
  by (simp add: blocks_of_def length_chunks BLOCK_def)

lemma length_dir_of [simp]: "length (dir_of os) = div_ceil (length os) BLOCK"
  by (simp add: dir_of_def)

lemma encode_eq:
  "encode os = le32 (u32_of (length os)) @ le32 (u32_of (div_ceil (length os) BLOCK))
     @ le32 (u32_of (length (concat (blocks_of os)))) @ bo_dir (view_of os) @ bo_blocks (view_of os)"
  by (simp add: encode_def encode_blocks_eq view_of_def dir_of_def blocks_of_def Let_def)

lemma block_width_le_4: "unat (block_width s) \<le> 4"
  by (simp add: block_width_def)

lemma block_width_fits: "unat s < 2 ^ (8 * unat (block_width s))"
proof -
  have "unat s = 0" if "s = 0" using that by simp
  moreover have "unat s < 2 ^ 8" if "s < push_bit 8 1" using that by (simp add: word_less_nat_alt)
  moreover have "unat s < 2 ^ 16" if "s < push_bit 16 1" using that by (simp add: word_less_nat_alt)
  moreover have "unat s < 2 ^ 24" if "s < push_bit 24 1" using that by (simp add: word_less_nat_alt)
  moreover have "unat s < 2 ^ 32" by (rule unat_u32_bound)
  ultimately show ?thesis by (auto simp: block_width_def)
qed

lemma length_encode_block: "length (encode_block c) \<le> 5 + 4 * length c"
proof -
  let ?w = "unat (block_width (c ! (length c - 1) - c ! 0))"
  have "length (encode_block c) = 5 + ?w * length c"
    unfolding encode_block_def Let_def by (simp add: length_concat_fixed [where w = ?w])
  then show ?thesis using block_width_le_4 by (simp add: mult_le_mono1)
qed

lemma length_concat_blocks:
  "length (concat (map encode_block cs)) \<le> 5 * length cs + 4 * length (concat cs)"
proof (induction cs)
  case (Cons c cs)
  then show ?case using length_encode_block [of c] by simp
qed simp

text \<open>A table of at most \<open>2 ^ 29\<close> offsets has a blocks region below \<open>2 ^ 32\<close> bytes.\<close>

lemma blocks_fit:
  assumes "length os \<le> 2 ^ 29"
  shows "length (concat (blocks_of os)) < 2 ^ 32"
proof -
  have "length (concat (blocks_of os)) \<le> 5 * div_ceil (length os) BLOCK + 4 * length os"
    using length_concat_blocks [of "chunks BLOCK os"]
    by (simp add: blocks_of_def concat_chunks length_chunks BLOCK_def)
  moreover have "div_ceil (length os) BLOCK \<le> length os div 64 + 1"
    by (simp add: div_ceil_def BLOCK_def)
  moreover have "length os div 64 \<le> 2 ^ 29 div 64" using assms by (rule div_le_mono)
  ultimately show ?thesis using assms by simp
qed

section \<open>Reading back\<close>

lemma parse_encode:
  assumes "length os \<le> 2 ^ 29"
  shows "parse (encode os @ post) = Some (view_of os, length (encode os))"
proof -
  let ?nb = "div_ceil (length os) BLOCK" and ?bb = "length (concat (blocks_of os))"
  let ?d = "bo_dir (view_of os)" and ?k = "bo_blocks (view_of os)"
  have "length os div 64 \<le> 2 ^ 29 div 64" using assms by (rule div_le_mono)
  then have nb: "?nb < 2 ^ 32" by (simp add: div_ceil_def BLOCK_def)
  have len: "length ?d = 4 * ?nb" "length ?k = ?bb"
    by (simp_all add: view_of_def length_concat_fixed [where w = 4])
  have r: "read_u32 (encode os @ post) 0 = Some (u32_of (length os))"
    "read_u32 (encode os @ post) 4 = Some (u32_of ?nb)"
    "read_u32 (encode os @ post) 8 = Some (u32_of ?bb)"
    "slice (encode os @ post) 12 (12 + ?nb * 4) = Some ?d"
    "slice (encode os @ post) (12 + ?nb * 4) (12 + ?nb * 4 + ?bb) = Some ?k"
    by (simp_all add: encode_eq exec_simps len)
  have "length (encode os) = 12 + ?nb * 4 + ?bb" by (simp add: encode_eq len)
  then show ?thesis
    using r nb assms blocks_fit [OF assms] by (simp add: parse_def view_of_def)
qed

lemma delta_bytes:
  assumes "unat (x :: u32) < 2 ^ (8 * w)"
  shows "from_le (to_le w x @ replicate k 0) = x"
proof -
  have "unat (take_bit (8 * w) x) = unat x"
    unfolding unat_take_bit using assms by (rule take_bit_nat_eq_self)
  then have "take_bit (8 * w) x = x" by (simp only: word_unat_eq_iff)
  then show ?thesis by (simp add: from_le_append_zeros from_le_to_le_take)
qed

lemma sorted_chunk_delta:
  assumes "sorted c" and "r < length (c :: u32 list)"
  shows "unat (c ! r - c ! 0) \<le> unat (c ! (length c - 1) - c ! 0)"
proof -
  have "c ! 0 \<le> c ! r" and "c ! r \<le> c ! (length c - 1)"
    using assms by (auto intro: sorted_nth_mono)
  moreover from this have "c ! 0 \<le> c ! (length c - 1)" by simp
  ultimately show ?thesis by (simp add: unat_sub word_le_nat_alt)
qed

lemma nth_dir_of: "b < div_ceil (length os) BLOCK \<Longrightarrow> dir_of os ! b = u32_of (starts 0 (blocks_of os) ! b)"
  by (simp add: dir_of_def nth_butlast)

lemma read_block:
  assumes "length os \<le> 2 ^ 29" and "i < length os" and c: "c = chunks BLOCK os ! (i div BLOCK)"
    and w: "w = block_width (c ! (length c - 1) - c ! 0)"
  obtains p where "read_u32 (bo_dir (view_of os)) (i div BLOCK * 4) = Some p"
    and "read_u32 (bo_blocks (view_of os)) (unat p) = Some (c ! 0)"
    and "idx (bo_blocks (view_of os)) (unat p + 4) = Some w"
    and "\<And>r. r < length c \<Longrightarrow> slice (bo_blocks (view_of os)) (unat p + 5 + r * unat w)
            (unat p + 5 + r * unat w + unat w) = Some (to_le (unat w) (c ! r - c ! 0))"
proof -
  let ?b = "i div BLOCK" and ?bl = "blocks_of os"
  let ?ds = "concat (map (\<lambda>x. to_le (unat w) (x - c ! 0)) c)"
  have b: "?b < length ?bl" using assms(2) by (simp add: div_ceil_mult BLOCK_def)
  define pre post where "pre = concat (take ?b ?bl)" and "post = concat (drop (Suc ?b) ?bl)"
  have "?bl ! ?b = le32 (c ! 0) @ w # ?ds"
    using nth_chunk_elem(1) [of BLOCK i os] assms(2)
    by (simp add: blocks_of_def encode_block_def c w BLOCK_def Let_def)
  then have bl: "bo_blocks (view_of os) = pre @ le32 (c ! 0) @ w # ?ds @ post"
    using concat_region_split [OF b] by (simp add: view_of_def pre_def post_def)
  have st: "starts 0 ?bl ! ?b = length pre" using b by (simp add: nth_starts pre_def)
  have p: "unat (u32_of (length pre)) = length pre"
    using starts_le_total [of ?b ?bl 0] b st blocks_fit [OF assms(1)] by simp
  show ?thesis
  proof
    show "read_u32 (bo_dir (view_of os)) (?b * 4) = Some (u32_of (length pre))"
      using read_u32_table [of ?b "dir_of os" "?b * 4" "[]" "[]"] b
      by (simp add: view_of_def nth_dir_of st)
    show "read_u32 (bo_blocks (view_of os)) (unat (u32_of (length pre))) = Some (c ! 0)"
      by (simp add: bl p exec_simps)
    show "idx (bo_blocks (view_of os)) (unat (u32_of (length pre)) + 4) = Some w"
      unfolding p bl by (simp add: idx_def nth_append)
    show "slice (bo_blocks (view_of os)) (unat (u32_of (length pre)) + 5 + r * unat w)
        (unat (u32_of (length pre)) + 5 + r * unat w + unat w) = Some (to_le (unat w) (c ! r - c ! 0))"
      if "r < length c" for r
      using slice_concat_fixed [of c "\<lambda>x. to_le (unat w) (x - c ! 0)" "unat w" r
          "length pre + 5 + r * unat w" "pre @ le32 (c ! 0) @ [w]" _ post] that
      by (simp add: bl p mult.commute)
  qed
qed

lemma bo_get_view:
  assumes "sorted os" and "length os \<le> 2 ^ 29" and "i < length os"
  shows "bo_get (view_of os) (u32_of i) = Some (os ! i)"
proof -
  define c where "c = chunks BLOCK os ! (i div BLOCK)"
  define w where "w = block_width (c ! (length c - 1) - c ! 0)"
  have B: "0 < BLOCK" by (simp add: BLOCK_def)
  note el = nth_chunk_elem [OF B assms(3), folded c_def]
  have sc: "sorted c"
    using assms(1) el(1) by (simp add: c_def nth_chunks sorted_wrt_take sorted_wrt_drop)
  have fit: "unat (c ! (i mod BLOCK) - c ! 0) < 2 ^ (8 * unat w)"
    using sorted_chunk_delta [OF sc el(2)] block_width_fits [of "c ! (length c - 1) - c ! 0"]
    by (simp add: w_def)
  obtain p where p: "read_u32 (bo_dir (view_of os)) (i div BLOCK * 4) = Some p"
    "read_u32 (bo_blocks (view_of os)) (unat p) = Some (c ! 0)"
    "idx (bo_blocks (view_of os)) (unat p + 4) = Some w"
    "\<And>r. r < length c \<Longrightarrow> slice (bo_blocks (view_of os)) (unat p + 5 + r * unat w)
            (unat p + 5 + r * unat w + unat w) = Some (to_le (unat w) (c ! r - c ! 0))"
    using read_block [OF assms(2,3) c_def w_def] by blast
  have i: "unat (u32_of i) = i" using assms(2,3) by simp
  have zero: "c ! (i mod BLOCK) = c ! 0" if "unat w = 0" using fit that by (simp add: unat_eq_zero)
  show ?thesis
    using p(1-3) p(4) [OF el(2)] block_width_le_4 [of "c ! (length c - 1) - c ! 0", folded w_def]
      zero el(3) delta_bytes [OF fit]
    by (auto simp: bo_get_def i Let_def)
qed

definition block_ok :: "u32 list \<Rightarrow> bool" where
  "block_ok os \<longleftrightarrow> sorted os \<and> length os \<le> 2 ^ 29"

interpretation flat: offset_table "\<lambda>os. Flat (concat (map le32 os))" ot_get "\<lambda>os. length os \<le> 2 ^ 32"
proof (unfold_locales, goal_cases)
  case (1 os i)
  then have "unat (u32_of i) = i" by simp
  then show ?case
    using read_u32_table [of i os "i * 4" "[]" "[]"] 1 by simp
qed simp

interpretation block: offset_table "\<lambda>os. Block (view_of os)" ot_get block_ok
  by unfold_locales (auto simp: block_ok_def bo_get_view)

lemma sorted_region_offsets:
  assumes "length (concat xss) < 2 ^ 32"
  shows "sorted (region_offsets xss)"
proof -
  have "u32_of (starts 0 xss ! i) \<le> u32_of (starts 0 xss ! j)" if "i \<le> j" "j < length (starts 0 xss)" for i j
  proof -
    have "starts 0 xss ! i \<le> starts 0 xss ! j" using that sorted_starts by (rule_tac sorted_nth_mono)
    moreover have "starts 0 xss ! j < 2 ^ 32" using starts_le_total [of j xss 0] that assms by simp
    ultimately show ?thesis by (simp add: word_le_nat_alt)
  qed
  then show ?thesis by (simp add: region_offsets_def sorted_iff_nth_mono)
qed

section \<open>Properties\<close>

text \<open>
  C6.  A block-coded table is parsed back in front of any trailing bytes, with the number of
  bytes it occupies, and \<open>get\<close> then returns every offset of the table: for a non-decreasing
  table of at most \<open>2 ^ 29\<close> offsets, over every block width (0 to 4 bytes).
\<close>

theorem block_offsets_roundtrip:
  assumes "sorted offsets" and "length offsets \<le> 2 ^ 29"
  shows "\<exists>t. parse (encode offsets @ rest) = Some (t, length (encode offsets))
           \<and> (\<forall>i < length offsets. bo_get t (u32_of i) = Some (offsets ! i))"
  using parse_encode [OF assms(2)] bo_get_view [OF assms] by blast

theorem block_offsets_roundtrip_witness:
  "\<exists>t. parse (encode [3, 3, 300, 70000] @ [9]) = Some (t, 33)
     \<and> bo_get t 2 = Some 300 \<and> bo_get t 3 = Some 70000"
proof -
  have "length (encode [3, 3, 300, 70000]) = 33" by code_simp
  then obtain t where t: "parse (encode [3, 3, 300, 70000] @ [9]) = Some (t, 33)"
    "\<forall>i < 4. bo_get t (u32_of i) = Some ([3, 3, 300, 70000] ! i)"
    using block_offsets_roundtrip [of "[3, 3, 300, 70000]" "[9]"] by auto
  then have "bo_get t 2 = Some 300" "bo_get t 3 = Some 70000"
    using t(2) [rule_format, of 2] t(2) [rule_format, of 3] by simp_all
  with t(1) show ?thesis by blast
qed

text \<open>
  C7.  The two shapes of an offset table agree. For the running start offsets of any list of regions, the
  table parsed back from the block-coded bytes and the flat table of the older files return the same offset
  at every index, and cutting the data at the offsets \<open>i\<close> and \<open>i + 1\<close> of either gives the \<open>i\<close>-th region.
\<close>

theorem offset_tables_agree:
  assumes "length (concat xss) < 2 ^ 32" and "length xss < 2 ^ 29"
  shows "\<exists>t. parse (encode (region_offsets xss) @ rest) = Some (t, length (encode (region_offsets xss)))
    \<and> (\<forall>i \<le> length xss. ot_get (Block t) (u32_of i) = ot_get (Flat (concat (map le32 (region_offsets xss)))) (u32_of i))
    \<and> (\<forall>i < length xss. region ot_get (Block t) (concat xss @ post) (u32_of i) = Some (xss ! i)
        \<and> region ot_get (Flat (concat (map le32 (region_offsets xss)))) (concat xss @ post) (u32_of i) = Some (xss ! i))"
proof -
  let ?os = "region_offsets xss"
  have len: "length ?os = Suc (length xss)" by (simp add: region_offsets_def)
  have blk: "block_ok ?os" using len assms(2) sorted_region_offsets [OF assms(1)] by (simp add: block_ok_def)
  have "parse (encode ?os @ rest) = Some (view_of ?os, length (encode ?os))"
    by (rule parse_encode) (use blk in \<open>simp add: block_ok_def\<close>)
  moreover have "ot_get (Block (view_of ?os)) (u32_of i) = ot_get (Flat (concat (map le32 ?os))) (u32_of i)" if "i \<le> length xss" for i
    using block.get_table [OF blk, of i] flat.get_table [of ?os i] that len assms(2) by simp
  moreover have "region ot_get (Block (view_of ?os)) (concat xss @ post) (u32_of i) = Some (xss ! i)
      \<and> region ot_get (Flat (concat (map le32 ?os))) (concat xss @ post) (u32_of i) = Some (xss ! i)" if "i < length xss" for i
    using block.region_table [OF blk assms(1) that] flat.region_table [OF _ assms(1) that] len assms(2) by simp
  ultimately show ?thesis by blast
qed

theorem offset_tables_agree_witness:
  "\<exists>t. parse (encode (region_offsets [[1, 2], [], [7]]) @ [9]) = Some (t, length (encode (region_offsets [[1, 2], [], [7]])))
   \<and> region ot_get (Block t) ([1, 2, 7] @ [0]) 2 = Some [7]
   \<and> region ot_get (Flat (concat (map le32 (region_offsets [[1, 2], [], [7]])))) ([1, 2, 7] @ [0]) 0 = Some [1, 2]"
proof -
  obtain t where t: "parse (encode (region_offsets [[1, 2], [], [7]]) @ [9]) = Some (t, length (encode (region_offsets [[1, 2], [], [7]])))"
    "\<forall>i < 3. region ot_get (Block t) ([1, 2, 7] @ [0]) (u32_of i) = Some ([[1, 2], [], [7]] ! i)
       \<and> region ot_get (Flat (concat (map le32 (region_offsets [[1, 2], [], [7]])))) ([1, 2, 7] @ [0]) (u32_of i) = Some ([[1, 2], [], [7]] ! i)"
    using offset_tables_agree [of "[[1, 2], [], [7]]" "[9]" "[0]"] by auto
  show ?thesis using t(1) t(2) [rule_format, of 2] t(2) [rule_format, of 0] by auto
qed

end
