(* ===== verification/SectionFile.thy ===== *)
theory SectionFile
  imports Prelude
begin

text \<open>
  The section container of the composite sidecars, \<open>src/src/suffix_fst/section_file.rs\<close>:
  the writer and its state, the streaming header, the reader, and the version probes.
\<close>

section \<open>Definitions\<close>

definition ENTRY_SIZE :: nat where "ENTRY_SIZE = 12"
definition FIXED_HEADER :: nat where "FIXED_HEADER = 7"

record SectionDesc =
  sd_id :: u16
  sd_offset :: u32
  sd_length :: u32

record SectionFileWriter =
  sw_magic :: bytes
  sw_version :: u8
  sw_sections :: "SectionDesc list"
  sw_data :: bytes

definition sw_new :: "bytes \<Rightarrow> u8 \<Rightarrow> SectionFileWriter" where
  "sw_new magic version = \<lparr>sw_magic = magic, sw_version = version, sw_sections = [], sw_data = []\<rparr>"

definition add_section :: "SectionFileWriter \<Rightarrow> u16 \<Rightarrow> bytes \<Rightarrow> SectionFileWriter \<times> u32" where
  "add_section w section_id payload =
     (let offset = u32_of (length (sw_data w));
          len = u32_of (length payload)
      in (w\<lparr>sw_sections := sw_sections w @ [\<lparr>sd_id = section_id, sd_offset = offset, sd_length = len\<rparr>],
            sw_data := sw_data w @ payload\<rparr>, offset))"

definition section_entry :: "u16 \<Rightarrow> u32 \<Rightarrow> u32 \<Rightarrow> bytes" where
  "section_entry id1 offset len = le16 id1 @ le16 0 @ le32 offset @ le32 len"

definition sw_serialize :: "SectionFileWriter \<Rightarrow> bytes" where
  "sw_serialize w =
     sw_magic w @ [sw_version w] @ le16 (of_nat (length (sw_sections w)))
     @ concat (map (\<lambda>e. section_entry (sd_id e) (sd_offset e) (sd_length e)) (sw_sections w))
     @ sw_data w"

fun header_entries :: "u32 \<Rightarrow> (u16 \<times> u32) list \<Rightarrow> bytes" where
  "header_entries offset [] = []"
| "header_entries offset ((id1, len) # rest) =
     section_entry id1 offset len @ header_entries (offset + len) rest"

definition section_file_header :: "bytes \<Rightarrow> u8 \<Rightarrow> (u16 \<times> u32) list \<Rightarrow> bytes" where
  "section_file_header magic version sections =
     magic @ [version] @ le16 (of_nat (length sections)) @ header_entries 0 sections"

record SectionFileReader =
  sr_magic :: bytes
  sr_version :: u8
  sr_num_sections :: u16
  sr_section_table :: bytes
  sr_data :: bytes

text \<open>The reads below the guards are in range, so that \<open>None\<close> is the returned \<open>None\<close>.\<close>

definition sr_open :: "bytes \<Rightarrow> bytes \<Rightarrow> SectionFileReader option" where
  "sr_open bs expected_magic =
     (if length bs < FIXED_HEADER then None else do {
        magic \<leftarrow> slice bs 0 4;
        if magic \<noteq> expected_magic then None else do {
          version \<leftarrow> idx bs 4;
          num_sections \<leftarrow> read_u16 bs 5;
          let table_size = unat num_sections * ENTRY_SIZE;
          if length bs < FIXED_HEADER + table_size then None else do {
            section_table \<leftarrow> slice bs FIXED_HEADER (FIXED_HEADER + table_size);
            data \<leftarrow> slice_from bs (FIXED_HEADER + table_size);
            Some \<lparr>sr_magic = magic, sr_version = version, sr_num_sections = num_sections,
                  sr_section_table = section_table, sr_data = data\<rparr> } } })"

definition section_at :: "SectionFileReader \<Rightarrow> nat \<Rightarrow> SectionDesc option" where
  "section_at r index =
     (if unat (sr_num_sections r) \<le> index then None else do {
        let pos = index * ENTRY_SIZE;
        id1 \<leftarrow> read_u16 (sr_section_table r) pos;
        offset \<leftarrow> read_u32 (sr_section_table r) (pos + 4);
        len \<leftarrow> read_u32 (sr_section_table r) (pos + 8);
        Some \<lparr>sd_id = id1, sd_offset = offset, sd_length = len\<rparr> })"

fun find_section_loop :: "SectionFileReader \<Rightarrow> u16 \<Rightarrow> nat list \<Rightarrow> SectionDesc option" where
  "find_section_loop r section_id [] = None"
| "find_section_loop r section_id (i # is) =
     (case section_at r i of
        Some desc \<Rightarrow> if sd_id desc = section_id then Some desc else find_section_loop r section_id is
      | None \<Rightarrow> find_section_loop r section_id is)"

definition find_section :: "SectionFileReader \<Rightarrow> u16 \<Rightarrow> SectionDesc option" where
  "find_section r section_id = find_section_loop r section_id [0..<unat (sr_num_sections r)]"

definition section_data :: "SectionFileReader \<Rightarrow> SectionDesc \<Rightarrow> bytes option" where
  "section_data r desc =
     (let start = unat (sd_offset desc);
          end1 = start + unat (sd_length desc)
      in if length (sr_data r) < end1 then None else slice (sr_data r) start end1)"

definition get_section :: "SectionFileReader \<Rightarrow> u16 \<Rightarrow> bytes option" where
  "get_section r section_id = do {
     desc \<leftarrow> find_section r section_id;
     section_data r desc }"

definition has_section :: "SectionFileReader \<Rightarrow> u16 \<Rightarrow> bool" where
  "has_section r section_id = (find_section r section_id \<noteq> None)"

definition sections :: "SectionFileReader \<Rightarrow> SectionDesc list" where
  "sections r = List.map_filter (section_at r) [0..<unat (sr_num_sections r)]"

definition detect_sfx_version :: "bytes \<Rightarrow> u8 option" where
  "detect_sfx_version bs =
     (if length bs < 4 then None
      else if take 4 bs = bstr ''SFX1'' then Some 1
      else if take 4 bs = bstr ''SFX2'' then Some 2
      else if take 4 bs = bstr ''SFX3'' then Some 3
      else None)"

definition detect_termtexts_version :: "bytes \<Rightarrow> u8 option" where
  "detect_termtexts_version bs =
     (if length bs < 4 then None
      else if take 4 bs = bstr ''TTXT'' then Some 1
      else if take 4 bs = bstr ''TTX3'' then Some 3
      else None)"

section \<open>The writer's state\<close>

text \<open>The writer after a sequence of \<open>add_section\<close> calls.\<close>

definition add_sections :: "SectionFileWriter \<Rightarrow> (u16 \<times> bytes) list \<Rightarrow> SectionFileWriter" where
  "add_sections w ss = foldl (\<lambda>w (id1, payload). fst (add_section w id1 payload)) w ss"

definition descs :: "(u16 \<times> bytes) list \<Rightarrow> SectionDesc list" where
  "descs ss = map (\<lambda>i. \<lparr>sd_id = fst (ss ! i), sd_offset = u32_of (starts 0 (map snd ss) ! i),
                        sd_length = u32_of (length (snd (ss ! i)))\<rparr>) [0..<length ss]"

lemma length_descs [simp]: "length (descs ss) = length ss"
  by (simp add: descs_def)

lemma descs_snoc:
  "descs (ss @ [(id1, p)]) = descs ss @
     [\<lparr>sd_id = id1, sd_offset = u32_of (length (concat (map snd ss))), sd_length = u32_of (length p)\<rparr>]"
  by (auto simp: descs_def nth_append nth_starts)

lemma add_sections_new:
  "add_sections (sw_new magic version) ss =
     \<lparr>sw_magic = magic, sw_version = version, sw_sections = descs ss, sw_data = concat (map snd ss)\<rparr>"
proof (induction ss rule: rev_induct)
  case Nil
  then show ?case by (simp add: add_sections_def sw_new_def descs_def)
next
  case (snoc x ss)
  obtain id1 p where x: "x = (id1, p)" by (cases x)
  have "add_sections (sw_new magic version) (ss @ [x]) =
      fst (add_section (add_sections (sw_new magic version) ss) id1 p)"
    by (simp add: add_sections_def x)
  then show ?case using snoc by (simp add: add_section_def x descs_snoc Let_def)
qed

lemma length_section_entry [simp]: "length (section_entry i off len) = 12"
  by (simp add: section_entry_def)

section \<open>Reading back\<close>

abbreviation desc_entry :: "SectionDesc \<Rightarrow> bytes" where
  "desc_entry e \<equiv> section_entry (sd_id e) (sd_offset e) (sd_length e)"

lemma sr_open_serialize:
  assumes "length magic = 4" and "length (sw_sections w) < 2 ^ 16" and "sw_magic w = magic"
  shows "sr_open (sw_serialize w) magic =
    Some \<lparr>sr_magic = magic, sr_version = sw_version w,
          sr_num_sections = of_nat (length (sw_sections w)),
          sr_section_table = concat (map desc_entry (sw_sections w)), sr_data = sw_data w\<rparr>"
proof -
  let ?n = "length (sw_sections w)" and ?t = "concat (map desc_entry (sw_sections w))"
  have bs: "sw_serialize w = magic @ sw_version w # le16 (of_nat ?n) @ ?t @ sw_data w"
    by (simp add: sw_serialize_def assms(3))
  have t: "length ?t = 12 * ?n" by (simp add: length_concat_fixed [where w = 12])
  have n: "unat (of_nat ?n :: u16) = ?n" using assms(2) by (simp add: unat_of_nat)
  have r: "slice (sw_serialize w) 0 4 = Some magic" "idx (sw_serialize w) 4 = Some (sw_version w)"
    "read_u16 (sw_serialize w) 5 = Some (of_nat ?n)"
    "slice (sw_serialize w) 7 (7 + ?n * 12) = Some ?t"
    "slice_from (sw_serialize w) (7 + ?n * 12) = Some (sw_data w)"
    by (simp_all add: bs assms(1) t exec_simps)
      (use slice_from_append [of "7 + ?n * 12" "magic @ sw_version w # le16 (of_nat ?n) @ ?t" "sw_data w"]
       in \<open>simp add: assms(1) t\<close>)
  have "length (sw_serialize w) = 7 + 12 * ?n + length (sw_data w)"
    using t assms(1) by (simp add: bs)
  then show ?thesis using r n by (simp add: sr_open_def FIXED_HEADER_def ENTRY_SIZE_def)
qed

lemma section_at_entry:
  assumes "sr_section_table r = concat (map desc_entry ds)"
    and "unat (sr_num_sections r) = length ds" and "i < length ds"
  shows "section_at r i = Some (ds ! i)"
proof -
  note field = read_le_field [of ds desc_entry 12 i _ "[]" _ _ "[]", OF _ assms(3)]
  have "read_u16 (sr_section_table r) (i * 12) = Some (sd_id (ds ! i))"
    using field [of "i * 12" 0 2, where ?'b = 16] by (simp add: assms(1) section_entry_def exec_simps)
  moreover have "read_u32 (sr_section_table r) (i * 12 + 4) = Some (sd_offset (ds ! i))"
    using field [of "i * 12 + 4" 4 4, where ?'b = 32] by (simp add: assms(1) section_entry_def exec_simps)
  moreover have "read_u32 (sr_section_table r) (i * 12 + 8) = Some (sd_length (ds ! i))"
    using field [of "i * 12 + 8" 8 4, where ?'b = 32] by (simp add: assms(1) section_entry_def exec_simps)
  ultimately show ?thesis using assms by (simp add: section_at_def ENTRY_SIZE_def)
qed

lemma find_section_loop_eq:
  "\<forall>i \<in> set is. section_at r i = Some (ds ! i) \<Longrightarrow>
   find_section_loop r s is = map_option ((!) ds) (List.find (\<lambda>i. sd_id (ds ! i) = s) is)"
  by (induction "is") auto

lemma section_data_desc:
  assumes "sr_data r = concat (map snd ss)" and "length (concat (map snd ss)) < 2 ^ 32"
    and "i < length ss"
  shows "section_data r (descs ss ! i) = Some (snd (ss ! i))"
proof -
  let ?x = "map snd ss"
  have b: "starts 0 ?x ! i + length (?x ! i) \<le> length (concat ?x)"
    using starts_le_total [of "Suc i" ?x 0] assms(3) by (simp add: starts_Suc)
  then have "unat (sd_offset (descs ss ! i)) = starts 0 ?x ! i"
    "unat (sd_length (descs ss ! i)) = length (?x ! i)"
    using assms(2,3) by (simp_all add: descs_def)
  then show ?thesis
    using slice_concat_region [of i ?x "[]"] assms(1,3) b
    by (simp add: section_data_def starts_Suc)
qed

lemma find_map_of:
  "map_option (\<lambda>i. snd (ss ! i)) (List.find (\<lambda>i. fst (ss ! i) = s) [0..<length ss]) = map_of ss s"
proof (induction ss)
  case (Cons x ss)
  have "[0..<length (x # ss)] = 0 # map Suc [0..<length ss]" by (simp add: upt_Suc_Cons del: upt_Suc)
  moreover have "List.find P (map Suc is) = map_option Suc (List.find (P \<circ> Suc) is)" for P "is"
    by (induction "is") auto
  ultimately show ?case
    using Cons by (cases x) (simp add: option.map_comp comp_def del: upt_Suc)
qed simp

lemma get_section_eq:
  assumes "sr_section_table r = concat (map desc_entry (descs ss))"
    and "unat (sr_num_sections r) = length ss" and "sr_data r = concat (map snd ss)"
    and "length (concat (map snd ss)) < 2 ^ 32"
  shows "get_section r s = map_of ss s"
proof -
  let ?f = "List.find (\<lambda>i. fst (ss ! i) = s) [0..<length ss]"
  have "List.find (\<lambda>i. sd_id (descs ss ! i) = s) [0..<length ss] = ?f"
    by (rule find_cong) (auto simp: descs_def)
  then have "find_section r s = map_option ((!) (descs ss)) ?f"
    using section_at_entry [OF assms(1)] assms(2)
    by (simp add: find_section_def find_section_loop_eq [where ds = "descs ss"])
  moreover have "i < length ss" if "?f = Some i" for i
    using that by (auto simp: find_Some_iff)
  ultimately have "get_section r s = map_option (\<lambda>i. snd (ss ! i)) ?f"
    using section_data_desc [OF assms(3,4)] by (cases ?f) (simp_all add: get_section_def)
  then show ?thesis by (simp add: find_map_of)
qed

lemma header_entries_eq:
  "header_entries off (map (\<lambda>(i, p). (i, u32_of (length p))) ss) =
     concat (map (\<lambda>i. section_entry (fst (ss ! i)) (off + u32_of (starts 0 (map snd ss) ! i))
                        (u32_of (length (snd (ss ! i))))) [0..<length ss])"
proof (induction ss arbitrary: off)
  case (Cons x ss)
  have shift: "starts (length (snd x)) (map snd ss) ! i = length (snd x) + starts 0 (map snd ss) ! i"
    if "i < length ss" for i using that by (simp add: nth_starts)
  have "[0..<length (x # ss)] = 0 # map Suc [0..<length ss]" by (simp add: upt_Suc_Cons del: upt_Suc)
  then show ?case
    using Cons [of "off + u32_of (length (snd x))"]
    by (cases x) (use shift in \<open>auto simp: comp_def add.assoc simp del: upt_Suc intro!: arg_cong [where f = concat]\<close>)
qed simp

section \<open>Properties\<close>

text \<open>
  C8.  A section file is a map from section ids to payloads: after any sequence of
  \<open>add_section\<close> calls (fewer than \<open>2 ^ 16\<close>, less than \<open>2 ^ 32\<close> bytes of data), the serialised
  file opens under its magic, and \<open>get_section\<close> of any id returns the payload first added
  under it, \<open>None\<close> when there is none.
\<close>

theorem section_file_roundtrip:
  assumes "length magic = 4" and "length ss < 2 ^ 16" and "length (concat (map snd ss)) < 2 ^ 32"
  shows "\<exists>r. sr_open (sw_serialize (add_sections (sw_new magic version) ss)) magic = Some r
           \<and> sr_version r = version \<and> unat (sr_num_sections r) = length ss
           \<and> (\<forall>s. get_section r s = map_of ss s)"
proof -
  let ?w = "add_sections (sw_new magic version) ss"
  let ?r = "\<lparr>sr_magic = magic, sr_version = version, sr_num_sections = of_nat (length ss),
             sr_section_table = concat (map desc_entry (descs ss)), sr_data = concat (map snd ss)\<rparr>"
  have "sr_open (sw_serialize ?w) magic = Some ?r"
    using sr_open_serialize [of magic ?w] assms by (simp add: add_sections_new)
  moreover have n: "unat (sr_num_sections ?r) = length ss" using assms(2) by (simp add: unat_of_nat)
  moreover have "get_section ?r s = map_of ss s" for s
    using get_section_eq [of ?r ss s] n assms(3) by simp
  ultimately show ?thesis by (intro exI [of _ ?r]) simp
qed

theorem section_file_roundtrip_witness:
  "\<exists>r. sr_open (sw_serialize (add_sections (sw_new [83, 70, 88, 51] 3) [(1, [10, 11]), (4, []), (1, [9])]))
          [83, 70, 88, 51] = Some r
     \<and> get_section r 1 = Some [10, 11] \<and> get_section r 4 = Some [] \<and> get_section r 2 = None"
proof -
  obtain r where "sr_open (sw_serialize (add_sections (sw_new [83, 70, 88, 51] 3)
      [(1, [10, 11]), (4, []), (1, [9])])) [83, 70, 88, 51] = Some r"
    "\<forall>s. get_section r s = map_of [(1, [10, 11]), (4, []), (1, [9])] s"
    using section_file_roundtrip [of "[83, 70, 88, 51]" "[(1, [10, 11]), (4, []), (1, [9])]" 3] by auto
  then show ?thesis by auto
qed

text \<open>
  C9.  The streaming header followed by the payloads is the file that the in-memory writer
  serialises from the same sections.
\<close>

theorem streaming_header_agrees:
  "section_file_header magic version (map (\<lambda>(i, p). (i, u32_of (length p))) ss) @ concat (map snd ss)
     = sw_serialize (add_sections (sw_new magic version) ss)"
  using header_entries_eq [of 0 ss]
  by (simp add: section_file_header_def sw_serialize_def add_sections_new descs_def comp_def)

end
