(* ===== verification/Gmap.thy ===== *)
theory Gmap
  imports Prelude
begin

text \<open>
  The \<open>.gmap\<close> sidecar, \<open>src/src/suffix_fst/gmap.rs\<close>: a segment's local ordinals as a strictly
  increasing list of global dictionary ids, with one head per block of 64 ids in layout 2.
  The searches of the reader (block heads, galloping, bisection) are translated as written and
  proved against the list; the locale \<open>id_list\<close> is what the searches rely on, interpreted for
  the readers of both layouts.

  The bounds of a search are computed on \<open>u32\<close>; inside a bisection \<open>lo <= mid < hi\<close> keeps every
  index below \<open>hi\<close>, so the loop runs on the indices as \<open>nat\<close>.
\<close>

section \<open>Definitions\<close>

definition GMAP_BLOCK :: u32 where "GMAP_BLOCK = 64"
definition UNKNOWN_WORD :: u16 where "UNKNOWN_WORD = 0xFFFF"

definition gmap_encode :: "u32 list \<Rightarrow> u16 option \<Rightarrow> bytes" where
  "gmap_encode globals max_word_content_len =
     (let n = length globals;
          blocks = div_ceil n (unat GMAP_BLOCK)
      in bstr ''GMP2'' @ le32 (u32_of n)
         @ le16 (case max_word_content_len of None \<Rightarrow> UNKNOWN_WORD | Some m \<Rightarrow> min m (UNKNOWN_WORD - 1))
         @ le16 0
         @ concat (map le32 globals)
         @ concat (map (\<lambda>b. le32 (globals ! (b * unat GMAP_BLOCK))) [0..<blocks]))"

record GmapReader =
  gm_data :: bytes
  gm_n :: u32
  gm_heads :: bytes
  gm_max_word :: "u16 option"

definition gmap_open :: "bytes \<Rightarrow> GmapReader option" where
  "gmap_open bs =
     (if length bs < 8 then None else do {
        n \<leftarrow> read_u32 bs 4;
        let ids_len = unat n * 4;
        if take 4 bs = bstr ''GMAP'' then
          (if length bs < 8 + ids_len then None else do {
             data \<leftarrow> slice bs 8 (8 + ids_len);
             Some \<lparr>gm_data = data, gm_n = n, gm_heads = [], gm_max_word = None\<rparr> })
        else if take 4 bs \<noteq> bstr ''GMP2'' \<or> length bs < 12 then None
        else do {
          let blocks = div_ceil (unat n) (unat GMAP_BLOCK);
          if length bs < 12 + ids_len + blocks * 4 then None else do {
            mw \<leftarrow> read_u16 bs 8;
            data \<leftarrow> slice bs 12 (12 + ids_len);
            heads \<leftarrow> slice bs (12 + ids_len) (12 + ids_len + blocks * 4);
            Some \<lparr>gm_data = data, gm_n = n, gm_heads = heads,
                  gm_max_word = (if mw \<noteq> UNKNOWN_WORD then Some mw else None)\<rparr> } } })"

definition gm_head :: "GmapReader \<Rightarrow> nat \<Rightarrow> u32 exec" where
  "gm_head r block = read_u32 (gm_heads r) (block * 4)"

definition block_of :: "GmapReader \<Rightarrow> nat \<Rightarrow> u32 \<Rightarrow> nat exec" where
  "block_of r first_block target = do {
     let blocks = length (gm_heads r) div 4;
     lo \<leftarrow> bsearch (\<lambda>mid. map_option (\<lambda>h. h \<le> target) (gm_head r mid)) first_block blocks;
     Some (lo - 1) }"

definition gm_global :: "GmapReader \<Rightarrow> u32 \<Rightarrow> u32 exec" where
  "gm_global r local = read_u32 (gm_data r) (unat local * 4)"

text \<open>The bisection for the first index of \<open>lo..hi\<close> whose id is not below \<open>target\<close>.\<close>

definition bisect :: "(u32 \<Rightarrow> u32 exec) \<Rightarrow> u32 \<Rightarrow> u32 \<Rightarrow> u32 \<Rightarrow> u32 exec" where
  "bisect global target lo hi =
     map_option u32_of
       (bsearch (\<lambda>mid. map_option (\<lambda>g. g < target) (global (u32_of mid))) (unat lo) (unat hi))"

definition saturating_add :: "u32 \<Rightarrow> u32 \<Rightarrow> u32" where
  "saturating_add a b = (if unat a + unat b < 2 ^ 32 then a + b else 0xFFFFFFFF)"

definition saturating_mul :: "u32 \<Rightarrow> u32 \<Rightarrow> u32" where
  "saturating_mul a b = (if unat a * unat b < 2 ^ 32 then a * b else 0xFFFFFFFF)"

text \<open>The galloping loop, from \<open>(lo, hi, step)\<close> to the bounds of the final bisection.\<close>

partial_function (option) gallop ::
  "(u32 \<Rightarrow> u32 exec) \<Rightarrow> u32 \<Rightarrow> u32 \<Rightarrow> u32 \<Rightarrow> u32 \<Rightarrow> u32 \<Rightarrow> (u32 \<times> u32) option" where
  "gallop global n target lo hi step =
     (if n \<le> hi then Some (lo, n) else do {
        g \<leftarrow> global hi;
        if target \<le> g then Some (lo, hi)
        else gallop global n target (hi + 1) (saturating_add hi step) (saturating_mul step 2) })"

declare gallop.simps [code]

definition lower_bound_from :: "GmapReader \<Rightarrow> u32 \<Rightarrow> u32 \<Rightarrow> u32 exec" where
  "lower_bound_from r from target = (
     let n = gm_n r in
     if n \<le> from then Some n
     else if gm_heads r \<noteq> [] then do {
       let fb = unat (from div GMAP_BLOCK);
       let blocks = length (gm_heads r) div 4;
       b \<leftarrow> (if blocks \<le> fb + 1 then Some fb else do {
               h \<leftarrow> gm_head r (fb + 1);
               if target < h then Some fb else block_of r (fb + 1) target });
       let lo0 = max (u32_of b * GMAP_BLOCK) from;
       let hi0 = min ((u32_of b + 1) * GMAP_BLOCK) n;
       bisect (gm_global r) target lo0 hi0 }
     else do {
       (lo, hi) \<leftarrow> gallop (gm_global r) n target from from 1;
       bisect (gm_global r) target lo hi })"

function find_local :: "(u32 \<Rightarrow> u32 exec) \<Rightarrow> u32 \<Rightarrow> nat \<Rightarrow> nat \<Rightarrow> u32 option exec" where
  "find_local global1 g lo hi =
     (if lo < hi then
        (let mid = lo + (hi - lo) div 2 in
         case global1 (u32_of mid) of None \<Rightarrow> None
         | Some x \<Rightarrow>
             if x = g then Some (Some (u32_of mid))
             else if x < g then find_local global1 g (mid + 1) hi
             else find_local global1 g lo mid)
      else Some None)"
  by pat_completeness auto
termination
  by (relation "measure (\<lambda>(f, g, lo, hi). hi - lo)") auto

declare find_local.simps [simp del]

definition gm_local :: "GmapReader \<Rightarrow> u32 \<Rightarrow> u32 option exec" where
  "gm_local r g =
     (if gm_n r = 0 then Some None
      else if gm_heads r = [] then find_local (gm_global r) g 0 (unat (gm_n r))
      else do {
        b \<leftarrow> map_option u32_of (block_of r 0 g);
        find_local (gm_global r) g (unat (b * GMAP_BLOCK)) (unat (min ((b + 1) * GMAP_BLOCK) (gm_n r))) })"

definition gm_iter :: "GmapReader \<Rightarrow> u32 exec list" where
  "gm_iter r = map (\<lambda>i. gm_global r (u32_of i)) [0..<unat (gm_n r)]"

section \<open>Searching a strictly increasing list\<close>

text \<open>The specification of a lower bound: the first index from \<open>from\<close> on with an id not below the target.\<close>

definition first_ge :: "u32 list \<Rightarrow> nat \<Rightarrow> u32 \<Rightarrow> nat" where
  "first_ge gs from target = min from (length gs) + length (takeWhile (\<lambda>g. g < target) (drop from gs))"

fun index_of :: "u32 list \<Rightarrow> u32 \<Rightarrow> nat option" where
  "index_of [] g = None"
| "index_of (x # xs) g = (if x = g then Some 0 else map_option Suc (index_of xs g))"

lemma index_of_Some: "index_of gs g = Some i \<Longrightarrow> i < length gs \<and> gs ! i = g"
  by (induction gs arbitrary: i) (auto split: if_splits)

lemma index_of_None: "index_of gs g = None \<longleftrightarrow> g \<notin> set gs"
  by (induction gs) auto

lemma index_of_nth: "distinct gs \<Longrightarrow> i < length gs \<Longrightarrow> index_of gs (gs ! i) = Some i"
  by (induction gs arbitrary: i) (auto simp: nth_Cons split: nat.splits)

lemma first_ge_eqI:
  assumes "from \<le> k" and "k \<le> length gs"
    and "\<And>i. from \<le> i \<Longrightarrow> i < k \<Longrightarrow> gs ! i < t" and "k < length gs \<Longrightarrow> t \<le> gs ! k"
  shows "first_ge gs from t = k"
proof -
  have "takeWhile (\<lambda>g. g < t) (drop from gs) = take (k - from) (drop from gs)"
    using assms by (intro takeWhile_eq_take_P_nth) (auto simp: not_less)
  then show ?thesis using assms(1,2) by (simp add: first_ge_def)
qed

locale id_list =
  fixes view :: "u32 list \<Rightarrow> 'r"
    and global :: "'r \<Rightarrow> u32 \<Rightarrow> u32 exec"
    and ok :: "u32 list \<Rightarrow> bool"
  assumes increasing: "ok gs \<Longrightarrow> sorted_wrt (<) gs"
    and indices_fit: "ok gs \<Longrightarrow> length gs < 2 ^ 32"
    and global_at: "ok gs \<Longrightarrow> i < length gs \<Longrightarrow> global (view gs) (u32_of i) = Some (gs ! i)"
begin

lemma nth_less: "ok gs \<Longrightarrow> i < j \<Longrightarrow> j < length gs \<Longrightarrow> gs ! i < gs ! j"
  using increasing sorted_wrt_nth_less by blast

lemma nth_le: "ok gs \<Longrightarrow> i \<le> j \<Longrightarrow> j < length gs \<Longrightarrow> gs ! i \<le> gs ! j"
  using nth_less [of gs i j] by (cases "i = j") auto

lemma bisect_first_ge:
  assumes gs: "ok gs" and "from \<le> lo" "lo \<le> hi" "hi \<le> length gs"
    and below: "\<And>i. from \<le> i \<Longrightarrow> i < lo \<Longrightarrow> gs ! i < t"
    and above: "hi < length gs \<Longrightarrow> t \<le> gs ! hi"
  shows "bisect (global (view gs)) t (u32_of lo) (u32_of hi) = Some (u32_of (first_ge gs from t))"
proof -
  let ?p = "\<lambda>mid. map_option (\<lambda>g. g < t) (global (view gs) (u32_of mid))"
  have u: "unat (u32_of lo) = lo" "unat (u32_of hi) = hi"
    using assms(3,4) indices_fit [OF gs] by simp_all
  obtain k where k: "bsearch ?p lo hi = Some k" "lo \<le> k" "k \<le> hi"
    "\<forall>i. lo \<le> i \<and> i < k \<longrightarrow> gs ! i < t" "\<forall>i. k \<le> i \<and> i < hi \<longrightarrow> \<not> gs ! i < t"
  proof -
    have "?p i = Some (gs ! i < t)" if "i < hi" for i using that assms(4) global_at [OF gs] by simp
    moreover have "gs ! i < t" if "i \<le> j" "j < hi" "gs ! j < t" for i j
      using nth_le [OF gs, of i j] that assms(4) by auto
    ultimately show thesis
      using bsearch_partition [of lo hi ?p "\<lambda>i. gs ! i < t"] assms(3) that by blast
  qed
  have "first_ge gs from t = k"
  proof (rule first_ge_eqI)
    show "gs ! i < t" if "from \<le> i" "i < k" for i using that k(4) below by (cases "i < lo") auto
    show "t \<le> gs ! k" if "k < length gs"
      using that k(3,5) above by (cases "k = hi") (auto simp: not_less)
  qed (use k assms in auto)
  with k(1) show ?thesis by (simp add: bisect_def u)
qed

lemma gallop_bounds:
  assumes gs: "ok gs" and "from \<le> lo" "lo \<le> hi" "lo \<le> length gs" "hi < 2 ^ 32" "0 < step"
    and "\<And>i. from \<le> i \<Longrightarrow> i < lo \<Longrightarrow> gs ! i < t"
  shows "\<exists>l h. gallop (global (view gs)) (u32_of (length gs)) t (u32_of lo) (u32_of hi) step
                 = Some (u32_of l, u32_of h)
           \<and> from \<le> l \<and> l \<le> h \<and> h \<le> length gs \<and> (\<forall>i. from \<le> i \<and> i < l \<longrightarrow> gs ! i < t)
           \<and> (h < length gs \<longrightarrow> t \<le> gs ! h)"
  using assms(2-)
proof (induction "length gs - hi" arbitrary: lo hi step rule: less_induct)
  case less
  have n: "length gs < 2 ^ 32" by (rule indices_fit [OF gs])
  have cmp: "u32_of (length gs) \<le> u32_of hi \<longleftrightarrow> length gs \<le> hi"
    using n less.prems(4) by (simp add: word_le_nat_alt)
  show ?case
  proof (cases "length gs \<le> hi \<or> t \<le> gs ! hi")
    case True
    then consider "length gs \<le> hi" | "hi < length gs" "t \<le> gs ! hi" by linarith
    then show ?thesis
    proof cases
      case 1
      then show ?thesis using less.prems cmp
        by (intro exI [of _ lo] exI [of _ "length gs"]) (subst gallop.simps, auto)
    next
      case 2
      then show ?thesis using less.prems cmp global_at [OF gs, of hi]
        by (intro exI [of _ lo] exI [of _ hi]) (subst gallop.simps, auto)
    qed
  next
    case False
    define hi' where "hi' = unat (saturating_add (u32_of hi) step)"
    have hi: "hi < length gs" "\<not> t \<le> gs ! hi" using False by auto
    have s: "0 < unat step" using less.prems(5) by (simp add: word_less_nat_alt)
    have "hi' = (if hi + unat step < 2 ^ 32 then hi + unat step else 2 ^ 32 - 1)"
      using less.prems(4) by (simp add: hi'_def saturating_add_def unat_word_ariths)
    then have hi': "hi < hi'" "hi' < 2 ^ 32" using s n hi by (simp_all split: if_splits)
    have sat: "saturating_add (u32_of hi) step = u32_of hi'" by (simp add: hi'_def)
    have step': "0 < saturating_mul step 2"
    proof -
      have "unat step * 2 < 2 ^ 32 \<Longrightarrow> unat (step * 2) = unat step * 2" by (simp add: unat_word_ariths)
      then show ?thesis using s by (auto simp: saturating_mul_def word_less_nat_alt)
    qed
    have "gallop (global (view gs)) (u32_of (length gs)) t (u32_of lo) (u32_of hi) step =
        gallop (global (view gs)) (u32_of (length gs)) t (u32_of (Suc hi)) (u32_of hi') (saturating_mul step 2)"
      using hi global_at [OF gs hi(1)] cmp sat by (subst gallop.simps) (simp add: add.commute)
    moreover have "gs ! i < t" if "from \<le> i" "i < Suc hi" for i
      using hi that nth_le [OF gs, of i hi] by auto
    ultimately show ?thesis
      using less.hyps [of hi' "Suc hi" "saturating_mul step 2"] hi hi' step' less.prems(1,2) by simp
  qed
qed

lemma find_local_index:
  assumes gs: "ok gs" and "hi \<le> length gs"
    and "\<And>i. i < lo \<Longrightarrow> i < length gs \<Longrightarrow> gs ! i < g"
    and "\<And>i. hi \<le> i \<Longrightarrow> i < length gs \<Longrightarrow> g < gs ! i"
  shows "find_local (global (view gs)) g lo hi = Some (map_option u32_of (index_of gs g))"
  using assms(2-)
proof (induction "global (view gs)" g lo hi rule: find_local.induct)
  case (1 g lo hi)
  show ?case
  proof (cases "lo < hi")
    case False
    have "gs ! i \<noteq> g" if "i < length gs" for i
      using "1.prems"(2) [of i] "1.prems"(3) [of i] that False by (cases "i < lo") auto
    then have "g \<notin> set gs" by (auto simp: in_set_conv_nth)
    then have "index_of gs g = None" by (simp add: index_of_None)
    then show ?thesis using False by (subst find_local.simps) simp
  next
    case True
    define mid where "mid = lo + (hi - lo) div 2"
    have mid: "lo \<le> mid" "mid < hi" using True by (auto simp: mid_def)
    then have g: "global (view gs) (u32_of mid) = Some (gs ! mid)" "mid < length gs"
      using "1.prems"(1) global_at [OF gs] by auto
    consider "gs ! mid = g" | "gs ! mid < g" | "g < gs ! mid" by (rule linorder_cases)
    then show ?thesis
    proof cases
      case 1
      have "index_of gs g = Some mid"
        using index_of_nth [of gs mid] increasing [OF gs] 1 g(2) by (auto simp: strict_sorted_iff)
      then show ?thesis using True g 1 by (subst find_local.simps) (simp add: mid_def [symmetric])
    next
      case 2
      then have "gs ! i < g" if "i < mid + 1" "i < length gs" for i
        using that nth_le [OF gs, of i mid] g(2) by auto
      then show ?thesis
        using "1.hyps"(1) [OF True mid_def g(1)] "1.prems"(1,3) True g 2 less_imp_neq [OF 2]
        by (subst find_local.simps) (simp add: mid_def [symmetric])
    next
      case 3
      then have "g < gs ! i" if "mid \<le> i" "i < length gs" for i
        using that nth_le [OF gs, of mid i] by auto
      then show ?thesis
        using "1.hyps"(2) [OF True mid_def g(1)] "1.prems"(1,2) True g 3 less_imp_neq [OF 3] order_less_asym [OF 3] mid
        by (subst find_local.simps) (auto simp: mid_def [symmetric])
    qed
  qed
qed

end

section \<open>The readers of the two layouts\<close>

definition heads_of :: "u32 list \<Rightarrow> u32 list" where
  "heads_of gs = map (\<lambda>b. gs ! (b * 64)) [0..<div_ceil (length gs) 64]"

definition gmap_view :: "u16 option \<Rightarrow> u32 list \<Rightarrow> GmapReader" where
  "gmap_view mw gs = \<lparr>gm_data = concat (map le32 gs), gm_n = u32_of (length gs),
     gm_heads = concat (map le32 (heads_of gs)), gm_max_word = mw\<rparr>"

definition gmap_view1 :: "u32 list \<Rightarrow> GmapReader" where
  "gmap_view1 gs = \<lparr>gm_data = concat (map le32 gs), gm_n = u32_of (length gs),
     gm_heads = [], gm_max_word = None\<rparr>"

definition ids_ok :: "u32 list \<Rightarrow> bool" where
  "ids_ok gs \<longleftrightarrow> sorted_wrt (<) gs \<and> length gs \<le> 2 ^ 32 - 64"

lemma gm_global_at:
  assumes "length gs \<le> 2 ^ 32 - 64" and "i < length gs" and "gm_data r = concat (map le32 gs)"
  shows "gm_global r (u32_of i) = Some (gs ! i)"
  using read_u32_table [of i gs "i * 4" "[]" "[]"] assms by (simp add: gm_global_def)

interpretation gmap2: id_list "gmap_view mw" gm_global ids_ok for mw
  by unfold_locales (auto simp: ids_ok_def gmap_view_def intro: gm_global_at)

interpretation gmap1: id_list gmap_view1 gm_global ids_ok
  by unfold_locales (auto simp: ids_ok_def gmap_view1_def intro: gm_global_at)

lemma length_heads_of [simp]: "length (heads_of gs) = div_ceil (length gs) 64"
  by (simp add: heads_of_def)

lemma length_heads_bytes [simp]: "length (concat (map le32 (heads_of gs))) = 4 * div_ceil (length gs) 64"
  by (simp add: length_concat_fixed [where w = 4])

lemma block_index:
  "b < div_ceil n 64 \<longleftrightarrow> b * 64 < n"
proof -
  define q r where "q = n div 64" and "r = n mod 64"
  have "n = q * 64 + r" "r < 64" by (simp_all add: q_def r_def)
  then show ?thesis unfolding div_ceil_def q_def [symmetric] r_def [symmetric] by auto
qed

lemma gm_head_at:
  assumes "b * 64 < length gs"
  shows "gm_head (gmap_view mw gs) b = Some (gs ! (b * 64))"
  using read_u32_table [of b "heads_of gs" "b * 4" "[]" "[]"] assms
  by (simp add: gm_head_def gmap_view_def block_index heads_of_def)

lemma heads_nonempty: "gs \<noteq> [] \<Longrightarrow> gm_heads (gmap_view mw gs) \<noteq> []"
proof -
  assume "gs \<noteq> []"
  then have "0 < div_ceil (length gs) 64" by (simp add: block_index)
  then have "concat (map le32 (heads_of gs)) \<noteq> []"
    using length_heads_bytes [of gs] by (metis list.size(3) mult_is_0 neq0_conv zero_neq_numeral)
  then show ?thesis by (simp add: gmap_view_def)
qed

text \<open>\<open>block_of\<close> finds the block: heads up to it are at most the target, the next head is above it.\<close>

lemma block_of_view:
  assumes gs: "ids_ok gs" and "first * 64 < length gs"
  shows "\<exists>b. block_of (gmap_view mw gs) first t = Some b \<and> b * 64 < length gs
     \<and> (gs ! (first * 64) \<le> t \<longrightarrow> first \<le> b \<and> gs ! (b * 64) \<le> t)
     \<and> (t < gs ! (first * 64) \<longrightarrow> b = first - 1)
     \<and> ((b + 1) * 64 < length gs \<longrightarrow> t < gs ! ((b + 1) * 64))"
proof -
  let ?p = "\<lambda>mid. map_option (\<lambda>h. h \<le> t) (gm_head (gmap_view mw gs) mid)"
  let ?n = "div_ceil (length gs) 64"
  have p: "?p i = Some (gs ! (i * 64) \<le> t)" if "i < ?n" for i
    using that by (simp add: gm_head_at block_index)
  have mono: "gs ! (i * 64) \<le> gs ! (j * 64)" if "i \<le> j" "j < ?n" for i j
    using gmap1.nth_le [OF gs, of "i * 64" "j * 64"] that by (simp add: block_index)
  have n: "first < ?n" using assms(2) block_index [of first "length gs"] by simp
  obtain r where r: "bsearch ?p first ?n = Some r" "first \<le> r" "r \<le> ?n"
    "\<And>i. first \<le> i \<Longrightarrow> i < r \<Longrightarrow> gs ! (i * 64) \<le> t"
    "\<And>i. r \<le> i \<Longrightarrow> i < ?n \<Longrightarrow> t < gs ! (i * 64)"
  proof -
    have "gs ! (i * 64) \<le> t" if "i \<le> j" "j < ?n" "gs ! (j * 64) \<le> t" for i j
      using mono [of i j] that by simp
    then obtain r where "bsearch ?p first ?n = Some r" "first \<le> r" "r \<le> ?n"
      "\<forall>i. first \<le> i \<and> i < r \<longrightarrow> gs ! (i * 64) \<le> t" "\<forall>i. r \<le> i \<and> i < ?n \<longrightarrow> \<not> gs ! (i * 64) \<le> t"
      using bsearch_partition [of first ?n ?p "\<lambda>i. gs ! (i * 64) \<le> t"] p n less_imp_le_nat by blast
    then show thesis using that [of r] by (simp add: not_le)
  qed
  have b: "block_of (gmap_view mw gs) first t = Some (r - 1)"
    using r(1) by (simp add: block_of_def gmap_view_def length_concat_fixed [where w = 4])
  show ?thesis
  proof (cases "gs ! (first * 64) \<le> t")
    case True
    then have "first < r" using r(2) r(5) [of first] n by (cases "r = first") auto
    then show ?thesis
      using b True r(3) r(4) [of "r - 1"] r(5) [of r] block_index [of "r - 1" "length gs"]
        block_index [of r "length gs"]
      by (intro exI [of _ "r - 1"]) auto
  next
    case False
    then have "r = first" using r(2) r(4) [of first] by (cases "r = first") auto
    moreover have "t < gs ! ((first - 1 + 1) * 64)" if "(first - 1 + 1) * 64 < length gs"
      using False mono [of first "first - 1 + 1"] that block_index [of "first - 1 + 1" "length gs"]
      by (cases first) auto
    ultimately show ?thesis
      using b False assms(2) by (intro exI [of _ "first - 1"]) auto
  qed
qed

lemma lower_bound_view:
  assumes gs: "ids_ok gs" and "from < length gs"
  shows "lower_bound_from (gmap_view mw gs) (u32_of from) t = Some (u32_of (first_ge gs from t))"
proof -
  let ?r = "gmap_view mw gs" and ?fb = "from div 64"
  have n: "length gs \<le> 2 ^ 32 - 64" using gs by (simp add: ids_ok_def)
  have u: "unat (u32_of from) = from" "unat (u32_of from div 64) = ?fb"
    "\<not> u32_of (length gs) \<le> u32_of from"
    using n assms(2) by (simp_all add: unat_div u32_of_le_iff)
  have fb: "?fb * 64 \<le> from" "from < (?fb + 1) * 64" by auto
  define pick where "pick = (if div_ceil (length gs) 64 \<le> ?fb + 1 then Some ?fb else do {
     h \<leftarrow> gm_head ?r (?fb + 1);
     if t < h then Some ?fb else block_of ?r (?fb + 1) t })"
  obtain b where b: "pick = Some b" "b * 64 < length gs" "b = ?fb \<or> ?fb < b \<and> gs ! (b * 64) \<le> t"
    "(b + 1) * 64 < length gs \<Longrightarrow> t < gs ! ((b + 1) * 64)"
  proof (cases "(?fb + 1) * 64 < length gs \<and> gs ! ((?fb + 1) * 64) \<le> t")
    case True
    then obtain b where b: "block_of ?r (?fb + 1) t = Some b" "b * 64 < length gs" "?fb + 1 \<le> b"
      "gs ! (b * 64) \<le> t" "(b + 1) * 64 < length gs \<longrightarrow> t < gs ! ((b + 1) * 64)"
      using block_of_view [OF gs, of "?fb + 1" mw t] by blast
    have "\<not> div_ceil (length gs) 64 \<le> ?fb + 1"
      using True block_index [of "?fb + 1" "length gs"] by simp
    moreover have "\<not> t < gs ! ((?fb + 1) * 64)" using True by (simp add: not_less)
    ultimately have "pick = Some b"
      using gm_head_at [of "?fb + 1" gs mw] True b(1) by (simp add: pick_def)
    with b show ?thesis using that [of b] by simp
  next
    case False
    have "pick = Some ?fb"
    proof (cases "(?fb + 1) * 64 < length gs")
      case True
      with False have "t < gs ! ((?fb + 1) * 64)" by simp
      then show ?thesis using True gm_head_at [of "?fb + 1" gs mw] by (simp add: pick_def)
    next
      case False
      then show ?thesis using block_index [of "?fb + 1" "length gs"] by (simp add: pick_def)
    qed
    then show ?thesis using that [of ?fb] False fb assms(2) by (auto simp: not_le)
  qed
  let ?lo = "max (b * 64) from" and ?hi = "min ((b + 1) * 64) (length gs)"
  have w: "u32_of b * 64 = u32_of (b * 64)" "(u32_of b + 1) * 64 = u32_of ((b + 1) * 64)"
    by (simp_all add: algebra_simps)
  have "max (u32_of b * 64) (u32_of from) = u32_of ?lo"
    "min ((u32_of b + 1) * 64) (u32_of (length gs)) = u32_of ?hi"
    unfolding w using b(2) n assms(2)
    by (simp_all add: max_u32_of min_u32_of del: of_nat_mult of_nat_add)
  moreover have "bisect (gm_global ?r) t (u32_of ?lo) (u32_of ?hi) = Some (u32_of (first_ge gs from t))"
  proof (rule gmap2.bisect_first_ge [OF gs])
    show "gs ! i < t" if "from \<le> i" "i < ?lo" for i
      using that b(2,3) fb gmap1.nth_less [OF gs, of i "b * 64"] by auto
    show "t \<le> gs ! ?hi" if "?hi < length gs"
      using that b(4) by (auto simp: min_def split: if_splits)
  qed (use b(2,3) fb assms(2) in auto)
  moreover have "length (gm_heads ?r) div 4 = div_ceil (length gs) 64"
    by (simp add: gmap_view_def)
  moreover have "gm_n ?r = u32_of (length gs)" by (simp add: gmap_view_def)
  moreover have "gm_heads ?r \<noteq> []" by (rule heads_nonempty) (use assms(2) in auto)
  ultimately show ?thesis
    using b(1) u by (simp add: lower_bound_from_def GMAP_BLOCK_def pick_def Let_def)
qed

lemma lower_bound_view1:
  assumes gs: "ids_ok gs" and "from < length gs"
  shows "lower_bound_from (gmap_view1 gs) (u32_of from) t = Some (u32_of (first_ge gs from t))"
proof -
  have n: "length gs \<le> 2 ^ 32 - 64" using gs by (simp add: ids_ok_def)
  obtain l h where lh: "gallop (gm_global (gmap_view1 gs)) (u32_of (length gs)) t (u32_of from) (u32_of from) 1
      = Some (u32_of l, u32_of h)" "from \<le> l" "l \<le> h" "h \<le> length gs"
    "\<And>i. from \<le> i \<Longrightarrow> i < l \<Longrightarrow> gs ! i < t" "h < length gs \<Longrightarrow> t \<le> gs ! h"
    using gmap1.gallop_bounds [OF gs, of "from" "from" "from" 1 t] n assms(2) by auto
  have "bisect (gm_global (gmap_view1 gs)) t (u32_of l) (u32_of h) = Some (u32_of (first_ge gs from t))"
    by (rule gmap1.bisect_first_ge [OF gs lh(2-6)])
  moreover have "\<not> u32_of (length gs) \<le> u32_of from" using n assms(2) by (simp add: u32_of_le_iff)
  moreover have "gm_n (gmap_view1 gs) = u32_of (length gs)" "gm_heads (gmap_view1 gs) = []"
    by (simp_all add: gmap_view1_def)
  ultimately show ?thesis using lh(1) by (simp add: lower_bound_from_def Let_def)
qed

lemma gm_local_view1:
  assumes gs: "ids_ok gs"
  shows "gm_local (gmap_view1 gs) g = Some (map_option u32_of (index_of gs g))"
proof -
  have "unat (u32_of (length gs)) = length gs" using gs by (simp add: ids_ok_def)
  moreover have "gs = []" if "u32_of (length gs) = 0" using calculation that by simp
  ultimately show ?thesis
    using gmap1.find_local_index [OF gs, of "length gs" 0 g]
    by (auto simp: gm_local_def gmap_view1_def)
qed

lemma gm_local_view:
  assumes gs: "ids_ok gs"
  shows "gm_local (gmap_view mw gs) g = Some (map_option u32_of (index_of gs g))"
proof (cases "gs = []")
  case True
  then show ?thesis by (simp add: gm_local_def gmap_view_def)
next
  case False
  let ?r = "gmap_view mw gs"
  have n: "length gs \<le> 2 ^ 32 - 64" using gs by (simp add: ids_ok_def)
  obtain b where b: "block_of ?r 0 g = Some b" "b * 64 < length gs"
    "gs ! 0 \<le> g \<longrightarrow> gs ! (b * 64) \<le> g" "g < gs ! 0 \<longrightarrow> b = 0"
    "(b + 1) * 64 < length gs \<longrightarrow> g < gs ! ((b + 1) * 64)"
    using block_of_view [OF gs, of 0 mw g] False by auto
  have "u32_of b * 64 = u32_of (b * 64)" "(u32_of b + 1) * 64 = u32_of ((b + 1) * 64)"
    by (simp_all add: algebra_simps)
  then have lo: "unat (u32_of b * 64) = b * 64"
    and hi: "unat (min ((u32_of b + 1) * 64) (u32_of (length gs))) = min ((b + 1) * 64) (length gs)"
    using b(2) n by (simp_all add: min_u32_of del: of_nat_mult of_nat_add)
  have "find_local (gm_global ?r) g (b * 64) (min ((b + 1) * 64) (length gs))
      = Some (map_option u32_of (index_of gs g))"
  proof (rule gmap2.find_local_index [OF gs])
    show "gs ! i < g" if "i < b * 64" for i
      using that b gmap1.nth_less [OF gs, of i "b * 64"] by (cases "gs ! 0 \<le> g") auto
    show "g < gs ! i" if "min ((b + 1) * 64) (length gs) \<le> i" "i < length gs" for i
      using that b(5) gmap1.nth_le [OF gs, of "(b + 1) * 64" i] by (auto simp: min_def split: if_splits)
  qed simp
  moreover have "gm_n ?r = u32_of (length gs)" by (simp add: gmap_view_def)
  moreover have "gm_n ?r \<noteq> 0"
    using False n calculation(2) u32_of_eq_iff [of "length gs" 0] by simp
  ultimately show ?thesis
    using b(1) lo hi heads_nonempty [OF False, of mw] by (simp add: gm_local_def GMAP_BLOCK_def)
qed

section \<open>Opening the encoded file\<close>

lemma gmap_open_encode:
  assumes "length gs < 2 ^ 32"
  shows "gmap_open (gmap_encode gs mw) = Some (gmap_view (map_option (\<lambda>m. min m (UNKNOWN_WORD - 1)) mw) gs)"
proof -
  let ?mw = "case mw of None \<Rightarrow> UNKNOWN_WORD | Some m \<Rightarrow> min m (UNKNOWN_WORD - 1)"
  let ?ids = "concat (map le32 gs)" and ?hs = "concat (map le32 (heads_of gs))"
  let ?bs = "gmap_encode gs mw"
  have bs: "?bs = bstr ''GMP2'' @ le32 (u32_of (length gs)) @ le16 ?mw @ le16 0 @ ?ids @ ?hs"
    by (simp add: gmap_encode_def heads_of_def GMAP_BLOCK_def comp_def Let_def)
  have len: "length ?ids = 4 * length gs" by (simp add: length_concat_fixed [where w = 4])
  have r: "read_u32 ?bs 4 = Some (u32_of (length gs))" "read_u16 ?bs 8 = Some ?mw"
    "slice ?bs 12 (12 + length gs * 4) = Some ?ids"
    "slice ?bs (12 + length gs * 4) (12 + length gs * 4 + div_ceil (length gs) 64 * 4) = Some ?hs"
    using slice_head [of "div_ceil (length gs) 64 * 4" ?hs "[]"] by (simp_all add: bs len exec_simps)
  have magic: "take 4 ?bs = bstr ''GMP2''" "bstr ''GMP2'' \<noteq> bstr ''GMAP''"
    by (simp add: bs) (simp add: bstr_def)
  have "min m (0xFFFF - 1) \<noteq> (0xFFFF :: u16)" for m by (auto simp: min_def)
  then have "(if ?mw \<noteq> UNKNOWN_WORD then Some ?mw else None) = map_option (\<lambda>m. min m (UNKNOWN_WORD - 1)) mw"
    by (auto simp: UNKNOWN_WORD_def split: option.splits)
  moreover have "length ?bs = 12 + length gs * 4 + div_ceil (length gs) 64 * 4" by (simp add: bs len)
  ultimately show ?thesis
    using r magic assms by (simp add: gmap_open_def gmap_view_def GMAP_BLOCK_def Let_def)
qed

lemma gmap_open_layout1:
  assumes "length gs < 2 ^ 32"
  shows "gmap_open (bstr ''GMAP'' @ le32 (u32_of (length gs)) @ concat (map le32 gs)) = Some (gmap_view1 gs)"
  using assms slice_head [of "length gs * 4" "concat (map le32 gs)" "[]"]
  by (simp add: gmap_open_def gmap_view1_def length_concat_fixed [where w = 4] exec_simps Let_def)

section \<open>Properties\<close>

text \<open>
  C10.  Opening an encoded \<open>.gmap\<close> gives back the list of global ids, and \<open>local\<close> inverts
  \<open>global\<close>: for a strictly increasing list (of at most \<open>2 ^ 32 - 64\<close> ids), \<open>global i\<close> is the
  \<open>i\<close>-th id, \<open>local g\<close> is the position of \<open>g\<close>, and \<open>None\<close> for an id the segment does not have.
\<close>

theorem gmap_lookup:
  assumes "sorted_wrt (<) gs" and "length gs \<le> 2 ^ 32 - 64"
  shows "\<exists>r. gmap_open (gmap_encode gs mw) = Some r \<and> unat (gm_n r) = length gs
           \<and> (\<forall>i < length gs. gm_global r (u32_of i) = Some (gs ! i)
                              \<and> gm_local r (gs ! i) = Some (Some (u32_of i)))
           \<and> (\<forall>g. g \<notin> set gs \<longrightarrow> gm_local r g = Some None)"
proof -
  have gs: "ids_ok gs" using assms by (simp add: ids_ok_def)
  let ?r = "gmap_view (map_option (\<lambda>m. min m (UNKNOWN_WORD - 1)) mw) gs"
  have "gm_local ?r g = Some (map_option u32_of (index_of gs g))" for g by (rule gm_local_view [OF gs])
  moreover have "index_of gs (gs ! i) = Some i" if "i < length gs" for i
    using that assms(1) by (intro index_of_nth) (auto simp: strict_sorted_iff)
  moreover have "gm_global ?r (u32_of i) = Some (gs ! i)" if "i < length gs" for i
    using gmap2.global_at [OF gs that] .
  moreover have "unat (gm_n ?r) = length gs" using assms(2) by (simp add: gmap_view_def)
  ultimately show ?thesis
    using gmap_open_encode [of gs mw] assms(2) by (intro exI [of _ ?r]) (simp add: index_of_None [symmetric])
qed

theorem gmap_lookup_witness:
  "\<exists>r. gmap_open (gmap_encode [3, 7, 8, 100] (Some 12)) = Some r
     \<and> gm_global r 2 = Some 8 \<and> gm_local r 100 = Some (Some 3) \<and> gm_local r 9 = Some None"
proof -
  obtain r where r: "gmap_open (gmap_encode [3, 7, 8, 100] (Some 12)) = Some r"
    "\<forall>i < 4. gm_global r (u32_of i) = Some ([3, 7, 8, 100] ! i)
              \<and> gm_local r ([3, 7, 8, 100] ! i) = Some (Some (u32_of i))"
    "\<forall>g. g \<notin> {3, 7, 8, 100} \<longrightarrow> gm_local r g = Some None"
    using gmap_lookup [of "[3, 7, 8, 100]" "Some 12"] by auto
  from r(2) [rule_format, of 2] r(2) [rule_format, of 3] r(3) r(1) show ?thesis by simp
qed

text \<open>
  C11.  \<open>lower_bound_from\<close> returns the first local ordinal at or after \<open>from\<close> whose global id is
  at least the target, \<open>len()\<close> when there is none: by the block heads in layout 2 and by
  galloping in layout 1, so the two layouts give the same answer.
\<close>

theorem lower_bound_from_correct:
  assumes "sorted_wrt (<) gs" and "length gs \<le> 2 ^ 32 - 64" and "from < 2 ^ 32"
  shows "lower_bound_from (gmap_view mw gs) (u32_of from) target = Some (u32_of (first_ge gs from target))
       \<and> lower_bound_from (gmap_view1 gs) (u32_of from) target = Some (u32_of (first_ge gs from target))"
proof (cases "from < length gs")
  case True
  then show ?thesis using lower_bound_view lower_bound_view1 assms by (simp add: ids_ok_def)
next
  case False
  then have "u32_of (length gs) \<le> u32_of from" using assms by (simp add: u32_of_le_iff)
  then show ?thesis using False
    by (simp add: lower_bound_from_def gmap_view_def gmap_view1_def first_ge_def Let_def)
qed

theorem lower_bound_from_correct_witness:
  "lower_bound_from (gmap_view None [3, 7, 8, 100]) 1 9 = Some 3
   \<and> lower_bound_from (gmap_view1 [3, 7, 8, 100]) 1 9 = Some 3"
  using lower_bound_from_correct [of "[3, 7, 8, 100]" 1 None 9] by (simp add: first_ge_def)

end
