(* ===== verification/DocTable.thy ===== *)
theory DocTable
  imports Prelude
begin

text \<open>
  What the two position maps (\<open>posmap.rs\<close>, \<open>word_pos_map.rs\<close>) share: a grid of slots per
  document that grows on write, and the file layout of an offset table of \<open>u64\<close> followed by one
  region per document.  The locale \<open>slot_writer\<close> states what the indexer relies on: a write is
  seen at its (document, position) and nowhere else.
\<close>

section \<open>Definitions\<close>

definition EMPTY :: u32 where "EMPTY = 0xFFFFFFFF"

text \<open>\<open>docs.resize(d + 1, ..)\<close>, \<open>doc.resize(p + 1, u32::MAX)\<close>, \<open>doc[p] = v\<close>.\<close>

definition grid_put :: "u32 list list \<Rightarrow> nat \<Rightarrow> nat \<Rightarrow> u32 \<Rightarrow> u32 list list" where
  "grid_put docs d p v =
     (let docs = (if length docs \<le> d then resize docs (d + 1) [] else docs);
          doc = docs ! d;
          doc = (if length doc \<le> p then resize doc (p + 1) EMPTY else doc)
      in docs[d := doc[p := v]])"

text \<open>The offset table: the start of every region, then the end as a sentinel.\<close>

fun offset_table_bytes :: "u64 \<Rightarrow> nat list \<Rightarrow> bytes" where
  "offset_table_bytes offset [] = le64 offset"
| "offset_table_bytes offset (n # ns) = le64 offset @ offset_table_bytes (offset + u64_of n) ns"

text \<open>The slot at (document, position) of a grid.\<close>

definition grid_slot :: "u32 list list \<Rightarrow> nat \<Rightarrow> nat \<Rightarrow> u32" where
  "grid_slot docs d p = (if d < length docs \<and> p < length (docs ! d) then docs ! d ! p else EMPTY)"

section \<open>The grid\<close>

lemma grid_slot_put:
  "grid_slot (grid_put docs d p v) d' p' = (if d' = d \<and> p' = p then v else grid_slot docs d' p')"
proof -
  define docs1 where "docs1 = (if length docs \<le> d then resize docs (d + 1) [] else docs)"
  define doc1 where "doc1 = (if length (docs1 ! d) \<le> p then resize (docs1 ! d) (p + 1) EMPTY else docs1 ! d)"
  have put: "grid_put docs d p v = docs1[d := doc1[p := v]]"
    by (simp add: grid_put_def docs1_def doc1_def Let_def)
  have d: "d < length docs1" by (simp add: docs1_def)
  have p: "p < length doc1" by (simp add: doc1_def)
  have row: "grid_slot docs1 d' q = grid_slot docs d' q" for q
    by (auto simp: grid_slot_def docs1_def nth_resize)
  have cell: "(if q < length doc1 then doc1 ! q else EMPTY) = grid_slot docs d q" for q
    unfolding doc1_def using d
    by (auto simp: grid_slot_def nth_resize docs1_def)
  show ?thesis
  proof (cases "d' = d")
    case True
    have "grid_slot (grid_put docs d p v) d p' =
        (if p' = p then v else if p' < length doc1 then doc1 ! p' else EMPTY)"
      using d p by (auto simp: put grid_slot_def)
    with True show ?thesis by (simp add: cell)
  next
    case False
    then have "grid_slot (grid_put docs d p v) d' p' = grid_slot docs1 d' p'" by (simp add: grid_slot_def put)
    with False show ?thesis by (simp add: row)
  qed
qed

lemma length_grid_put: "length (grid_put docs d p v) = max (length docs) (d + 1)"
  by (simp add: grid_put_def Let_def max_def)

lemma grid_slot_Nil [simp]: "grid_slot [] d p = EMPTY"
  by (simp add: grid_slot_def)

section \<open>The contract of a slot writer\<close>

locale slot_writer =
  fixes start :: 's
    and put :: "'s \<Rightarrow> u32 \<Rightarrow> u32 \<Rightarrow> u32 \<Rightarrow> 's"
    and slot :: "'s \<Rightarrow> nat \<Rightarrow> nat \<Rightarrow> u32"
  assumes slot_start: "slot start d' p' = EMPTY"
    and slot_put: "slot (put s d p v) d' p' = (if d' = unat d \<and> p' = unat p then v else slot s d' p')"
begin

text \<open>After any sequence of writes a slot holds the last value written to it.\<close>

lemma slot_fold:
  "slot (foldl (\<lambda>s (d, p, v). put s d p v) start es) (unat doc) (unat pos) =
     (case map_of (rev (map (\<lambda>(d, p, v). ((d, p), v)) es)) (doc, pos) of None \<Rightarrow> EMPTY | Some v \<Rightarrow> v)"
  by (induction es rule: rev_induct)
    (auto simp: slot_start slot_put word_unat_eq_iff [symmetric] split: prod.splits)

end

section \<open>The file layout\<close>

lemma offset_table_bytes_eq:
  "offset_table_bytes (u64_of o1) (map length rs) = concat (map (le64 \<circ> u64_of) (starts o1 rs))"
proof (induction rs arbitrary: o1)
  case (Cons r rs)
  then show ?case using Cons [of "o1 + length r"] by simp
qed simp

lemma length_offset_table_bytes [simp]: "length (offset_table_bytes o1 ns) = 8 * Suc (length ns)"
  by (induction ns arbitrary: o1) auto

lemma read_offset_table:
  assumes "i \<le> length rs" and "length (concat rs) < 2 ^ 64"
  shows "map_option unat (read_u64 (offset_table_bytes 0 (map length rs)) (i * 8)) = Some (starts 0 rs ! i)"
proof -
  have "read_u64 (concat (map le64 (map u64_of (starts 0 rs)))) (i * 8) = Some (u64_of (starts 0 rs ! i))"
    using read_u64_table [of i "map u64_of (starts 0 rs)" "i * 8" "[]" "[]"] assms(1) by simp
  moreover have "starts 0 rs ! i < 2 ^ 64" using starts_le_total [OF assms(1), of 0] assms(2) by simp
  ultimately show ?thesis
    using offset_table_bytes_eq [of 0 rs] by (simp add: comp_def)
qed

end
