(* ===== verification/PosMap.thy ===== *)
theory PosMap
  imports DocTable Gmap
begin

text \<open>
  The position-to-ordinal map, \<open>src/src/suffix_fst/posmap.rs\<close>: the writer, its three layouts
  (\<open>PMAP\<close> with 4-byte slots, \<open>PMP3\<close> with 3-byte slots, \<open>PMP4\<close> with byte checkpoints), the
  reader and the derivation of a byte offset from a checkpoint.  The profiling counter of the
  writer is not part of the state.
\<close>

section \<open>Writer\<close>

definition MAX_ORDINAL_3 :: u32 where "MAX_ORDINAL_3 = 0xFFFFFF"
definition CHECKPOINT_EVERY :: u32 where "CHECKPOINT_EVERY = 16"

fun byte_checkpoints_loop :: "nat \<Rightarrow> u32 \<Rightarrow> (u32 \<Rightarrow> u16 option) \<Rightarrow> u32 list \<Rightarrow> u32 list" where
  "byte_checkpoints_loop p acc own_len [] = []"
| "byte_checkpoints_loop p acc own_len (ord # slots) =
     (if p mod unat CHECKPOINT_EVERY = 0 then [acc] else [])
     @ byte_checkpoints_loop (p + 1)
         (if ord = EMPTY then 0
          else acc + ucast (case own_len ord of Some l \<Rightarrow> l | None \<Rightarrow> 0)) own_len slots"

definition byte_checkpoints :: "u32 list \<Rightarrow> (u32 \<Rightarrow> u16 option) \<Rightarrow> u32 list" where
  "byte_checkpoints slots own_len = byte_checkpoints_loop 0 0 own_len slots"

record PosMapWriter =
  pw_docs :: "u32 list list"

definition pw_new :: PosMapWriter where
  "pw_new = \<lparr>pw_docs = []\<rparr>"

definition pw_add :: "PosMapWriter \<Rightarrow> u32 \<Rightarrow> u32 \<Rightarrow> u32 \<Rightarrow> PosMapWriter" where
  "pw_add w doc_id position ordinal =
     w\<lparr>pw_docs := grid_put (pw_docs w) (unat doc_id) (unat position) ordinal\<rparr>"

definition pw_add_empty_doc :: "PosMapWriter \<Rightarrow> PosMapWriter" where
  "pw_add_empty_doc w = w\<lparr>pw_docs := pw_docs w @ [[]]\<rparr>"

definition doc_bytes :: "nat \<Rightarrow> (u32 \<Rightarrow> u16 option) option \<Rightarrow> u32 list \<Rightarrow> bytes" where
  "doc_bytes width ck doc =
     (case ck of
        Some own_len \<Rightarrow> le32 (u32_of (length doc)) @ concat (map le32 (byte_checkpoints doc own_len))
      | None \<Rightarrow> [])
     @ concat (map (to_le width) doc)"

definition pw_serialize_with_lens :: "PosMapWriter \<Rightarrow> (u32 \<Rightarrow> u16 option) option \<Rightarrow> bytes" where
  "pw_serialize_with_lens w own_len =
     (let docs = pw_docs w;
          narrow = list_all (\<lambda>ord. ord = EMPTY \<or> ord < MAX_ORDINAL_3) (concat docs);
          width = (if narrow then 3 else 4);
          checkpoints = (narrow \<and> own_len \<noteq> None);
          doc_size = (\<lambda>n. n * width + (if checkpoints then 4 + 4 * div_ceil n (unat CHECKPOINT_EVERY) else 0))
      in bstr (if checkpoints then ''PMP4'' else if narrow then ''PMP3'' else ''PMAP'')
         @ le32 (u32_of (length docs))
         @ offset_table_bytes 0 (map (\<lambda>doc. doc_size (length doc)) docs)
         @ concat (map (doc_bytes width (if checkpoints then own_len else None)) docs))"

definition pw_serialize :: "PosMapWriter \<Rightarrow> bytes" where
  "pw_serialize w = pw_serialize_with_lens w None"

section \<open>Reader\<close>

record PosMapReader =
  pm_num_docs :: u32
  pm_offsets :: bytes
  pm_data :: bytes
  pm_width :: nat
  pm_empty :: u32
  pm_checkpoints :: bool
  pm_gmap :: "GmapReader option"

definition pm_open :: "bytes \<Rightarrow> PosMapReader option" where
  "pm_open bs =
     (if length bs < 8 then None else do {
        (width, empty, checkpoints) \<leftarrow>
          (if take 4 bs = bstr ''PMAP'' then Some (4, EMPTY, False)
           else if take 4 bs = bstr ''PMP3'' then Some (3, MAX_ORDINAL_3, False)
           else if take 4 bs = bstr ''PMP4'' then Some (3, MAX_ORDINAL_3, True)
           else None);
        num_docs \<leftarrow> read_u32 bs 4;
        let offsets_size = (unat num_docs + 1) * 8;
        if length bs < 8 + offsets_size then None else do {
          offsets \<leftarrow> slice bs 8 (8 + offsets_size);
          data \<leftarrow> slice_from bs (8 + offsets_size);
          Some \<lparr>pm_num_docs = num_docs, pm_offsets = offsets, pm_data = data, pm_width = width,
                pm_empty = empty, pm_checkpoints = checkpoints, pm_gmap = None\<rparr> } })"

definition pm_with_gmap :: "PosMapReader \<Rightarrow> GmapReader \<Rightarrow> PosMapReader" where
  "pm_with_gmap r g = r\<lparr>pm_gmap := Some g\<rparr>"

definition pm_out :: "PosMapReader \<Rightarrow> u32 \<Rightarrow> u32 exec" where
  "pm_out r local = (case pm_gmap r of Some g \<Rightarrow> gm_global g local | None \<Rightarrow> Some local)"

definition pm_read_offset :: "PosMapReader \<Rightarrow> u32 \<Rightarrow> u64 exec" where
  "pm_read_offset r i = read_u64 (pm_offsets r) (unat i * 8)"

definition doc_raw :: "PosMapReader \<Rightarrow> u32 \<Rightarrow> bytes exec" where
  "doc_raw r doc_id = do {
     s \<leftarrow> pm_read_offset r doc_id;
     e \<leftarrow> pm_read_offset r (doc_id + 1);
     let start = min (unat s) (length (pm_data r));
     let end1 = min (unat e) (length (pm_data r));
     slice (pm_data r) start (max end1 start) }"

definition checkpoint_bytes :: "bytes \<Rightarrow> nat" where
  "checkpoint_bytes raw =
     (if length raw < 4 then length raw
      else 4 + 4 * div_ceil (unat (from_le (take 4 raw) :: u32)) (unat CHECKPOINT_EVERY))"

definition doc_data :: "PosMapReader \<Rightarrow> u32 \<Rightarrow> bytes exec" where
  "doc_data r doc_id = do {
     raw \<leftarrow> doc_raw r doc_id;
     if \<not> pm_checkpoints r then Some raw
     else slice_from raw (min (checkpoint_bytes raw) (length raw)) }"

definition pm_slot :: "PosMapReader \<Rightarrow> bytes \<Rightarrow> nat \<Rightarrow> u32 option exec" where
  "pm_slot r dd off = do {
     ord \<leftarrow> (if pm_width r = 4 then read_u32 dd off
             else map_option (\<lambda>b. from_le (b @ [0])) (slice dd off (off + 3)));
     Some (if ord = pm_empty r then None else Some ord) }"

definition ordinal_at :: "PosMapReader \<Rightarrow> u32 \<Rightarrow> u32 \<Rightarrow> u32 option exec" where
  "ordinal_at r doc_id position =
     (if pm_num_docs r \<le> doc_id then Some None else do {
        dd \<leftarrow> doc_data r doc_id;
        let num_tokens = length dd div pm_width r;
        let p = unat position;
        if num_tokens \<le> p then Some None else do {
          s \<leftarrow> pm_slot r dd (p * pm_width r);
          case s of None \<Rightarrow> Some None | Some ord \<Rightarrow> map_option Some (pm_out r ord) } })"

fun ordinals_range_loop :: "PosMapReader \<Rightarrow> bytes \<Rightarrow> nat list \<Rightarrow> (u32 \<times> u32) list exec" where
  "ordinals_range_loop r dd [] = Some []"
| "ordinals_range_loop r dd (pos # ps) = do {
     s \<leftarrow> pm_slot r dd (pos * pm_width r);
     hit \<leftarrow> (case s of None \<Rightarrow> Some []
             | Some ord \<Rightarrow> map_option (\<lambda>g. [(u32_of pos, g)]) (pm_out r ord));
     rest \<leftarrow> ordinals_range_loop r dd ps;
     Some (hit @ rest) }"

definition ordinals_range :: "PosMapReader \<Rightarrow> u32 \<Rightarrow> u32 \<Rightarrow> u32 \<Rightarrow> (u32 \<times> u32) list exec" where
  "ordinals_range r doc_id pos_from pos_to =
     (if pm_num_docs r \<le> doc_id then Some [] else do {
        dd \<leftarrow> doc_data r doc_id;
        let num_tokens = length dd div pm_width r;
        ordinals_range_loop r dd [unat pos_from..<unat (min pos_to (u32_of num_tokens))] })"

definition pm_num_tokens :: "PosMapReader \<Rightarrow> u32 \<Rightarrow> u32 exec" where
  "pm_num_tokens r doc_id =
     (if pm_num_docs r \<le> doc_id then Some 0
      else map_option (\<lambda>dd. u32_of (length dd div pm_width r)) (doc_data r doc_id))"

text \<open>The walk of \<open>byte_at\<close> from the checkpoint; an unknown length makes \<open>byte_at\<close> return \<open>None\<close>.\<close>

fun byte_walk :: "PosMapReader \<Rightarrow> bytes \<Rightarrow> (u32 \<Rightarrow> u16 option) \<Rightarrow> nat list \<Rightarrow> u32 \<Rightarrow> u32 option exec" where
  "byte_walk r slots own_len [] acc = Some (Some acc)"
| "byte_walk r slots own_len (p # ps) acc = do {
     s \<leftarrow> pm_slot r slots (p * pm_width r);
     case s of
       None \<Rightarrow> byte_walk r slots own_len ps 0
     | Some local \<Rightarrow> do {
         g \<leftarrow> pm_out r local;
         case own_len g of
           None \<Rightarrow> Some None
         | Some l \<Rightarrow> byte_walk r slots own_len ps (acc + ucast l) } }"

definition byte_at :: "PosMapReader \<Rightarrow> u32 \<Rightarrow> u32 \<Rightarrow> (u32 \<Rightarrow> u16 option) \<Rightarrow> u32 option exec" where
  "byte_at r doc_id position own_len =
     (if \<not> pm_checkpoints r \<or> pm_num_docs r \<le> doc_id then Some None else do {
        raw \<leftarrow> doc_raw r doc_id;
        if length raw < 4 then Some None else do {
          n \<leftarrow> read_u32 raw 0;
          if n \<le> position then Some None else do {
            let ck = unat (position div CHECKPOINT_EVERY);
            acc \<leftarrow> read_u32 raw (4 + 4 * ck);
            slots \<leftarrow> slice_from raw (checkpoint_bytes raw);
            walked \<leftarrow> byte_walk r slots own_len [unat (u32_of ck * CHECKPOINT_EVERY)..<unat position] acc;
            case walked of
              None \<Rightarrow> Some None
            | Some acc \<Rightarrow> do {
                s \<leftarrow> pm_slot r slots (unat position * pm_width r);
                case s of None \<Rightarrow> Some None | Some _ \<Rightarrow> Some (Some acc) } } } })"

section \<open>The registry entry\<close>

record PosMapIndex =
  pi_writer :: PosMapWriter
  pi_own_lens :: "u16 list"

definition pi_new :: PosMapIndex where
  "pi_new = \<lparr>pi_writer = pw_new, pi_own_lens = []\<rparr>"

definition on_own_len :: "PosMapIndex \<Rightarrow> u32 \<Rightarrow> u16 \<Rightarrow> PosMapIndex" where
  "on_own_len x ord own_len =
     (let ls = pi_own_lens x;
          ls = (if length ls \<le> unat ord then resize ls (unat ord + 1) 0 else ls)
      in x\<lparr>pi_own_lens := ls[unat ord := own_len]\<rparr>)"

definition on_posting :: "PosMapIndex \<Rightarrow> u32 \<Rightarrow> u32 \<Rightarrow> u32 \<Rightarrow> PosMapIndex" where
  "on_posting x ord doc_id position = x\<lparr>pi_writer := pw_add (pi_writer x) doc_id position ord\<rparr>"

definition pi_serialize :: "PosMapIndex \<Rightarrow> bytes" where
  "pi_serialize x =
     (if pi_own_lens x = [] then pw_serialize (pi_writer x)
      else pw_serialize_with_lens (pi_writer x) (Some (\<lambda>ord. idx (pi_own_lens x) (unat ord))))"

section \<open>Checkpoints\<close>

text \<open>The running byte offset: reset by an empty slot, advanced by the length of the ordinal.\<close>

definition len_of :: "(u32 \<Rightarrow> u16 option) \<Rightarrow> u32 \<Rightarrow> u32" where
  "len_of f ord = ucast (case f ord of Some l \<Rightarrow> l | None \<Rightarrow> 0)"

definition advance :: "(u32 \<Rightarrow> u16 option) \<Rightarrow> u32 \<Rightarrow> u32 \<Rightarrow> u32" where
  "advance f acc ord = (if ord = EMPTY then 0 else acc + len_of f ord)"

definition running :: "(u32 \<Rightarrow> u16 option) \<Rightarrow> u32 list \<Rightarrow> nat \<Rightarrow> u32" where
  "running f slots p = foldl (advance f) 0 (take p slots)"

text \<open>
  The specification of a byte offset: the lengths of the positions of the same field value that
  precede \<open>p\<close>, a value being a maximal run of non-empty slots.
\<close>

definition byte_from :: "(u32 \<Rightarrow> u16 option) \<Rightarrow> u32 list \<Rightarrow> nat \<Rightarrow> u32" where
  "byte_from f slots p = sum_list (map (len_of f) (takeWhile (\<lambda>ord. ord \<noteq> EMPTY) (rev (take p slots))))"

lemma running_byte_from: "running f slots p = byte_from f slots p"
proof -
  have "foldl (advance f) 0 xs = sum_list (map (len_of f) (takeWhile (\<lambda>ord. ord \<noteq> EMPTY) (rev xs)))" for xs
    by (induction xs rule: rev_induct) (auto simp: advance_def)
  then show ?thesis by (simp add: running_def byte_from_def)
qed

lemma checkpoints_loop_eq:
  "byte_checkpoints_loop p acc f slots =
     map (\<lambda>i. foldl (advance f) acc (take (i - p) slots))
         (filter (\<lambda>i. i mod 16 = 0) [p..<p + length slots])"
proof (induction slots arbitrary: p acc)
  case (Cons ord slots)
  have step: "(if ord = EMPTY then 0 else acc + ucast (case f ord of Some l \<Rightarrow> l | None \<Rightarrow> 0)) = advance f acc ord"
    by (simp add: advance_def len_of_def)
  have "[p..<p + length (ord # slots)] = p # [Suc p..<Suc p + length slots]"
    by (simp add: upt_conv_Cons del: upt_Suc)
  moreover have "take (i - p) (ord # slots) = ord # take (i - Suc p) slots" if "Suc p \<le> i" for i
    using that by (simp add: take_Cons')
  ultimately show ?case
    using Cons [of "Suc p"] by (auto simp: step CHECKPOINT_EVERY_def simp del: upt_Suc)
qed simp

lemma filter_mod16: "filter (\<lambda>i. i mod 16 = 0) [0..<n] = map ((*) 16) [0..<div_ceil n 16]"
proof (induction n)
  case (Suc n)
  define q r where "q = n div 16" and "r = n mod 16"
  have n: "n = 16 * q + r" "r < 16" by (simp_all add: q_def r_def)
  have "div_ceil (Suc n) 16 = (if r = 0 then Suc (div_ceil n 16) else div_ceil n 16)"
    unfolding div_ceil_def mod_Suc div_Suc using n by (auto simp: q_def [symmetric] r_def [symmetric])
  moreover have "16 * div_ceil n 16 = n" if "r = 0" using that n by (simp add: div_ceil_def)
  ultimately show ?case using Suc by (simp add: r_def [symmetric])
qed (simp add: div_ceil_def)

lemma byte_checkpoints_eq:
  "byte_checkpoints slots f = map (\<lambda>k. running f slots (16 * k)) [0..<div_ceil (length slots) 16]"
  by (simp add: byte_checkpoints_def checkpoints_loop_eq filter_mod16 running_def comp_def)

lemma length_byte_checkpoints [simp]: "length (byte_checkpoints slots f) = div_ceil (length slots) 16"
  by (simp add: byte_checkpoints_eq)

section \<open>Reading back\<close>

definition narrow_doc :: "u32 list \<Rightarrow> bool" where
  "narrow_doc doc = list_all (\<lambda>ord. ord = EMPTY \<or> ord < MAX_ORDINAL_3) doc"

definition narrow_docs :: "PosMapWriter \<Rightarrow> bool" where
  "narrow_docs w = list_all (\<lambda>ord. ord = EMPTY \<or> ord < MAX_ORDINAL_3) (concat (pw_docs w))"

definition slot_bytes :: "PosMapWriter \<Rightarrow> nat" where
  "slot_bytes w = (if narrow_docs w then 3 else 4)"

definition lens_written :: "PosMapWriter \<Rightarrow> (u32 \<Rightarrow> u16 option) option \<Rightarrow> (u32 \<Rightarrow> u16 option) option" where
  "lens_written w own_len = (if narrow_docs w then own_len else None)"

definition pm_regions :: "PosMapWriter \<Rightarrow> (u32 \<Rightarrow> u16 option) option \<Rightarrow> bytes list" where
  "pm_regions w own_len = map (doc_bytes (slot_bytes w) (lens_written w own_len)) (pw_docs w)"

definition pm_view :: "PosMapWriter \<Rightarrow> (u32 \<Rightarrow> u16 option) option \<Rightarrow> PosMapReader" where
  "pm_view w own_len =
     \<lparr>pm_num_docs = u32_of (length (pw_docs w)),
      pm_offsets = offset_table_bytes 0 (map length (pm_regions w own_len)),
      pm_data = concat (pm_regions w own_len), pm_width = slot_bytes w,
      pm_empty = (if narrow_docs w then MAX_ORDINAL_3 else EMPTY),
      pm_checkpoints = (lens_written w own_len \<noteq> None), pm_gmap = None\<rparr>"

lemma length_slots: "length (concat (map (to_le k) doc)) = k * length doc"
  by (simp add: length_concat_fixed [where w = k])

lemma length_doc_bytes:
  "length (doc_bytes k ck doc) = length doc * k + (if ck \<noteq> None then 4 + 4 * div_ceil (length doc) 16 else 0)"
  by (auto simp: doc_bytes_def length_slots length_concat_fixed [where w = 4] split: option.splits)

lemma serialize_eq:
  "pw_serialize_with_lens w own_len =
     bstr (if lens_written w own_len \<noteq> None then ''PMP4'' else if narrow_docs w then ''PMP3'' else ''PMAP'')
     @ le32 (u32_of (length (pw_docs w))) @ pm_offsets (pm_view w own_len) @ pm_data (pm_view w own_len)"
proof -
  have "lens_written w own_len \<noteq> None \<longleftrightarrow> narrow_docs w \<and> own_len \<noteq> None" by (simp add: lens_written_def)
  then show ?thesis
    unfolding pw_serialize_with_lens_def Let_def narrow_docs_def [symmetric] pm_view_def pm_regions_def slot_bytes_def
    by (auto simp: length_doc_bytes comp_def CHECKPOINT_EVERY_def lens_written_def)
qed

lemma pm_magics [simp]:
  "bstr ''PMP3'' \<noteq> bstr ''PMAP''" "bstr ''PMP4'' \<noteq> bstr ''PMAP''" "bstr ''PMP4'' \<noteq> bstr ''PMP3''"
  by (simp_all add: bstr_def)

lemma pm_open_serialize:
  assumes "length (pw_docs w) < 2 ^ 32"
  shows "pm_open (pw_serialize_with_lens w own_len) = Some (pm_view w own_len)"
proof -
  let ?bs = "pw_serialize_with_lens w own_len" and ?v = "pm_view w own_len" and ?n = "length (pw_docs w)"
  let ?m = "bstr (if lens_written w own_len \<noteq> None then ''PMP4'' else if narrow_docs w then ''PMP3'' else ''PMAP'')"
  have m: "length ?m = 4" by simp
  have off: "length (pm_offsets ?v) = (?n + 1) * 8" by (simp add: pm_view_def pm_regions_def)
  have r: "take 4 ?bs = ?m" "read_u32 ?bs 4 = Some (u32_of ?n)"
    "slice ?bs 8 (8 + (?n + 1) * 8) = Some (pm_offsets ?v)"
    by (simp_all add: serialize_eq m off exec_simps)
  have d: "slice_from ?bs (8 + (?n + 1) * 8) = Some (pm_data ?v)"
    using slice_from_append [of "8 + (?n + 1) * 8" "?m @ le32 (u32_of ?n) @ pm_offsets ?v" "pm_data ?v"] m off
    by (simp add: serialize_eq)
  have len: "length ?bs = 8 + (?n + 1) * 8 + length (pm_data ?v)" by (simp add: serialize_eq m off)
  have u: "unat (u32_of ?n) = ?n" using assms by simp
  have w: "lens_written w own_len \<noteq> None \<Longrightarrow> narrow_docs w" by (simp add: lens_written_def split: if_splits)
  show ?thesis
    using r d len u w
    by (cases "lens_written w own_len = None"; cases "narrow_docs w")
      (simp_all add: pm_open_def, simp_all add: pm_view_def slot_bytes_def)
qed

lemma doc_raw_view:
  assumes "length (pw_docs w) < 2 ^ 32" and "d < length (pw_docs w)"
    and "length (concat (pm_regions w own_len)) < 2 ^ 64"
  shows "doc_raw (pm_view w own_len) (u32_of d)
     = Some (doc_bytes (slot_bytes w) (lens_written w own_len) (pw_docs w ! d))"
proof -
  let ?R = "pm_regions w own_len" and ?v = "pm_view w own_len"
  have len: "length ?R = length (pw_docs w)" by (simp add: pm_regions_def)
  have "unat (u32_of d + 1) = Suc d"
    using assms(1,2) unat_of_nat_u32 [of "Suc d"] by (simp add: add.commute)
  then obtain s e where "pm_read_offset ?v (u32_of d) = Some s" "unat s = starts 0 ?R ! d"
    "pm_read_offset ?v (u32_of d + 1) = Some e" "unat e = starts 0 ?R ! Suc d"
    using read_offset_table [of d ?R] read_offset_table [of "Suc d" ?R] assms len
    by (auto simp: pm_read_offset_def pm_view_def)
  moreover have "starts 0 ?R ! d \<le> starts 0 ?R ! Suc d" "starts 0 ?R ! Suc d \<le> length (concat ?R)"
    using starts_Suc [of d ?R 0] starts_le_total [of "Suc d" ?R 0] assms(2) len by simp_all
  moreover have "slice (concat ?R) (starts 0 ?R ! d) (starts 0 ?R ! Suc d)
      = Some (doc_bytes (slot_bytes w) (lens_written w own_len) (pw_docs w ! d))"
    using slice_concat_region [of d ?R "[]"] assms(2) by (simp add: pm_regions_def)
  ultimately show ?thesis by (simp add: doc_raw_def pm_view_def)
qed

lemma checkpoint_bytes_doc:
  assumes "length doc < 2 ^ 32"
  shows "checkpoint_bytes (doc_bytes k (Some f) doc) = 4 + 4 * div_ceil (length doc) 16"
  using assms by (simp add: checkpoint_bytes_def doc_bytes_def CHECKPOINT_EVERY_def)

lemma slots_behind_checkpoints:
  assumes "length doc < 2 ^ 32"
  shows "slice_from (doc_bytes k (Some f) doc) (checkpoint_bytes (doc_bytes k (Some f) doc))
     = Some (concat (map (to_le k) doc))"
  unfolding checkpoint_bytes_doc [OF assms]
  using slice_from_append [of "4 + 4 * div_ceil (length doc) 16"
      "le32 (u32_of (length doc)) @ concat (map le32 (byte_checkpoints doc f))" "concat (map (to_le k) doc)"]
  by (simp add: doc_bytes_def length_concat_fixed [where w = 4])

lemma doc_data_view:
  assumes "length (pw_docs w) < 2 ^ 32" and "d < length (pw_docs w)"
    and "length (pw_docs w ! d) < 2 ^ 32" and "length (concat (pm_regions w own_len)) < 2 ^ 64"
  shows "doc_data (pm_view w own_len) (u32_of d) = Some (concat (map (to_le (slot_bytes w)) (pw_docs w ! d)))"
proof -
  let ?doc = "pw_docs w ! d"
  note raw = doc_raw_view [OF assms(1,2,4)]
  show ?thesis
  proof (cases "lens_written w own_len")
    case None
    then show ?thesis using raw by (simp add: doc_data_def pm_view_def doc_bytes_def)
  next
    case (Some f)
    have "min (checkpoint_bytes (doc_bytes (slot_bytes w) (Some f) ?doc)) (length (doc_bytes (slot_bytes w) (Some f) ?doc))
        = checkpoint_bytes (doc_bytes (slot_bytes w) (Some f) ?doc)"
      by (simp add: checkpoint_bytes_doc [OF assms(3)] length_doc_bytes)
    then show ?thesis
      using raw Some slots_behind_checkpoints [OF assms(3)] by (simp add: doc_data_def pm_view_def)
  qed
qed

definition entry :: "u32 \<Rightarrow> u32 option" where
  "entry ord = (if ord = EMPTY then None else Some ord)"

lemma slot_width_3:
  assumes "ord = EMPTY \<or> ord < MAX_ORDINAL_3"
  shows "(if (from_le (to_le 3 ord @ [0]) :: u32) = MAX_ORDINAL_3 then None else Some (from_le (to_le 3 ord @ [0])))
    = entry ord"
proof -
  have r: "from_le (to_le 3 ord @ [0]) = take_bit 24 ord"
    using from_le_append_zeros [of "to_le 3 ord" 1, where ?'a = 32] from_le_to_le_take [of 3 ord] by simp
  show ?thesis
  proof (cases "ord = EMPTY")
    case True
    then have "take_bit 24 ord = MAX_ORDINAL_3" by (simp add: EMPTY_def MAX_ORDINAL_3_def)
    then show ?thesis using True r by (simp add: entry_def)
  next
    case False
    then have "ord < 0xFFFFFF" using assms by (simp add: MAX_ORDINAL_3_def)
    then have "unat ord < 2 ^ 24" and "ord \<noteq> 0xFFFFFF" by (auto simp: word_less_nat_alt)
    then have "take_bit 24 ord = ord" by (metis unat_take_bit take_bit_nat_eq_self word_unat_eq_iff)
    then show ?thesis using r False \<open>ord \<noteq> 0xFFFFFF\<close> by (simp add: entry_def MAX_ORDINAL_3_def)
  qed
qed

lemma pm_slot_view:
  assumes "d < length (pw_docs w)" and "p < length (pw_docs w ! d)"
  shows "pm_slot (pm_view w own_len) (concat (map (to_le (slot_bytes w)) (pw_docs w ! d))) (p * slot_bytes w)
    = Some (entry (pw_docs w ! d ! p))"
proof -
  let ?doc = "pw_docs w ! d"
  have s: "slice (concat (map (to_le k) ?doc)) (p * k) (p * k + k) = Some (to_le k (?doc ! p))" for k
    using slice_concat_fixed [of ?doc "to_le k" k p "p * k" "[]" _ "[]"] assms(2) by simp
  show ?thesis
  proof (cases "narrow_docs w")
    case True
    then have "list_all (\<lambda>ord. ord = EMPTY \<or> ord < MAX_ORDINAL_3) ?doc"
      using assms(1) by (auto simp: narrow_docs_def list_all_iff)
    then have "?doc ! p = EMPTY \<or> ?doc ! p < MAX_ORDINAL_3" using assms(2) by (simp add: list_all_length)
    then show ?thesis
      using slot_width_3 [of "?doc ! p"] s [of 3] True by (simp add: pm_slot_def pm_view_def slot_bytes_def)
  next
    case False
    have "read_u32 (concat (map le32 ?doc)) (p * 4) = Some (?doc ! p)"
      using read_u32_table [of p ?doc "p * 4" "[]" "[]"] assms(2) by simp
    then show ?thesis using False by (simp add: pm_slot_def pm_view_def slot_bytes_def entry_def)
  qed
qed

text \<open>The documents of a writer that index and position types can address.\<close>

definition pm_fits :: "PosMapWriter \<Rightarrow> (u32 \<Rightarrow> u16 option) option \<Rightarrow> bool" where
  "pm_fits w own_len \<longleftrightarrow> length (pw_docs w) < 2 ^ 32 \<and> (\<forall>doc \<in> set (pw_docs w). length doc < 2 ^ 32)
     \<and> length (concat (pm_regions w own_len)) < 2 ^ 64"

lemma ordinal_at_view:
  assumes "pm_fits w own_len" and "d < 2 ^ 32" and "p < 2 ^ 32"
  shows "ordinal_at (pm_view w own_len) (u32_of d) (u32_of p) = Some (entry (grid_slot (pw_docs w) d p))"
proof (cases "d < length (pw_docs w)")
  case False
  then have "pm_num_docs (pm_view w own_len) \<le> u32_of d"
    using assms by (simp add: pm_view_def pm_fits_def u32_of_le_iff)
  then show ?thesis using False by (simp add: ordinal_at_def grid_slot_def entry_def)
next
  case True
  let ?doc = "pw_docs w ! d"
  have "length ?doc < 2 ^ 32" using assms(1) True by (simp add: pm_fits_def)
  then have dd: "doc_data (pm_view w own_len) (u32_of d) = Some (concat (map (to_le (slot_bytes w)) ?doc))"
    using assms(1) True by (intro doc_data_view) (simp_all add: pm_fits_def)
  have n: "length (concat (map (to_le (slot_bytes w)) ?doc)) div slot_bytes w = length ?doc"
    by (simp add: length_slots slot_bytes_def)
  have "\<not> pm_num_docs (pm_view w own_len) \<le> u32_of d"
    using assms True by (simp add: pm_view_def pm_fits_def u32_of_le_iff)
  moreover have "pm_width (pm_view w own_len) = slot_bytes w" "pm_gmap (pm_view w own_len) = None"
    by (simp_all add: pm_view_def)
  ultimately show ?thesis
    using dd n True assms(3) pm_slot_view [OF True, of p own_len]
    by (cases "p < length ?doc")
      (simp_all add: ordinal_at_def grid_slot_def pm_out_def entry_def split: if_splits)
qed

lemma byte_walk_view:
  assumes "d < length (pw_docs w)" and "q \<le> length (pw_docs w ! d)"
    and "\<forall>ord \<in> set (take q (pw_docs w ! d)). ord \<noteq> EMPTY \<longrightarrow> f ord \<noteq> None" and "k \<le> q"
  shows "byte_walk (pm_view w own_len) (concat (map (to_le (slot_bytes w)) (pw_docs w ! d))) f [k..<q]
      (running f (pw_docs w ! d) k) = Some (Some (running f (pw_docs w ! d) q))"
  using assms(4)
proof (induction "q - k" arbitrary: k)
  case 0
  then show ?case by simp
next
  case (Suc m)
  let ?doc = "pw_docs w ! d"
  have k: "k < q" "k < length ?doc" using Suc.hyps(2) assms(2) by auto
  have run: "running f ?doc (Suc k) = advance f (running f ?doc k) (?doc ! k)"
    using k by (simp add: running_def take_Suc_conv_app_nth)
  have known: "?doc ! k \<noteq> EMPTY \<Longrightarrow> \<exists>l. f (?doc ! k) = Some l"
    using assms(3) k nth_mem [of k "take q ?doc"] by auto
  have "byte_walk (pm_view w own_len) (concat (map (to_le (slot_bytes w)) ?doc)) f [Suc k..<q]
      (running f ?doc (Suc k)) = Some (Some (running f ?doc q))"
    using Suc.hyps k by simp
  then show ?case
    using k known pm_slot_view [OF assms(1) k(2), of own_len] run
    by (auto simp: upt_conv_Cons entry_def advance_def len_of_def pm_out_def pm_view_def)
qed

lemma byte_at_view:
  assumes "pm_fits w (Some f)" and "narrow_docs w" and "d < length (pw_docs w)"
    and "p < length (pw_docs w ! d)" and "pw_docs w ! d ! p \<noteq> EMPTY"
    and "\<forall>ord \<in> set (take p (pw_docs w ! d)). ord \<noteq> EMPTY \<longrightarrow> f ord \<noteq> None"
  shows "byte_at (pm_view w (Some f)) (u32_of d) (u32_of p) f = Some (Some (byte_from f (pw_docs w ! d) p))"
proof -
  let ?doc = "pw_docs w ! d" and ?v = "pm_view w (Some f)" and ?ck = "p div 16"
  let ?raw = "doc_bytes (slot_bytes w) (Some f) ?doc"
  have n: "length ?doc < 2 ^ 32" using assms(1,3) by (simp add: pm_fits_def)
  have u: "unat (u32_of p) = p" "unat (u32_of p div 16) = ?ck" using n assms(4) by (simp_all add: unat_div)
  have "?ck * 16 \<le> p" by simp
  then have u2: "unat (u32_of ?ck * 16) = ?ck * 16"
    using n assms(4) unat_of_nat_u32 [of "?ck * 16"] by (simp del: div_mult_self_is_m)
  have ck: "?ck < div_ceil (length ?doc) 16" using assms(4) by (simp add: div_ceil_mult)
  have raw: "doc_raw ?v (u32_of d) = Some ?raw"
    using doc_raw_view [of w d "Some f"] assms(1-3) by (simp add: pm_fits_def lens_written_def)
  have r: "length ?raw \<ge> 4" "read_u32 ?raw 0 = Some (u32_of (length ?doc))"
    by (simp_all add: doc_bytes_def exec_simps)
  have acc: "read_u32 ?raw (4 + 4 * ?ck) = Some (running f ?doc (?ck * 16))"
    using read_u32_table [of ?ck "byte_checkpoints ?doc f" "4 + 4 * ?ck" "le32 (u32_of (length ?doc))"
        "concat (map (to_le (slot_bytes w)) ?doc)"] ck
    by (simp add: doc_bytes_def byte_checkpoints_eq mult.commute)
  have walk: "byte_walk ?v (concat (map (to_le (slot_bytes w)) ?doc)) f [?ck * 16..<p] (running f ?doc (?ck * 16))
      = Some (Some (running f ?doc p))"
    using assms(3,4,6) by (intro byte_walk_view) auto
  have slot: "pm_slot ?v (concat (map (to_le (slot_bytes w)) ?doc)) (p * slot_bytes w) = Some (Some (?doc ! p))"
    using pm_slot_view [OF assms(3,4), of "Some f"] assms(5) by (simp add: entry_def)
  have "\<not> u32_of (length ?doc) \<le> u32_of p" using n assms(4) by (simp add: u32_of_le_iff)
  moreover have "pm_checkpoints ?v" "\<not> pm_num_docs ?v \<le> u32_of d" "pm_width ?v = slot_bytes w"
    using assms(1-3) by (simp_all add: pm_view_def lens_written_def pm_fits_def u32_of_le_iff)
  ultimately show ?thesis
    using raw r acc walk slot u u2 slots_behind_checkpoints [OF n, of "slot_bytes w" f]
    by (simp add: byte_at_def CHECKPOINT_EVERY_def running_byte_from)
qed

interpretation posmap: slot_writer pw_new pw_add "\<lambda>w. grid_slot (pw_docs w)"
  by unfold_locales (simp_all add: pw_new_def pw_add_def grid_slot_put)

section \<open>Properties\<close>

text \<open>
  C12.  The position map is the exact inverse of the postings: after any sequence of \<open>add\<close>
  calls, the serialised map (in any of the three layouts) opens, and \<open>ordinal_at\<close> at any
  (document, position) returns the ordinal last added there, \<open>None\<close> where nothing was added.
\<close>

theorem posmap_roundtrip:
  assumes "w = foldl (\<lambda>w (d, p, ord). pw_add w d p ord) pw_new es" and "pm_fits w own_len"
    and "\<forall>(d, p, ord) \<in> set es. ord \<noteq> EMPTY"
  shows "\<exists>r. pm_open (pw_serialize_with_lens w own_len) = Some r \<and>
           (\<forall>doc_id position. ordinal_at r doc_id position =
              Some (map_of (rev (map (\<lambda>(d, p, ord). ((d, p), ord)) es)) (doc_id, position)))"
proof -
  let ?m = "map_of (rev (map (\<lambda>(d, p, ord). ((d, p), ord)) es))"
  have ne: "?m k = Some v \<Longrightarrow> v \<noteq> EMPTY" for k v
    using assms(3) by (fastforce dest!: map_of_SomeD)
  have "ordinal_at (pm_view w own_len) doc_id position = Some (?m (doc_id, position))" for doc_id position
  proof -
    have "grid_slot (pw_docs w) (unat doc_id) (unat position) =
        (case ?m (doc_id, position) of None \<Rightarrow> EMPTY | Some v \<Rightarrow> v)"
      using posmap.slot_fold [of es doc_id position] by (simp add: assms(1))
    then show ?thesis
      using ordinal_at_view [OF assms(2), of "unat doc_id" "unat position"] unat_u32_bound ne
      by (auto simp: entry_def split: option.splits)
  qed
  then show ?thesis
    using pm_open_serialize [of w own_len] assms(2) by (auto simp: pm_fits_def)
qed

theorem posmap_roundtrip_witness:
  "\<exists>r. pm_open (pw_serialize_with_lens (pw_add (pw_add pw_new 1 0 7) 1 2 70000) (Some (\<lambda>_. Some 5))) = Some r
     \<and> ordinal_at r 1 2 = Some (Some 70000) \<and> ordinal_at r 1 1 = Some None \<and> ordinal_at r 0 0 = Some None"
proof -
  let ?es = "[(1, 0, 7), (1, 2, 70000)] :: (u32 \<times> u32 \<times> u32) list"
  let ?w = "pw_add (pw_add pw_new 1 0 7) 1 2 70000"
  have docs: "pw_docs ?w = [[], [7, EMPTY, 70000]]"
    by (simp add: pw_add_def pw_new_def grid_put_def resize_def) (simp add: numeral_2_eq_2)
  have fits: "pm_fits ?w (Some (\<lambda>_. Some 5))"
    by (simp add: pm_fits_def pm_regions_def docs length_doc_bytes slot_bytes_def div_ceil_def)
  obtain r where "pm_open (pw_serialize_with_lens ?w (Some (\<lambda>_. Some 5))) = Some r"
    "\<forall>doc_id position. ordinal_at r doc_id position =
       Some (map_of (rev (map (\<lambda>(d, p, ord). ((d, p), ord)) ?es)) (doc_id, position))"
    using posmap_roundtrip [of ?w ?es "Some (\<lambda>_. Some 5)"] fits by (auto simp: EMPTY_def)
  then show ?thesis by auto
qed

text \<open>
  C13.  A byte offset derives from the checkpoints: on a map with checkpoints whose ordinals are
  narrow, \<open>byte_at\<close> of a non-empty position is the sum of the lengths of the positions before it
  in the same field value (the walk from the checkpoint resets on an empty slot exactly where
  the writer did), whatever the distance to the checkpoint.
\<close>

theorem byte_at_correct:
  assumes "pm_fits w (Some own_len)" and "narrow_docs w" and "d < length (pw_docs w)"
    and "p < length (pw_docs w ! d)" and "pw_docs w ! d ! p \<noteq> EMPTY"
    and "\<forall>ord \<in> set (take p (pw_docs w ! d)). ord \<noteq> EMPTY \<longrightarrow> own_len ord \<noteq> None"
  shows "\<exists>r. pm_open (pw_serialize_with_lens w (Some own_len)) = Some r
           \<and> byte_at r (u32_of d) (u32_of p) own_len = Some (Some (byte_from own_len (pw_docs w ! d) p))"
  using pm_open_serialize [of w "Some own_len"] byte_at_view [OF assms] assms(1) by (simp add: pm_fits_def)

theorem byte_at_correct_witness:
  "\<exists>r. pm_open (pw_serialize_with_lens \<lparr>pw_docs = [[4, EMPTY, 5, 6]]\<rparr> (Some (\<lambda>ord. Some (ucast ord + 1)))) = Some r
     \<and> byte_at r 0 3 (\<lambda>ord. Some (ucast ord + 1)) = Some (Some 6)"
proof -
  let ?f = "(\<lambda>ord. Some (ucast ord + 1)) :: u32 \<Rightarrow> u16 option" and ?w = "\<lparr>pw_docs = [[4, EMPTY, 5, 6]]\<rparr>"
  have "pm_fits ?w (Some ?f)"
    by (simp add: pm_fits_def pm_regions_def length_doc_bytes slot_bytes_def div_ceil_def)
  moreover have "narrow_docs ?w" by (simp add: narrow_docs_def MAX_ORDINAL_3_def)
  moreover have "byte_from ?f [4, EMPTY, 5, 6] 3 = 6"
    by (simp add: byte_from_def len_of_def EMPTY_def numeral_3_eq_3)
  ultimately show ?thesis
    using byte_at_correct [of ?w ?f 0 3] by (simp add: EMPTY_def numeral_3_eq_3)
qed

end
