(* ===== verification/WordPosMap.thy ===== *)
theory WordPosMap
  imports DocTable Gmap
begin

text \<open>
  The word-position map, \<open>src/src/suffix_fst/word_pos_map.rs\<close>: slots of 28 ordinal bits and 4
  span bits, the overflow guard of the writer, the container and the reader of \<open>WMP3\<close> and
  \<open>WMP2\<close> files.  The profiling counter of the writer is not part of the state.
\<close>

section \<open>Definitions\<close>

definition SLOT_ORDINAL_BITS :: nat where "SLOT_ORDINAL_BITS = 28"
definition SLOT_ORDINAL_MASK :: u32 where "SLOT_ORDINAL_MASK = push_bit SLOT_ORDINAL_BITS 1 - 1"
definition SLOT_ORDINAL_BITS_V2 :: nat where "SLOT_ORDINAL_BITS_V2 = 24"
definition SLOT_ORDINAL_MASK_V2 :: u32 where "SLOT_ORDINAL_MASK_V2 = push_bit SLOT_ORDINAL_BITS_V2 1 - 1"
definition SPAN_OVERFLOW :: u32 where "SPAN_OVERFLOW = 255"
definition SLOT_SPAN_MAX :: u32 where "SLOT_SPAN_MAX = push_bit (32 - SLOT_ORDINAL_BITS) 1 - 1"

record WordPosMapWriter =
  ww_docs :: "u32 list list"
  ww_overflow :: bool

definition ww_new :: WordPosMapWriter where
  "ww_new = \<lparr>ww_docs = [], ww_overflow = False\<rparr>"

definition saturating_sub :: "u32 \<Rightarrow> u32 \<Rightarrow> u32" where
  "saturating_sub a b = (if b \<le> a then a - b else 0)"

definition word_slot :: "u32 \<Rightarrow> u32 \<Rightarrow> u32 \<Rightarrow> u32" where
  "word_slot first1 last1 ordinal =
     (let span = min (saturating_sub last1 first1) SLOT_SPAN_MAX
      in ordinal OR push_bit SLOT_ORDINAL_BITS span)"

definition ww_add :: "WordPosMapWriter \<Rightarrow> u32 \<Rightarrow> u32 \<Rightarrow> u32 \<Rightarrow> WordPosMapWriter" where
  "ww_add w doc_id position slot =
     w\<lparr>ww_docs := grid_put (ww_docs w) (unat doc_id) (unat position) slot\<rparr>"

definition add_word :: "WordPosMapWriter \<Rightarrow> u32 \<Rightarrow> u32 \<Rightarrow> u32 \<Rightarrow> u32 \<Rightarrow> WordPosMapWriter" where
  "add_word w doc_id first1 last1 ordinal =
     (if SLOT_ORDINAL_MASK < ordinal then w\<lparr>ww_overflow := True\<rparr>
      else w\<lparr>ww_docs := grid_put (ww_docs w) (unat doc_id) (unat first1) (word_slot first1 last1 ordinal)\<rparr>)"

definition ww_serialize :: "WordPosMapWriter \<Rightarrow> bytes" where
  "ww_serialize w =
     (if ww_overflow w then []
      else bstr ''WMP3'' @ le32 (u32_of (length (ww_docs w)))
           @ offset_table_bytes 0 (map (\<lambda>doc. length doc * 4) (ww_docs w))
           @ concat (map (\<lambda>doc. concat (map le32 doc)) (ww_docs w)))"

record WordPosMapReader =
  wm_num_docs :: u32
  wm_offsets :: bytes
  wm_data :: bytes
  wm_ordinal_bits :: nat
  wm_gmap :: "GmapReader option"

definition wm_open :: "bytes \<Rightarrow> WordPosMapReader option" where
  "wm_open bs =
     (if length bs < 8 then None else do {
        ordinal_bits \<leftarrow>
          (if take 4 bs = bstr ''WMP3'' then Some SLOT_ORDINAL_BITS
           else if take 4 bs = bstr ''WMP2'' then Some SLOT_ORDINAL_BITS_V2
           else None);
        num_docs \<leftarrow> read_u32 bs 4;
        let offsets_size = (unat num_docs + 1) * 8;
        if length bs < 8 + offsets_size then None else do {
          offsets \<leftarrow> slice bs 8 (8 + offsets_size);
          data \<leftarrow> slice_from bs (8 + offsets_size);
          Some \<lparr>wm_num_docs = num_docs, wm_offsets = offsets, wm_data = data,
                wm_ordinal_bits = ordinal_bits, wm_gmap = None\<rparr> } })"

definition wm_with_gmap :: "WordPosMapReader \<Rightarrow> GmapReader \<Rightarrow> WordPosMapReader" where
  "wm_with_gmap r g = r\<lparr>wm_gmap := Some g\<rparr>"

definition wm_read_offset :: "WordPosMapReader \<Rightarrow> u32 \<Rightarrow> u64 exec" where
  "wm_read_offset r i = read_u64 (wm_offsets r) (unat i * 8)"

definition num_positions :: "WordPosMapReader \<Rightarrow> u32 \<Rightarrow> u32 exec" where
  "num_positions r doc_id =
     (if wm_num_docs r \<le> doc_id then Some 0 else do {
        let i = unat doc_id * 8;
        start \<leftarrow> read_u64 (wm_offsets r) i;
        end1 \<leftarrow> read_u64 (wm_offsets r) (i + 8);
        Some (ucast ((end1 - start) div 4)) })"

definition word_at :: "WordPosMapReader \<Rightarrow> u32 \<Rightarrow> u32 \<Rightarrow> u32 option exec" where
  "word_at r doc_id position =
     (if wm_num_docs r \<le> doc_id then Some None else do {
        start \<leftarrow> wm_read_offset r doc_id;
        end1 \<leftarrow> wm_read_offset r (doc_id + 1);
        let num_positions = unat ((end1 - start) div 4);
        if num_positions \<le> unat position then Some None else do {
          let pos = unat start + unat position * 4;
          if length (wm_data r) < pos + 4 then Some None else do {
            wid \<leftarrow> read_u32 (wm_data r) pos;
            Some (if wid = EMPTY then None else Some wid) } } })"

definition word_start_at :: "WordPosMapReader \<Rightarrow> u32 \<Rightarrow> u32 \<Rightarrow> (u32 \<times> u32) option exec" where
  "word_start_at r doc_id position = do {
     s \<leftarrow> word_at r doc_id position;
     case s of
       None \<Rightarrow> Some None
     | Some slot \<Rightarrow> do {
         let (local, span) =
           (if wm_ordinal_bits r = SLOT_ORDINAL_BITS_V2
            then (slot AND SLOT_ORDINAL_MASK_V2, drop_bit SLOT_ORDINAL_BITS_V2 slot)
            else (let span = drop_bit SLOT_ORDINAL_BITS slot
                  in (slot AND SLOT_ORDINAL_MASK, if SLOT_SPAN_MAX \<le> span then SPAN_OVERFLOW else span)));
         ordinal \<leftarrow> (case wm_gmap r of Some g \<Rightarrow> gm_global g local | None \<Rightarrow> Some local);
         Some (Some (ordinal, span)) } }"

section \<open>Slots\<close>

text \<open>The span the reader reports for a word.\<close>

definition reported_span :: "u32 \<Rightarrow> u32 \<Rightarrow> u32" where
  "reported_span first1 last1 =
     (let span = saturating_sub last1 first1 in if SLOT_SPAN_MAX \<le> span then SPAN_OVERFLOW else span)"

lemma slot_mask: "SLOT_ORDINAL_MASK = mask 28" "SLOT_SPAN_MAX = mask 4"
  by (simp_all add: SLOT_ORDINAL_MASK_def SLOT_SPAN_MAX_def SLOT_ORDINAL_BITS_def mask_eq_exp_minus_1 push_bit_eq_mult)

lemma small_take_bit_u32: "unat (w :: u32) < 2 ^ n \<Longrightarrow> take_bit n w = w"
  by (metis unat_take_bit take_bit_nat_eq_self word_unat_eq_iff)

lemma le_mask_take_bit:
  "(w :: u32) \<le> SLOT_ORDINAL_MASK \<Longrightarrow> take_bit 28 w = w" "w \<le> SLOT_SPAN_MAX \<Longrightarrow> take_bit 4 w = w"
  by (rule small_take_bit_u32, simp add: SLOT_ORDINAL_MASK_def SLOT_ORDINAL_BITS_def SLOT_SPAN_MAX_def word_le_nat_alt)+

lemma pack_fields:
  assumes "take_bit 28 (a :: u32) = a" and "take_bit 4 b = b"
  shows "(a OR push_bit 28 b) AND mask 28 = a" and "drop_bit 28 (a OR push_bit 28 b) = b"
proof -
  have a: "n < 28" if "bit a n" for n using assms(1) that by (metis bit_take_bit_iff)
  have b: "n < 4" if "bit b n" for n using assms(2) that by (metis bit_take_bit_iff)
  show "(a OR push_bit 28 b) AND mask 28 = a"
    by (rule bit_word_eqI) (use a in \<open>auto simp: bit_simps\<close>)
  show "drop_bit 28 (a OR push_bit 28 b) = b"
    by (rule bit_word_eqI) (use a b in \<open>force simp: bit_simps\<close>)
qed

lemma word_slot_fields:
  assumes "ordinal \<le> SLOT_ORDINAL_MASK"
  shows "word_slot first1 last1 ordinal AND SLOT_ORDINAL_MASK = ordinal"
    and "drop_bit SLOT_ORDINAL_BITS (word_slot first1 last1 ordinal) = min (saturating_sub last1 first1) SLOT_SPAN_MAX"
proof -
  let ?s = "min (saturating_sub last1 first1) SLOT_SPAN_MAX"
  have "take_bit 28 ordinal = ordinal" "take_bit 4 ?s = ?s"
    using assms by (auto intro!: le_mask_take_bit)
  from pack_fields [OF this] show "word_slot first1 last1 ordinal AND SLOT_ORDINAL_MASK = ordinal"
    and "drop_bit SLOT_ORDINAL_BITS (word_slot first1 last1 ordinal) = ?s"
    by (simp_all add: word_slot_def SLOT_ORDINAL_BITS_def slot_mask)
qed

lemma word_slot_EMPTY:
  assumes "ordinal \<le> SLOT_ORDINAL_MASK"
  shows "word_slot first1 last1 ordinal = EMPTY \<longleftrightarrow>
           ordinal = SLOT_ORDINAL_MASK \<and> SLOT_SPAN_MAX \<le> saturating_sub last1 first1"
proof
  assume e: "word_slot first1 last1 ordinal = EMPTY"
  have "ordinal = EMPTY AND SLOT_ORDINAL_MASK" using word_slot_fields(1) [OF assms] e by metis
  moreover have "min (saturating_sub last1 first1) SLOT_SPAN_MAX = drop_bit 28 EMPTY"
    using word_slot_fields(2) [OF assms] e by (metis SLOT_ORDINAL_BITS_def)
  ultimately show "ordinal = SLOT_ORDINAL_MASK \<and> SLOT_SPAN_MAX \<le> saturating_sub last1 first1"
    by (auto simp: EMPTY_def SLOT_ORDINAL_MASK_def SLOT_SPAN_MAX_def SLOT_ORDINAL_BITS_def min_def
        split: if_splits)
next
  assume *: "ordinal = SLOT_ORDINAL_MASK \<and> SLOT_SPAN_MAX \<le> saturating_sub last1 first1"
  then have "min (saturating_sub last1 first1) SLOT_SPAN_MAX = SLOT_SPAN_MAX" by (simp add: min_absorb2)
  then show "word_slot first1 last1 ordinal = EMPTY"
    using * by (simp add: word_slot_def EMPTY_def SLOT_ORDINAL_MASK_def SLOT_SPAN_MAX_def SLOT_ORDINAL_BITS_def)
qed

section \<open>Reading back\<close>

definition wm_regions :: "WordPosMapWriter \<Rightarrow> bytes list" where
  "wm_regions w = map (\<lambda>doc. concat (map le32 doc)) (ww_docs w)"

definition wm_view :: "WordPosMapWriter \<Rightarrow> WordPosMapReader" where
  "wm_view w = \<lparr>wm_num_docs = u32_of (length (ww_docs w)),
     wm_offsets = offset_table_bytes 0 (map length (wm_regions w)),
     wm_data = concat (wm_regions w), wm_ordinal_bits = SLOT_ORDINAL_BITS, wm_gmap = None\<rparr>"

definition wm_fits :: "WordPosMapWriter \<Rightarrow> bool" where
  "wm_fits w \<longleftrightarrow> length (ww_docs w) < 2 ^ 32 \<and> length (concat (wm_regions w)) < 2 ^ 64"

lemma wm_serialize_eq:
  "\<not> ww_overflow w \<Longrightarrow> ww_serialize w =
     bstr ''WMP3'' @ le32 (u32_of (length (ww_docs w))) @ wm_offsets (wm_view w) @ wm_data (wm_view w)"
  by (simp add: ww_serialize_def wm_view_def wm_regions_def comp_def length_concat_fixed [where w = 4] mult.commute)

lemma wm_open_serialize:
  assumes "\<not> ww_overflow w" and "length (ww_docs w) < 2 ^ 32"
  shows "wm_open (ww_serialize w) = Some (wm_view w)"
proof -
  let ?bs = "ww_serialize w" and ?v = "wm_view w" and ?n = "length (ww_docs w)"
  have off: "length (wm_offsets ?v) = (?n + 1) * 8" by (simp add: wm_view_def wm_regions_def)
  have r: "take 4 ?bs = bstr ''WMP3''" "read_u32 ?bs 4 = Some (u32_of ?n)"
    "slice ?bs 8 (8 + (?n + 1) * 8) = Some (wm_offsets ?v)"
    by (simp_all add: wm_serialize_eq [OF assms(1)] off exec_simps)
  have d: "slice_from ?bs (8 + (?n + 1) * 8) = Some (wm_data ?v)"
    using slice_from_append [of "8 + (?n + 1) * 8" "bstr ''WMP3'' @ le32 (u32_of ?n) @ wm_offsets ?v" "wm_data ?v"] off
    by (simp add: wm_serialize_eq [OF assms(1)])
  have len: "length ?bs = 8 + (?n + 1) * 8 + length (wm_data ?v)"
    by (simp add: wm_serialize_eq [OF assms(1)] off)
  have u: "unat (u32_of ?n) = ?n" using assms by simp
  show ?thesis using r d len u by (simp add: wm_open_def) (simp add: wm_view_def)
qed

lemma wm_offsets_view:
  assumes "wm_fits w" and "d < length (ww_docs w)"
  obtains s e where "wm_read_offset (wm_view w) (u32_of d) = Some s"
    and "wm_read_offset (wm_view w) (u32_of d + 1) = Some e"
    and "unat s = starts 0 (wm_regions w) ! d" and "unat ((e - s) div 4) = length (ww_docs w ! d)"
proof -
  let ?R = "wm_regions w" and ?v = "wm_view w"
  have len: "length ?R = length (ww_docs w)" by (simp add: wm_regions_def)
  have "unat (u32_of d + 1) = Suc d"
    using assms unat_of_nat_u32 [of "Suc d"] by (simp add: add.commute wm_fits_def)
  then obtain s e where se: "wm_read_offset ?v (u32_of d) = Some s" "unat s = starts 0 ?R ! d"
    "wm_read_offset ?v (u32_of d + 1) = Some e" "unat e = starts 0 ?R ! Suc d"
    using read_offset_table [of d ?R] read_offset_table [of "Suc d" ?R] assms len
    by (auto simp: wm_read_offset_def wm_view_def wm_fits_def)
  have "length (?R ! d) = 4 * length (ww_docs w ! d)"
    using assms(2) by (simp add: wm_regions_def length_concat_fixed [where w = 4])
  then have e: "unat e = unat s + 4 * length (ww_docs w ! d)"
    using se starts_Suc [of d ?R 0] assms(2) len by simp
  then have "s \<le> e" by (simp add: word_le_nat_alt)
  then have "unat (e - s) = 4 * length (ww_docs w ! d)" using e by (simp add: unat_sub)
  then show ?thesis using that se by (simp add: unat_div)
qed

lemma read_region_slot:
  assumes "d < length (ww_docs w)" and "p < length (ww_docs w ! d)"
  shows "read_u32 (concat (wm_regions w)) (starts 0 (wm_regions w) ! d + p * 4) = Some (ww_docs w ! d ! p)"
    and "starts 0 (wm_regions w) ! d + p * 4 + 4 \<le> length (concat (wm_regions w))"
proof -
  let ?R = "wm_regions w"
  have d: "d < length ?R" using assms(1) by (simp add: wm_regions_def)
  have rd: "?R ! d = concat (map le32 (ww_docs w ! d))" using assms(1) by (simp add: wm_regions_def)
  show r: "read_u32 (concat ?R) (starts 0 ?R ! d + p * 4) = Some (ww_docs w ! d ! p)"
    using read_u32_table [OF assms(2), of "starts 0 ?R ! d + p * 4" "concat (take d ?R)" "concat (drop (Suc d) ?R)"]
      concat_region_split [OF d] d by (simp add: rd nth_starts)
  show "starts 0 ?R ! d + p * 4 + 4 \<le> length (concat ?R)"
    using r by (auto simp: read_le_def slice_def split: if_splits)
qed

lemma word_at_view:
  assumes "wm_fits w" and "d < 2 ^ 32" and "p < 2 ^ 32"
  shows "word_at (wm_view w) (u32_of d) (u32_of p) =
           Some (let s = grid_slot (ww_docs w) d p in if s = EMPTY then None else Some s)"
proof (cases "d < length (ww_docs w)")
  case False
  then have "wm_num_docs (wm_view w) \<le> u32_of d"
    using assms by (simp add: wm_view_def wm_fits_def u32_of_le_iff)
  then show ?thesis using False by (simp add: word_at_def grid_slot_def)
next
  case True
  obtain s e where se: "wm_read_offset (wm_view w) (u32_of d) = Some s"
    "wm_read_offset (wm_view w) (u32_of d + 1) = Some e"
    "unat s = starts 0 (wm_regions w) ! d" "unat ((e - s) div 4) = length (ww_docs w ! d)"
    by (rule wm_offsets_view [OF assms(1) True])
  have n: "\<not> wm_num_docs (wm_view w) \<le> u32_of d"
    using assms True by (simp add: wm_view_def wm_fits_def u32_of_le_iff)
  have data: "wm_data (wm_view w) = concat (wm_regions w)" by (simp add: wm_view_def)
  show ?thesis
  proof (cases "p < length (ww_docs w ! d)")
    case False
    then show ?thesis using n se assms(3) True by (simp add: word_at_def grid_slot_def)
  next
    case p: True
    then show ?thesis
      using n se assms(3) True data read_region_slot [OF True p] by (simp add: word_at_def grid_slot_def)
  qed
qed

interpretation wordmap: slot_writer ww_new ww_add "\<lambda>w. grid_slot (ww_docs w)"
  by unfold_locales (simp_all add: ww_new_def ww_add_def grid_slot_put)

lemma add_words_fold:
  assumes "\<forall>(d, f, l, ord) \<in> set ws. ord \<le> SLOT_ORDINAL_MASK"
  shows "foldl (\<lambda>w (d, f, l, ord). add_word w d f l ord) ww_new ws =
     foldl (\<lambda>w (d, p, s). ww_add w d p s) ww_new (map (\<lambda>(d, f, l, ord). (d, f, word_slot f l ord)) ws)"
  using assms
  by (induction ws rule: rev_induct) (auto simp: add_word_def ww_add_def not_le [symmetric])

lemma no_overflow_fold:
  "\<not> ww_overflow (foldl (\<lambda>w (d, p, s). ww_add w d p s) ww_new xs)"
  by (induction xs rule: rev_induct) (auto simp: ww_new_def ww_add_def)

section \<open>Properties\<close>

text \<open>
  C14.  The word map is the exact inverse of the word postings: after any sequence of \<open>add_word\<close>
  calls whose ordinals fit the slot, the serialised map opens, and \<open>word_start_at\<close> returns, for
  every (document, position), the ordinal of the word last recorded as starting there with its
  span (\<open>SPAN_OVERFLOW\<close> from 15 chunks on), \<open>None\<close> where no word starts.  The one slot value
  that reads as empty, ordinal \<open>2 ^ 28 - 1\<close> with a span of 15 or more, is excluded.
\<close>

theorem word_map_roundtrip:
  assumes "w = foldl (\<lambda>w (d, f, l, ord). add_word w d f l ord) ww_new ws" and "wm_fits w"
    and "\<forall>(d, f, l, ord) \<in> set ws. ord \<le> SLOT_ORDINAL_MASK
           \<and> \<not> (ord = SLOT_ORDINAL_MASK \<and> SLOT_SPAN_MAX \<le> saturating_sub l f)"
  shows "\<exists>r. wm_open (ww_serialize w) = Some r \<and>
           (\<forall>doc_id position. word_start_at r doc_id position =
              Some (map_option (\<lambda>(l, ord). (ord, reported_span position l))
                (map_of (rev (map (\<lambda>(d, f, l, ord). ((d, f), (l, ord))) ws)) (doc_id, position))))"
proof -
  let ?m = "map_of (rev (map (\<lambda>(d, f, l, ord). ((d, f), (l, ord))) ws))"
  let ?es = "map (\<lambda>(d, f, l, ord). (d, f, word_slot f l ord)) ws"
  have w: "w = foldl (\<lambda>w (d, p, s). ww_add w d p s) ww_new ?es"
    unfolding assms(1) by (rule add_words_fold) (use assms(3) in auto)
  have slots: "map_of (rev (map (\<lambda>(d, p, v). ((d, p), v)) ?es)) (doc_id, position) =
      map_option (\<lambda>(l, ord). word_slot position l ord) (?m (doc_id, position))" for doc_id position
    by (induction ws rule: rev_induct) auto
  have "word_start_at (wm_view w) doc_id position =
      Some (map_option (\<lambda>(l, ord). (ord, reported_span position l)) (?m (doc_id, position)))" for doc_id position
  proof -
    have at: "word_at (wm_view w) doc_id position =
        Some (let s = grid_slot (ww_docs w) (unat doc_id) (unat position) in if s = EMPTY then None else Some s)"
      using word_at_view [OF assms(2), of "unat doc_id" "unat position"] unat_u32_bound by simp
    have slot: "grid_slot (ww_docs w) (unat doc_id) (unat position) =
        (case ?m (doc_id, position) of None \<Rightarrow> EMPTY | Some (l, ord) \<Rightarrow> word_slot position l ord)"
      using wordmap.slot_fold [of ?es doc_id position] unfolding w slots
      by (auto split: option.splits)
    show ?thesis
    proof (cases "?m (doc_id, position)")
      case None
      then show ?thesis using at slot by (simp add: word_start_at_def)
    next
      case (Some x)
      obtain l ord where x: "x = (l, ord)" by (cases x)
      have "(doc_id, position, l, ord) \<in> set ws" using map_of_SomeD [OF Some] x by auto
      then have ok: "ord \<le> SLOT_ORDINAL_MASK" "word_slot position l ord \<noteq> EMPTY"
        using assms(3) word_slot_EMPTY by auto
      have "(if SLOT_SPAN_MAX \<le> min (saturating_sub l position) SLOT_SPAN_MAX then SPAN_OVERFLOW
             else min (saturating_sub l position) SLOT_SPAN_MAX) = reported_span position l"
        by (auto simp: reported_span_def Let_def min_def)
      then show ?thesis
        using at slot Some x ok word_slot_fields [OF ok(1), of position l]
        by (simp add: word_start_at_def wm_view_def SLOT_ORDINAL_BITS_V2_def Let_def)
          (simp add: SLOT_ORDINAL_BITS_def)
    qed
  qed
  then show ?thesis
    using wm_open_serialize [of w] assms(2) no_overflow_fold [of ?es] w by (auto simp: wm_fits_def)
qed

theorem word_map_roundtrip_witness:
  "\<exists>r. wm_open (ww_serialize (add_word (add_word ww_new 0 0 2 7) 0 1 40 9)) = Some r
     \<and> word_start_at r 0 0 = Some (Some (7, 2)) \<and> word_start_at r 0 1 = Some (Some (9, 255))
     \<and> word_start_at r 1 0 = Some None"
proof -
  let ?ws = "[(0, 0, 2, 7), (0, 1, 40, 9)] :: (u32 \<times> u32 \<times> u32 \<times> u32) list"
  let ?w = "add_word (add_word ww_new 0 0 2 7) 0 1 40 9"
  have "ww_docs ?w = [[word_slot 0 2 7, word_slot 1 40 9]]"
    by (simp add: add_word_def ww_new_def grid_put_def resize_def SLOT_ORDINAL_MASK_def SLOT_ORDINAL_BITS_def Let_def)
  then have "wm_fits ?w" by (simp add: wm_fits_def wm_regions_def)
  then obtain r where "wm_open (ww_serialize ?w) = Some r"
    "\<forall>doc_id position. word_start_at r doc_id position =
       Some (map_option (\<lambda>(l, ord). (ord, reported_span position l))
         (map_of (rev (map (\<lambda>(d, f, l, ord). ((d, f), (l, ord))) ?ws)) (doc_id, position)))"
    using word_map_roundtrip [of ?w ?ws]
    by (auto simp: SLOT_ORDINAL_MASK_def SLOT_ORDINAL_BITS_def)
  then show ?thesis
    by (auto simp: reported_span_def saturating_sub_def SLOT_SPAN_MAX_def SLOT_ORDINAL_BITS_def SPAN_OVERFLOW_def)
qed

text \<open>
  The slot that is lost: the largest ordinal the writer accepts, \<open>2 ^ 28 - 1\<close>, recorded with
  a span of 15 chunks or more, passes the overflow guard but its slot is the empty marker, and the
  reader reports that no word starts there.
\<close>

theorem word_map_loses_word:
  assumes "15 \<le> last1"
  shows "\<exists>r. wm_open (ww_serialize (add_word ww_new 0 0 last1 SLOT_ORDINAL_MASK)) = Some r
           \<and> word_start_at r 0 0 = Some None"
proof -
  let ?w = "add_word ww_new 0 0 last1 SLOT_ORDINAL_MASK"
  have "SLOT_SPAN_MAX \<le> saturating_sub last1 0"
    using assms by (simp add: saturating_sub_def SLOT_SPAN_MAX_def SLOT_ORDINAL_BITS_def)
  then have w: "?w = \<lparr>ww_docs = [[EMPTY]], ww_overflow = False\<rparr>"
    using word_slot_EMPTY [of SLOT_ORDINAL_MASK 0 last1]
    by (simp add: add_word_def ww_new_def grid_put_def resize_def)
  have "wm_fits ?w" by (simp add: w wm_fits_def wm_regions_def)
  then have "word_at (wm_view ?w) 0 0 = Some None"
    using word_at_view [of ?w 0 0] by (simp add: w grid_slot_def)
  moreover have "wm_open (ww_serialize ?w) = Some (wm_view ?w)"
    by (rule wm_open_serialize) (simp_all add: w)
  ultimately show ?thesis by (simp add: word_start_at_def)
qed

theorem word_map_loses_word_witness:
  "\<exists>r. wm_open (ww_serialize (add_word ww_new 0 0 20 SLOT_ORDINAL_MASK)) = Some r
     \<and> word_start_at r 0 0 = Some None"
  using word_map_loses_word [of 20] by simp

text \<open>
  C16.  The overflow guard: once one ordinal did not fit its slot, whatever was recorded before
  and after, the writer serialises nothing and the reader refuses to open it, so that callers take
  the posting path instead of reading a map with a hole.
\<close>

theorem word_map_overflow_refused:
  assumes "(d, f, l, ord) \<in> set ws" and "SLOT_ORDINAL_MASK < ord"
  shows "wm_open (ww_serialize (foldl (\<lambda>w (d, f, l, ord). add_word w d f l ord) v ws)) = None"
proof -
  have keep: "ww_overflow (foldl (\<lambda>w (d, f, l, ord). add_word w d f l ord) w xs)" if "ww_overflow w" for w xs
    using that by (induction xs arbitrary: w) (auto simp: add_word_def)
  have "ww_overflow (foldl (\<lambda>w (d, f, l, ord). add_word w d f l ord) v ws)"
    using assms(1)
  proof (induction ws arbitrary: v)
    case (Cons x ws)
    then show ?case using keep assms(2) by (auto simp: add_word_def)
  qed simp
  then show ?thesis by (simp add: ww_serialize_def wm_open_def)
qed

theorem word_map_overflow_refused_witness:
  "wm_open (ww_serialize (add_word (add_word ww_new 0 0 0 0x10000000) 0 1 1 5)) = None"
  using word_map_overflow_refused [where ws = "[(0, 0, 0, 0x10000000), (0, 1, 1, 5)]"
      and d = 0 and f = 0 and l = 0 and ord = "0x10000000" and v = ww_new]
  by (simp add: SLOT_ORDINAL_MASK_def SLOT_ORDINAL_BITS_def)

end
