(* ===== verification/SiblingTable.thy ===== *)
theory SiblingTable
  imports Varint BlockOffsets Gmap "HOL-Library.Product_Lexorder"
begin

text \<open>
  The sibling table, \<open>src/src/suffix_fst/sibling_table.rs\<close>: the links from a token to its
  successors, written as delta-coded varints behind a flat (\<open>SIB2\<close>, with gaps) or block-coded
  (\<open>SIB4\<close>, without) offset table, and the reader of the four shapes.
\<close>

section \<open>Definitions\<close>

definition V2_SENTINEL :: u32 where "V2_SENTINEL = 0xFFFFFFFF"
definition V1_ENTRY_SIZE :: nat where "V1_ENTRY_SIZE = 6"

record SiblingEntry =
  next_ordinal :: u32
  gap_len :: u16

record SiblingTableWriter =
  stw_pairs :: "(u32 \<times> u32 \<times> u16) list"
  stw_num_ordinals :: u32

definition stw_new :: "u32 \<Rightarrow> SiblingTableWriter" where
  "stw_new num_ordinals = \<lparr>stw_pairs = [], stw_num_ordinals = num_ordinals\<rparr>"

definition stw_add :: "SiblingTableWriter \<Rightarrow> u32 \<Rightarrow> u32 \<Rightarrow> u16 \<Rightarrow> SiblingTableWriter" where
  "stw_add w ordinal next_ord gap = w\<lparr>stw_pairs := stw_pairs w @ [(ordinal, next_ord, gap)]\<rparr>"

text \<open>One link, and the \<open>while\<close> loop over the links of one ordinal: the pairs left, the data.\<close>

definition write_link :: "bool \<Rightarrow> bytes \<Rightarrow> u32 \<Rightarrow> u32 \<Rightarrow> u16 \<Rightarrow> bytes" where
  "write_link with_gaps data prev_next next_ord gap =
     (let delta = ucast (next_ord - prev_next) :: u64 in
      if with_gaps then
        (let data = write_varint data (push_bit 1 delta OR (if gap \<noteq> 0 then 1 else 0))
         in if gap \<noteq> 0 then write_varint data (ucast gap) else data)
      else write_varint data delta)"

fun write_links :: "bool \<Rightarrow> u32 \<Rightarrow> u32 \<Rightarrow> (u32 \<times> u32 \<times> u16) list \<Rightarrow> bytes \<Rightarrow> (u32 \<times> u32 \<times> u16) list \<times> bytes" where
  "write_links with_gaps ord prev_next [] data = ([], data)"
| "write_links with_gaps ord prev_next ((a, next_ord, gap) # pairs) data =
     (if a = ord then write_links with_gaps ord next_ord pairs (write_link with_gaps data prev_next next_ord gap)
      else ((a, next_ord, gap) # pairs, data))"

text \<open>The loop over the ordinals: the offsets pushed, the data written.\<close>

fun write_ordinals :: "bool \<Rightarrow> nat list \<Rightarrow> (u32 \<times> u32 \<times> u16) list \<Rightarrow> u32 list \<Rightarrow> bytes \<Rightarrow> u32 list \<times> bytes" where
  "write_ordinals with_gaps [] pairs offsets data = (offsets, data)"
| "write_ordinals with_gaps (ord # ords) pairs offsets data =
     (case write_links with_gaps (u32_of ord) 0 pairs data of
        (pairs', data') \<Rightarrow>
          write_ordinals with_gaps ords pairs' (offsets @ [u32_of (length data)]) data')"

definition stw_serialize :: "SiblingTableWriter \<Rightarrow> bytes exec" where
  "stw_serialize w =
     (let pairs = remdups_adj (sort (stw_pairs w));
          with_gaps = list_ex (\<lambda>(_, _, g). g \<noteq> 0) pairs;
          num = stw_num_ordinals w;
          (offsets, entries_data) = write_ordinals with_gaps [0..<unat num] pairs [] []
      in if length entries_data > 2 ^ 32 - 1 then None
         else
           (let offsets = offsets @ [u32_of (length entries_data)]
            in Some (le32 V2_SENTINEL
                     @ (if with_gaps then bstr ''SIB2'' @ le32 num @ concat (map le32 offsets)
                        else bstr ''SIB4'' @ le32 num @ encode offsets)
                     @ entries_data)))"

record SiblingTableReader =
  st_num_ordinals :: u32
  st_offsets :: OffsetTable
  st_entries_data :: bytes
  st_v2 :: bool
  st_no_gaps :: bool
  st_gmap :: "GmapReader option"

definition st_open :: "bytes \<Rightarrow> SiblingTableReader option" where
  "st_open data =
     (if length data < 4 then None else do {
        first \<leftarrow> read_u32 data 0;
        let v2 = (first = V2_SENTINEL);
        (head, no_gaps, block) \<leftarrow>
          (if v2 then
             if length data < 12 then None
             else do {
               m \<leftarrow> slice data 4 8;
               if m = bstr ''SIB2'' then Some (12, False, False)
               else if m = bstr ''SIB3'' then Some (12, True, False)
               else if m = bstr ''SIB4'' then Some (12, True, True)
               else None }
           else Some (4, False, False));
        num_ordinals \<leftarrow> read_u32 data (head - 4);
        (offsets, entries_data) \<leftarrow>
          (if block then do {
             tail \<leftarrow> slice_from data head;
             (table, used) \<leftarrow> parse tail;
             if bo_num table \<noteq> num_ordinals + 1 then None
             else do {
               rest \<leftarrow> slice_from data (head + used);
               Some (Block table, rest) } }
           else do {
             let offsets_size = (unat num_ordinals + 1) * 4;
             if length data < head + offsets_size then None
             else do {
               table \<leftarrow> slice data head (head + offsets_size);
               rest \<leftarrow> slice_from data (head + offsets_size);
               Some (Flat table, rest) } });
        Some \<lparr>st_num_ordinals = num_ordinals, st_offsets = offsets, st_entries_data = entries_data,
              st_v2 = v2, st_no_gaps = no_gaps, st_gmap = None\<rparr> })"

definition st_with_gmap :: "SiblingTableReader \<Rightarrow> GmapReader \<Rightarrow> SiblingTableReader" where
  "st_with_gmap r g = r\<lparr>st_gmap := Some g\<rparr>"

text \<open>The three decoding loops of \<open>siblings_local\<close>.\<close>

function read_deltas :: "bytes \<Rightarrow> nat \<Rightarrow> u32 \<Rightarrow> SiblingEntry list" where
  "read_deltas data pos next1 =
     (if pos < length data then
        (case read_varint data pos of
           None \<Rightarrow> []
         | Some (delta, pos') \<Rightarrow>
             if delta \<le> 0xFFFFFFFF then
               (let next2 = next1 + ucast delta
                in \<lparr>next_ordinal = next2, gap_len = 0\<rparr> # read_deltas data pos' next2)
             else [])
      else [])"
  by pat_completeness auto
termination
  by (relation "measure (\<lambda>(data, pos, n). length data - pos)") (auto dest!: read_varint_range)

function read_tokens :: "bytes \<Rightarrow> nat \<Rightarrow> u32 \<Rightarrow> SiblingEntry list" where
  "read_tokens data pos next1 =
     (if pos < length data then
        (case read_varint data pos of
           None \<Rightarrow> []
         | Some (token, pos') \<Rightarrow>
             if drop_bit 1 token \<le> 0xFFFFFFFF then
               (let next2 = next1 + ucast (drop_bit 1 token) in
                if token AND 1 = 1 then
                  (case read_varint data pos' of
                     None \<Rightarrow> []
                   | Some (g, pos'') \<Rightarrow>
                       if g \<le> 0xFFFF
                       then \<lparr>next_ordinal = next2, gap_len = ucast g\<rparr> # read_tokens data pos'' next2
                       else [])
                else \<lparr>next_ordinal = next2, gap_len = 0\<rparr> # read_tokens data pos' next2)
             else [])
      else [])"
  by pat_completeness auto
termination
  by (relation "measure (\<lambda>(data, pos, n). length data - pos)") (auto dest!: read_varint_range)

function read_v1 :: "bytes \<Rightarrow> nat \<Rightarrow> SiblingEntry list exec" where
  "read_v1 data pos =
     (if pos + V1_ENTRY_SIZE \<le> length data then do {
        n \<leftarrow> read_u32 data pos;
        g \<leftarrow> read_u16 data (pos + 4);
        rest \<leftarrow> read_v1 data (pos + V1_ENTRY_SIZE);
        Some (\<lparr>next_ordinal = n, gap_len = g\<rparr> # rest) }
      else Some [])"
  by pat_completeness auto
termination
  by (relation "measure (\<lambda>(data, pos). length data - pos)") (auto simp: V1_ENTRY_SIZE_def)

declare read_deltas.simps [simp del] read_tokens.simps [simp del] read_v1.simps [simp del]

definition siblings_local :: "SiblingTableReader \<Rightarrow> u32 \<Rightarrow> SiblingEntry list exec" where
  "siblings_local r ordinal =
     (if st_num_ordinals r \<le> ordinal then Some [] else do {
        start \<leftarrow> map_option unat (ot_get (st_offsets r) ordinal);
        end1 \<leftarrow> map_option unat (ot_get (st_offsets r) (ordinal + 1));
        if end1 \<le> start \<or> length (st_entries_data r) \<le> start then Some [] else do {
          bs \<leftarrow> slice (st_entries_data r) start (min end1 (length (st_entries_data r)));
          if st_no_gaps r then Some (read_deltas bs 0 0)
          else if st_v2 r then Some (read_tokens bs 0 0)
          else read_v1 bs 0 } })"

primrec map_global :: "GmapReader \<Rightarrow> SiblingEntry list \<Rightarrow> SiblingEntry list exec" where
  "map_global g [] = Some []"
| "map_global g (e # es) = do {
     n \<leftarrow> gm_global g (next_ordinal e);
     rest \<leftarrow> map_global g es;
     Some (e\<lparr>next_ordinal := n\<rparr> # rest) }"

definition siblings :: "SiblingTableReader \<Rightarrow> u32 \<Rightarrow> SiblingEntry list exec" where
  "siblings r ordinal = do {
     local \<leftarrow> (case st_gmap r of Some g \<Rightarrow> gm_local g ordinal | None \<Rightarrow> Some (Some ordinal));
     case local of
       None \<Rightarrow> Some []
     | Some l \<Rightarrow> do {
         out \<leftarrow> siblings_local r l;
         case st_gmap r of Some g \<Rightarrow> map_global g out | None \<Rightarrow> Some out } }"

definition contiguous_siblings :: "SiblingTableReader \<Rightarrow> u32 \<Rightarrow> u32 list exec" where
  "contiguous_siblings r ordinal =
     map_option (\<lambda>es. map next_ordinal (filter (\<lambda>s. gap_len s = 0) es)) (siblings r ordinal)"

section \<open>What the writer produces\<close>

definition link_bytes :: "bool \<Rightarrow> u32 \<Rightarrow> u32 \<Rightarrow> u16 \<Rightarrow> bytes" where
  "link_bytes wg prev n g =
     (if wg then varint_bytes (push_bit 1 (ucast (n - prev)) OR (if g \<noteq> 0 then 1 else 0))
                 @ (if g \<noteq> 0 then varint_bytes (ucast g) else [])
      else varint32 (n - prev))"

fun chain_bytes :: "bool \<Rightarrow> u32 \<Rightarrow> (u32 \<times> u16) list \<Rightarrow> bytes" where
  "chain_bytes wg prev [] = []"
| "chain_bytes wg prev ((n, g) # es) = link_bytes wg prev n g @ chain_bytes wg n es"

definition links_of :: "(u32 \<times> u32 \<times> u16) list \<Rightarrow> nat \<Rightarrow> (u32 \<times> u16) list" where
  "links_of pairs i = map snd (filter (\<lambda>p. fst p = u32_of i) pairs)"

definition link_regions :: "bool \<Rightarrow> (u32 \<times> u32 \<times> u16) list \<Rightarrow> nat \<Rightarrow> nat \<Rightarrow> bytes list" where
  "link_regions wg pairs k n = map (\<lambda>i. chain_bytes wg 0 (links_of pairs i)) [k..<n]"

lemma write_link_append: "write_link wg data prev n g = data @ link_bytes wg prev n g"
  by (simp add: write_link_def link_bytes_def Let_def write_varint_append)

lemma link_bytes_nonempty [simp]: "link_bytes wg prev n g \<noteq> []"
  by (simp add: link_bytes_def)

lemma write_links_eq:
  "write_links wg ord prev pairs data =
     (dropWhile (\<lambda>p. fst p = ord) pairs,
      data @ chain_bytes wg prev (map snd (takeWhile (\<lambda>p. fst p = ord) pairs)))"
  by (induction wg ord prev pairs data rule: write_links.induct)
    (auto simp: write_link_append)

lemma sorted_run:
  assumes "sorted (map fst pairs)" and "\<forall>p \<in> set pairs. (a :: u32) \<le> fst p"
  shows "takeWhile (\<lambda>p. fst p = a) pairs = filter (\<lambda>p. fst p = a) pairs"
    and "dropWhile (\<lambda>p. fst p = a) pairs = filter (\<lambda>p. fst p \<noteq> a) pairs"
  using assms
proof (induction pairs)
  case (Cons p ps)
  { case 1
    have "filter (\<lambda>p. fst p = a) ps = []" if "fst p \<noteq> a"
      using 1 that by (auto simp: filter_empty_conv)
    then show ?case using Cons.IH(1) 1 by (cases "fst p = a") auto
  next
    case 2
    have "filter (\<lambda>p. fst p \<noteq> a) ps = ps" if "fst p \<noteq> a"
      using 2 that by (auto simp: filter_id_conv)
    then show ?case using Cons.IH(2) 2 by (cases "fst p = a") auto }
qed auto

lemma write_ordinals_eq:
  assumes "sorted (map fst pairs)" and "\<forall>p \<in> set pairs. k \<le> unat (fst p)" and "k \<le> n" and "n < 2 ^ 32"
  shows "write_ordinals wg [k..<n] pairs offs data =
    (offs @ map u32_of (butlast (starts (length data) (link_regions wg pairs k n))),
     data @ concat (link_regions wg pairs k n))"
  using assms
proof (induction "n - k" arbitrary: k pairs offs data)
  case 0
  then show ?case by (simp add: link_regions_def)
next
  case (Suc m)
  have k: "k < n" using Suc.hyps(2) by simp
  then have u: "unat (u32_of k) = k" using Suc.prems(4) by simp
  then have low: "\<forall>p \<in> set pairs. u32_of k \<le> fst p"
    using Suc.prems(2) by (simp add: word_le_nat_alt)
  let ?rest = "filter (\<lambda>p. fst p \<noteq> u32_of k) pairs"
  have ge: "\<forall>p \<in> set ?rest. Suc k \<le> unat (fst p)"
  proof
    fix p assume p: "p \<in> set ?rest"
    then have "unat (fst p) \<noteq> k" using u by (auto simp: word_unat_eq_iff)
    then show "Suc k \<le> unat (fst p)" using p Suc.prems(2) by (simp add: nat_less_le Suc_le_eq)
  qed
  have same: "link_regions wg ?rest (Suc k) n = link_regions wg pairs (Suc k) n"
  proof -
    have "links_of ?rest i = links_of pairs i" if "Suc k \<le> i" "i < n" for i
      using that Suc.prems(4) u32_of_eq_iff [of i k] unfolding links_of_def
      by (auto intro!: arg_cong [where f = "map snd"] filter_cong)
    then show ?thesis by (simp add: link_regions_def)
  qed
  have R: "link_regions wg pairs k n = chain_bytes wg 0 (links_of pairs k) # link_regions wg pairs (Suc k) n"
    using k by (simp add: link_regions_def upt_conv_Cons)
  have "write_ordinals wg [k..<n] pairs offs data =
      write_ordinals wg [Suc k..<n] ?rest (offs @ [u32_of (length data)]) (data @ chain_bytes wg 0 (links_of pairs k))"
    using k sorted_run [OF Suc.prems(1) low] by (simp add: upt_conv_Cons write_links_eq links_of_def)
  also have "... = (offs @ u32_of (length data) #
        map u32_of (butlast (starts (length data + length (chain_bytes wg 0 (links_of pairs k))) (link_regions wg pairs (Suc k) n))),
      data @ concat (link_regions wg pairs k n))"
    using Suc.hyps(1) [of "Suc k" ?rest] Suc.hyps(2) Suc.prems ge k same R
    by (simp add: sorted_filter)
  finally show ?case using R by (simp add: neq_Nil_conv flip: length_0_conv)
qed

section \<open>Reading the links of an ordinal\<close>

abbreviation entries :: "(u32 \<times> u16) list \<Rightarrow> SiblingEntry list" where
  "entries es \<equiv> map (\<lambda>(n, g). \<lparr>next_ordinal = n, gap_len = g\<rparr>) es"

lemma ucast_u32_le: "(ucast (w :: u32) :: u64) \<le> 0xFFFFFFFF"
  using unat_u32_bound [of w] by (simp add: word_le_nat_alt)

lemma ucast_u16_le: "(ucast (w :: u16) :: u64) \<le> 0xFFFF"
proof -
  have "unat w < 2 ^ 16" using unsigned_less [of w, where ?'a = nat] by simp
  then show ?thesis by (simp add: word_le_nat_alt unsigned_ucast_eq take_bit_nat_eq_self)
qed

lemma read_deltas_chain:
  assumes "drop pos data = chain_bytes False prev es" and "\<forall>(n, g) \<in> set es. g = 0"
  shows "read_deltas data pos prev = entries es"
  using assms
proof (induction es arbitrary: pos prev)
  case Nil
  then show ?case by (simp add: read_deltas.simps)
next
  case (Cons e es)
  obtain n where e: "e = (n, 0)" using Cons.prems(2) by (cases e) auto
  have d: "drop pos data = varint32 (n - prev) @ chain_bytes False n es"
    using Cons.prems(1) by (simp add: e link_bytes_def)
  note at = varint.dec_at [OF TrueI d]
  have "read_deltas data pos prev = \<lparr>next_ordinal = n, gap_len = 0\<rparr>
      # read_deltas data (pos + length (varint32 (n - prev))) n"
    using at ucast_u32_le [of "n - prev"] by (subst read_deltas.simps) simp
  then show ?case using Cons.IH [OF at(2)] Cons.prems(2) e by simp
qed

lemma low_bit_fields:
  assumes "0 < k" and "k \<le> 32"
  shows "drop_bit k (push_bit k (ucast (d :: u32)) OR (if b then 1 else 0) :: u64) = ucast d"
    and "(push_bit k (ucast d) OR (if b then 1 else 0) :: u64) AND 1 = (if b then 1 else 0)"
  using assms by (auto intro!: bit_word_eqI simp: bit_simps bit_1_iff)
    (drule bit_imp_le_length, simp)

lemmas token_fields = low_bit_fields [of 1, OF zero_less_one one_le_numeral]

lemma read_tokens_chain:
  assumes "drop pos data = chain_bytes True prev es"
  shows "read_tokens data pos prev = entries es"
  using assms
proof (induction es arbitrary: pos prev)
  case Nil
  then show ?case by (simp add: read_tokens.simps)
next
  case (Cons e es)
  obtain n g where e: "e = (n, g)" by (cases e)
  define tok where "tok = (push_bit 1 (ucast (n - prev)) OR (if g \<noteq> 0 then 1 else 0) :: u64)"
  have tok: "drop_bit 1 tok = ucast (n - prev)" "tok AND 1 = (if g \<noteq> 0 then 1 else 0)"
    unfolding tok_def by (rule token_fields)+
  define tail where "tail = (if g \<noteq> 0 then varint_bytes (ucast g) else []) @ chain_bytes True n es"
  have d: "drop pos data = varint_bytes tok @ tail"
    using Cons.prems by (auto simp: e link_bytes_def tok_def tail_def)
  note at = varint.dec_at [OF TrueI d]
  show ?case
  proof (cases "g = 0")
    case True
    have "read_tokens data pos prev = \<lparr>next_ordinal = n, gap_len = 0\<rparr>
        # read_tokens data (pos + length (varint_bytes tok)) n"
      using at tok ucast_u32_le [of "n - prev"] True by (subst read_tokens.simps) simp
    then show ?thesis using Cons.IH [of "pos + length (varint_bytes tok)" n] at(2) True e
      by (simp add: tail_def)
  next
    case False
    then have d2: "drop (pos + length (varint_bytes tok)) data = varint_bytes (ucast g) @ chain_bytes True n es"
      using at(2) by (simp add: tail_def)
    note at2 = varint.dec_at [OF TrueI d2]
    have "read_tokens data pos prev = \<lparr>next_ordinal = n, gap_len = g\<rparr>
        # read_tokens data (pos + length (varint_bytes tok) + length (varint_bytes (ucast g))) n"
      using at(1,3) at2(1) tok ucast_u32_le [of "n - prev"] ucast_u16_le [of g] False
      by (subst read_tokens.simps) simp
    then show ?thesis using Cons.IH [OF at2(2)] e by simp
  qed
qed

section \<open>Opening the table\<close>

definition stored_pairs :: "SiblingTableWriter \<Rightarrow> (u32 \<times> u32 \<times> u16) list" where
  "stored_pairs w = remdups_adj (sort (stw_pairs w))"

definition has_gaps :: "SiblingTableWriter \<Rightarrow> bool" where
  "has_gaps w = list_ex (\<lambda>(_, _, g). g \<noteq> 0) (stored_pairs w)"

definition st_regions :: "SiblingTableWriter \<Rightarrow> bytes list" where
  "st_regions w = link_regions (has_gaps w) (stored_pairs w) 0 (unat (stw_num_ordinals w))"

definition st_table :: "SiblingTableWriter \<Rightarrow> OffsetTable" where
  "st_table w =
     (if has_gaps w then Flat (concat (map le32 (region_offsets (st_regions w))))
      else Block (view_of (region_offsets (st_regions w))))"

definition st_view :: "SiblingTableWriter \<Rightarrow> SiblingTableReader" where
  "st_view w = \<lparr>st_num_ordinals = stw_num_ordinals w, st_offsets = st_table w,
     st_entries_data = concat (st_regions w), st_v2 = True, st_no_gaps = (\<not> has_gaps w), st_gmap = None\<rparr>"

lemma stored_pairs_sorted: "sorted (stored_pairs w)" "set (stored_pairs w) = set (stw_pairs w)"
  by (simp_all add: stored_pairs_def)

lemma stored_pairs_fst: "sorted (map fst (stored_pairs w))"
proof (rule sorted_map_mono [OF stored_pairs_sorted(1)])
  show "mono_on (set (stored_pairs w)) fst"
    by (auto simp: mono_on_def less_eq_prod_def dest: order.strict_implies_order)
qed

lemma length_st_regions [simp]: "length (st_regions w) = unat (stw_num_ordinals w)"
  by (simp add: st_regions_def link_regions_def)

lemma serialize_regions:
  "write_ordinals (has_gaps w) [0..<unat (stw_num_ordinals w)] (stored_pairs w) [] [] =
     (map u32_of (butlast (starts 0 (st_regions w))), concat (st_regions w))"
  using write_ordinals_eq [of "stored_pairs w" 0 "unat (stw_num_ordinals w)" "has_gaps w" "[]" "[]"]
    stored_pairs_fst unat_u32_bound by (simp add: st_regions_def)

lemma stw_serialize_eq:
  "stw_serialize w =
     (if length (concat (st_regions w)) \<ge> 2 ^ 32 then None
      else Some (le32 V2_SENTINEL @ bstr (if has_gaps w then ''SIB2'' else ''SIB4'') @ le32 (stw_num_ordinals w)
             @ (if has_gaps w then concat (map le32 (region_offsets (st_regions w)))
                else encode (region_offsets (st_regions w)))
             @ concat (st_regions w)))"
proof -
  have "map u32_of (butlast (starts 0 (st_regions w))) @ [u32_of (length (concat (st_regions w)))]
      = region_offsets (st_regions w)"
    using starts_butlast [of 0 "st_regions w"] unfolding region_offsets_def
    by (metis add_0 list.simps(8) list.simps(9) map_append)
  then show ?thesis
    unfolding stw_serialize_def stored_pairs_def [symmetric] has_gaps_def [symmetric] Let_def serialize_regions
    by (auto simp del: concat_eq_Nil_conv)
qed

lemma slice_from_skip:
  "length ys \<le> a \<Longrightarrow> slice_from (ys @ xs) a = slice_from xs (a - length ys)"
  by (auto simp: slice_from_def slice_def)

lemma st_open_serialize:
  assumes "stw_serialize w = Some buf" and "unat (stw_num_ordinals w) < 2 ^ 29"
  shows "st_open buf = Some (st_view w)"
proof -
  let ?R = "st_regions w" and ?n = "stw_num_ordinals w"
  let ?m = "bstr (if has_gaps w then ''SIB2'' else ''SIB4'')"
  define table where "table = (if has_gaps w then concat (map le32 (region_offsets ?R)) else encode (region_offsets ?R))"
  have buf: "buf = le32 V2_SENTINEL @ ?m @ le32 ?n @ table @ concat ?R"
    using assms(1) by (simp add: stw_serialize_eq table_def split: if_splits)
  have len: "length (region_offsets ?R) = unat ?n + 1" by (simp add: region_offsets_def)
  have m: "length ?m = 4" by simp
  have r: "read_u32 buf 0 = Some V2_SENTINEL" "slice buf 4 8 = Some ?m" "read_u32 buf 8 = Some ?n"
    by (simp_all add: buf m exec_simps)
  have ge: "12 \<le> length buf" by (simp add: buf m)
  show ?thesis
  proof (cases "has_gaps w")
    case True
    have t: "length table = (unat ?n + 1) * 4"
      using True len by (simp add: table_def length_concat_fixed [where w = 4])
    have "slice buf 12 (12 + (unat ?n + 1) * 4) = Some table"
      "slice_from buf (12 + (unat ?n + 1) * 4) = Some (concat ?R)"
      by (simp_all add: buf m t exec_simps slice_from_skip) (simp add: slice_from_def slice_def)
    moreover have "length buf = 12 + (unat ?n + 1) * 4 + length (concat ?R)" by (simp add: buf m t)
    ultimately show ?thesis
      using r ge True by (simp add: st_open_def st_view_def st_table_def table_def)
  next
    case False
    have t: "table = encode (region_offsets ?R)" using False by (simp add: table_def)
    have p: "parse (table @ concat ?R) = Some (view_of (region_offsets ?R), length table)"
      unfolding t using assms(2) len by (intro parse_encode) simp
    have "slice_from buf 12 = Some (table @ concat ?R)"
      "slice_from buf (12 + length table) = Some (concat ?R)"
      by (simp_all add: buf m slice_from_skip) (simp_all add: slice_from_def slice_def)
    moreover have "bo_num (view_of (region_offsets ?R)) = ?n + 1" by (simp add: view_of_def len)
    moreover have "bstr ''SIB4'' \<noteq> bstr ''SIB2''" "bstr ''SIB4'' \<noteq> bstr ''SIB3''" by (simp_all add: bstr_def)
    ultimately show ?thesis
      using r ge False p by (simp add: st_open_def st_view_def st_table_def)
  qed
qed

lemma st_get_offset:
  assumes "length (concat (st_regions w)) < 2 ^ 32" and "unat (stw_num_ordinals w) < 2 ^ 29"
    and "i \<le> unat (stw_num_ordinals w)"
  shows "map_option unat (ot_get (st_table w) (u32_of i)) = Some (starts 0 (st_regions w) ! i)"
proof (cases "has_gaps w")
  case True
  then show ?thesis
    using flat.get_offset [of "st_regions w" i] assms by (simp add: st_table_def region_offsets_def)
next
  case False
  have "block_ok (region_offsets (st_regions w))"
    using sorted_region_offsets [OF assms(1)] assms(2) by (simp add: block_ok_def region_offsets_def)
  then show ?thesis
    using False block.get_offset [of "st_regions w" i] assms by (simp add: st_table_def)
qed

lemma no_gaps_links:
  "\<not> has_gaps w \<Longrightarrow> \<forall>(n, g) \<in> set (links_of (stored_pairs w) i). g = 0"
  by (auto simp: has_gaps_def links_of_def list_ex_iff)

lemma chain_empty: "chain_bytes wg prev es = [] \<longleftrightarrow> es = []"
  by (cases es) auto

lemma siblings_view:
  assumes "length (concat (st_regions w)) < 2 ^ 32" and "unat (stw_num_ordinals w) < 2 ^ 29"
    and "i < unat (stw_num_ordinals w)"
  shows "siblings (st_view w) (u32_of i) = Some (entries (links_of (stored_pairs w) i))"
proof -
  let ?R = "st_regions w" and ?es = "links_of (stored_pairs w) i"
  have Ri: "?R ! i = chain_bytes (has_gaps w) 0 ?es"
    using assms(3) by (simp add: st_regions_def link_regions_def)
  have i: "i < length ?R" using assms(3) by simp
  have n: "\<not> stw_num_ordinals w \<le> u32_of i"
    using assms(2,3) by (simp add: word_le_nat_alt)
  obtain a b where o1: "ot_get (st_table w) (u32_of i) = Some a" "unat a = starts 0 ?R ! i"
    "ot_get (st_table w) (u32_of i + 1) = Some b" "unat b = starts 0 ?R ! Suc i"
    using st_get_offset [OF assms(1,2), of i] st_get_offset [OF assms(1,2), of "Suc i"] assms(3)
    by (auto simp: add.commute)
  have ends: "starts 0 ?R ! Suc i = starts 0 ?R ! i + length (?R ! i)" "starts 0 ?R ! Suc i \<le> length (concat ?R)"
    using starts_Suc [OF i, of 0] starts_le_total [of "Suc i" ?R 0] i by simp_all
  have local: "siblings_local (st_view w) (u32_of i) = Some (entries ?es)"
  proof (cases "?es = []")
    case True
    then have "?R ! i = []" using Ri by simp
    then show ?thesis using n o1 ends True by (simp add: siblings_local_def st_view_def)
  next
    case False
    then have "0 < length (?R ! i)" using Ri chain_empty by simp
    with ends have "\<not> (starts 0 ?R ! Suc i \<le> starts 0 ?R ! i \<or> length (concat ?R) \<le> starts 0 ?R ! i)"
      by linarith
    moreover have "slice (concat ?R) (starts 0 ?R ! i) (min (starts 0 ?R ! Suc i) (length (concat ?R))) = Some (?R ! i)"
      using slice_concat_region [OF i, of "[]"] ends(2) by (simp add: min_absorb1)
    moreover have "read_deltas (?R ! i) 0 0 = entries ?es" if "\<not> has_gaps w"
      using that Ri no_gaps_links [OF that] by (intro read_deltas_chain) simp_all
    moreover have "read_tokens (?R ! i) 0 0 = entries ?es" if "has_gaps w"
      using that Ri by (intro read_tokens_chain) simp
    ultimately show ?thesis
      using n o1 by (cases "has_gaps w") (simp_all add: siblings_local_def st_view_def del: concat_eq_Nil_conv)
  qed
  then show ?thesis by (simp add: siblings_def st_view_def)
qed

lemma links_sorted_list:
  assumes "i < 2 ^ 32"
  shows "links_of (stored_pairs w) i = sorted_list_of_set {(n, g). (u32_of i, n, g) \<in> set (stw_pairs w)}"
proof -
  let ?S = "filter (\<lambda>p. fst p = u32_of i) (stored_pairs w)"
  have d: "distinct (stored_pairs w)"
    unfolding stored_pairs_def by (rule distinct_remdups_adj_sorted) simp
  have "distinct (links_of (stored_pairs w) i)"
    unfolding links_of_def distinct_map using d by (auto simp: inj_on_def)
  moreover have "sorted (links_of (stored_pairs w) i)"
  proof -
    have "sorted ?S" by (rule sorted_filter [where f = "\<lambda>x. x", simplified]) (simp add: stored_pairs_sorted)
    moreover have "mono_on (set ?S) snd" by (auto simp: mono_on_def less_eq_prod_def)
    ultimately show ?thesis unfolding links_of_def by (rule sorted_map_mono)
  qed
  moreover have "set (links_of (stored_pairs w) i) = {(n, g). (u32_of i, n, g) \<in> set (stw_pairs w)}"
    by (force simp: links_of_def stored_pairs_sorted)
  ultimately show ?thesis by (metis sorted_list_of_set.idem_if_sorted_distinct)
qed

section \<open>Properties\<close>

text \<open>
  C17.  The sibling table is the relation it was built from: whatever pairs were added, in
  whatever order and with duplicates, the serialised table opens (in the layout with or without
  gaps) and the siblings of every ordinal are exactly the links added for it, sorted and without
  duplicates.
\<close>

theorem sibling_table_roundtrip:
  assumes "stw_serialize w = Some buf" and "unat (stw_num_ordinals w) < 2 ^ 29"
  shows "\<exists>r. st_open buf = Some r \<and>
    (\<forall>i < unat (stw_num_ordinals w).
       siblings r (u32_of i) = Some (map (\<lambda>(n, g). \<lparr>next_ordinal = n, gap_len = g\<rparr>)
         (sorted_list_of_set {(n, g). (u32_of i, n, g) \<in> set (stw_pairs w)})))"
proof -
  have "length (concat (st_regions w)) < 2 ^ 32"
    using assms(1) by (simp add: stw_serialize_eq split: if_splits)
  moreover have "i < 2 ^ 32" if "i < unat (stw_num_ordinals w)" for i using that assms(2) by simp
  ultimately show ?thesis
    using st_open_serialize [OF assms] siblings_view [OF _ assms(2)] links_sorted_list by simp
qed

theorem sibling_table_roundtrip_witness:
  "\<exists>buf r. stw_serialize (stw_add (stw_add (stw_add (stw_new 3) 1 2 0) 1 0 4) 1 2 0) = Some buf
     \<and> st_open buf = Some r
     \<and> siblings r 1 = Some [\<lparr>next_ordinal = 0, gap_len = 4\<rparr>, \<lparr>next_ordinal = 2, gap_len = 0\<rparr>]"
proof -
  let ?w = "stw_add (stw_add (stw_add (stw_new 3) 1 2 0) 1 0 4) 1 2 0"
  obtain buf where buf: "stw_serialize ?w = Some buf"
  proof -
    have "stw_serialize ?w \<noteq> None"
      by (simp add: stw_serialize_def stw_add_def stw_new_def less_eq_prod_def write_link_def
          write_varint.simps upt_conv_Cons)
    then show thesis using that by auto
  qed
  obtain r where r: "st_open buf = Some r"
    "\<forall>i < 3. siblings r (u32_of i) = Some (map (\<lambda>(n, g). \<lparr>next_ordinal = n, gap_len = g\<rparr>)
       (sorted_list_of_set {(n, g). (u32_of i, n, g) \<in> set (stw_pairs ?w)}))"
    using sibling_table_roundtrip [OF buf] by (auto simp: stw_add_def stw_new_def)
  have "{(n, g). (1, n, g) \<in> set (stw_pairs ?w)} = set [(0, 4), (2, 0)]"
    by (auto simp: stw_add_def stw_new_def)
  then have "sorted_list_of_set {(n, g). (1, n, g) \<in> set (stw_pairs ?w)} = [(0, 4), (2, 0)]"
    by (simp only: sorted_list_of_set_sort_remdups) (simp add: less_eq_prod_def)
  then have "siblings r 1 = Some [\<lparr>next_ordinal = 0, gap_len = 4\<rparr>, \<lparr>next_ordinal = 2, gap_len = 0\<rparr>]"
    using r(2) [rule_format, of 1] by simp
  with buf r(1) show ?thesis by blast
qed

end
