(* ===== verification/EditDistance.thy ===== *)
theory EditDistance
  imports Prelude
begin

text \<open>
  The specification behind \<open>src/src/suffix_fst/briques/fuzzy_spans.rs\<close>: edit scripts between two
  byte strings, the recurrence of the semi-global distance, and what the later theories use of
  it: the recurrence is the least cost over all substrings ending at an offset, neighbouring
  cells differ by at most one, and a cell depends on a bounded stretch of the text only.
\<close>

section \<open>Edit scripts\<close>

text \<open>\<open>edits xs ys k\<close>: \<open>k\<close> edits (substitution, deletion, insertion) turn \<open>xs\<close> into \<open>ys\<close>.\<close>

inductive edits :: "'a list \<Rightarrow> 'a list \<Rightarrow> nat \<Rightarrow> bool" where
  edits_empty: "edits [] [] 0"
| edits_match: "edits xs ys k \<Longrightarrow> edits (xs @ [a]) (ys @ [a]) k"
| edits_subst: "edits xs ys k \<Longrightarrow> edits (xs @ [a]) (ys @ [b]) (Suc k)"
| edits_drop: "edits xs ys k \<Longrightarrow> edits (xs @ [a]) ys (Suc k)"
| edits_skip: "edits xs ys k \<Longrightarrow> edits xs (ys @ [b]) (Suc k)"

lemma edits_length: "edits xs ys k \<Longrightarrow> length ys \<le> length xs + k"
  by (induction rule: edits.induct) auto

lemma edits_drop_all: "edits xs [] (length xs)"
proof (induction xs rule: rev_induct)
  case (snoc x xs)
  then show ?case using edits_drop by force
qed (simp add: edits_empty)

text \<open>\<open>&hay[s..j]\<close> for \<open>s <= j <= hay.len()\<close>.\<close>

definition substring :: "'a list \<Rightarrow> nat \<Rightarrow> nat \<Rightarrow> 'a list" where
  "substring hay s j = drop s (take j hay)"

lemma substring_Suc: "s \<le> j \<Longrightarrow> j < length hay \<Longrightarrow> substring hay s (Suc j) = substring hay s j @ [hay ! j]"
  by (simp add: substring_def take_Suc_conv_app_nth)

lemma substring_empty [simp]: "j \<le> s \<Longrightarrow> substring hay s j = []"
  by (simp add: substring_def)

lemma length_substring: "j \<le> length hay \<Longrightarrow> length (substring hay s j) = j - s"
  by (simp add: substring_def)

lemma substring_snocD:
  assumes "substring hay s j = ys @ [b]" and "j \<le> length hay"
  shows "0 < j" and "s < j" and "ys = substring hay s (j - 1)" and "b = hay ! (j - 1)"
proof -
  have "length (substring hay s j) > 0" using assms(1) by simp
  then show s: "s < j" and j: "0 < j" using assms(2) by (simp_all add: length_substring)
  have "substring hay s (Suc (j - 1)) = substring hay s (j - 1) @ [hay ! (j - 1)]"
    using s assms(2) by (intro substring_Suc) auto
  then show "ys = substring hay s (j - 1)" and "b = hay ! (j - 1)" using assms(1) j by simp_all
qed

section \<open>The recurrence\<close>

text \<open>The cell of row \<open>i\<close> (needle prefix) and column \<open>j\<close> (text prefix), over a match predicate.\<close>

fun dist :: "(nat \<Rightarrow> nat \<Rightarrow> bool) \<Rightarrow> nat \<Rightarrow> nat \<Rightarrow> nat" where
  "dist eq 0 j = 0"
| "dist eq (Suc i) 0 = Suc i"
| "dist eq (Suc i) (Suc j) =
     min (min (dist eq i (Suc j) + 1) (dist eq (Suc i) j + 1)) (dist eq i j + (if eq i j then 0 else 1))"

definition D :: "'a list \<Rightarrow> 'a list \<Rightarrow> nat \<Rightarrow> nat \<Rightarrow> nat" where
  "D needle hay = dist (\<lambda>i j. needle ! i = hay ! j)"

lemma D_simps [simp]:
  "D needle hay 0 j = 0" "D needle hay (Suc i) 0 = Suc i"
  "D needle hay (Suc i) (Suc j) =
     min (min (D needle hay i (Suc j) + 1) (D needle hay (Suc i) j + 1))
         (D needle hay i j + (if needle ! i = hay ! j then 0 else 1))"
  by (simp_all add: D_def)

lemma dist_cong:
  "(\<And>a b. a < i \<Longrightarrow> b < j \<Longrightarrow> e1 a b = e2 a b) \<Longrightarrow> dist e1 i j = dist e2 i j"
proof (induction e1 i j rule: dist.induct)
  case (3 eq i j)
  have "dist eq i (Suc j) = dist e2 i (Suc j)" "dist eq (Suc i) j = dist e2 (Suc i) j" "dist eq i j = dist e2 i j"
    using 3 by auto
  then show ?case using "3.prems" [of i j] by simp
qed auto

lemma dist_le_row: "dist eq i j \<le> i"
proof (induction eq i j rule: dist.induct)
  case (3 eq i j)
  then show ?case by (simp add: min_def)
qed auto

lemma dist_column: "dist eq i 0 = i"
  by (cases i) auto

text \<open>Neighbouring cells differ by at most one; a diagonal step never decreases.\<close>

lemma dist_steps:
  "dist eq i (Suc j) \<le> dist eq i j + 1 \<and> dist eq i j \<le> dist eq i (Suc j) + 1
   \<and> dist eq (Suc i) j \<le> dist eq i j + 1 \<and> dist eq i j \<le> dist eq (Suc i) j + 1
   \<and> dist eq i j \<le> dist eq (Suc i) (Suc j) \<and> dist eq (Suc i) (Suc j) \<le> dist eq i j + 1"
proof (induction "i + j" arbitrary: i j rule: less_induct)
  case less
  have h: "dist eq i (Suc j) \<le> dist eq i j + 1 \<and> dist eq i j \<le> dist eq i (Suc j) + 1"
  proof (cases i)
    case (Suc k)
    then show ?thesis using less [of k j] by (auto simp: min_def split: if_splits)
  qed simp
  have v: "dist eq (Suc i) j \<le> dist eq i j + 1 \<and> dist eq i j \<le> dist eq (Suc i) j + 1"
  proof (cases j)
    case 0
    then show ?thesis by (simp add: dist_column)
  next
    case (Suc k)
    then show ?thesis using less [of i k] by (auto simp: min_def split: if_splits)
  qed
  show ?case using h v by (auto simp: min_def)
qed

section \<open>The recurrence is the least cost of a substring\<close>

lemma D_attained:
  assumes "i \<le> length needle" and "j \<le> length hay"
  shows "\<exists>s \<le> j. edits (take i needle) (substring hay s j) (D needle hay i j)"
  using assms
proof (induction "\<lambda>i j. needle ! i = hay ! j" i j rule: dist.induct)
  case (1 j)
  then show ?case by (auto intro!: exI [of _ j] edits_empty)
next
  case (2 i)
  then show ?case using edits_drop_all [of "take (Suc i) needle"] by simp
next
  case (3 i j)
  have take: "take (Suc i) needle = take i needle @ [needle ! i]"
    using "3.prems" by (simp add: take_Suc_conv_app_nth)
  have sub: "substring hay s (Suc j) = substring hay s j @ [hay ! j]" if "s \<le> j" for s
    using that "3.prems" by (simp add: substring_Suc)
  consider "D needle hay (Suc i) (Suc j) = D needle hay i (Suc j) + 1"
    | "D needle hay (Suc i) (Suc j) = D needle hay (Suc i) j + 1"
    | "D needle hay (Suc i) (Suc j) = D needle hay i j + (if needle ! i = hay ! j then 0 else 1)"
    by (simp add: min_def) metis
  then show ?case
  proof cases
    case 1
    then show ?thesis using "3.hyps"(1) "3.prems" take edits_drop by fastforce
  next
    case 2
    then obtain s where "s \<le> j" "edits (take (Suc i) needle) (substring hay s j) (D needle hay (Suc i) j)"
      using "3.hyps"(2) "3.prems" by auto
    then show ?thesis using 2 sub edits_skip by (intro exI [of _ s]) fastforce
  next
    case 3
    then obtain s where "s \<le> j" "edits (take i needle) (substring hay s j) (D needle hay i j)"
      using "3.hyps"(3) "3.prems" by auto
    then show ?thesis using 3 sub take edits_match edits_subst by (intro exI [of _ s]) fastforce
  qed
qed

lemma take_snocD:
  assumes "take i needle = xs @ [a]" and "i \<le> length needle"
  shows "0 < i" and "xs = take (i - 1) needle" and "a = needle ! (i - 1)"
proof -
  show i: "0 < i" using assms(1) by (cases i) auto
  then have "take (Suc (i - 1)) needle = take (i - 1) needle @ [needle ! (i - 1)]"
    using assms(2) by (intro take_Suc_conv_app_nth) auto
  then show "xs = take (i - 1) needle" and "a = needle ! (i - 1)" using assms(1) i by simp_all
qed

lemma D_up: "D needle hay (Suc i) j \<le> D needle hay i j + 1"
  and D_left: "D needle hay i (Suc j) \<le> D needle hay i j + 1"
  and D_diag: "D needle hay (Suc i) (Suc j) \<le> D needle hay i j + 1"
  using dist_steps [of "\<lambda>i j. needle ! i = hay ! j" i j] by (simp_all only: D_def)

lemma D_match: "needle ! i = hay ! j \<Longrightarrow> D needle hay (Suc i) (Suc j) \<le> D needle hay i j"
  by simp

lemma D_minimal:
  assumes "edits xs ys k" and "xs = take i needle" and "i \<le> length needle"
    and "ys = substring hay s j" and "j \<le> length hay"
  shows "D needle hay i j \<le> k"
  using assms
proof (induction arbitrary: i j rule: edits.induct)
  case edits_empty
  then have "i = 0" by auto
  then show ?case by simp
next
  case (edits_match xs ys k a)
  note i = take_snocD [OF edits_match.prems(1) [symmetric] edits_match.prems(2)]
    and j = substring_snocD [OF edits_match.prems(3) [symmetric] edits_match.prems(4)]
  have "D needle hay (i - 1) (j - 1) \<le> k"
    using edits_match.IH [of "i - 1" "j - 1"] i j edits_match.prems by simp
  then show ?case using D_match [of needle "i - 1" hay "j - 1"] i j by simp
next
  case (edits_subst xs ys k a b)
  note i = take_snocD [OF edits_subst.prems(1) [symmetric] edits_subst.prems(2)]
    and j = substring_snocD [OF edits_subst.prems(3) [symmetric] edits_subst.prems(4)]
  have "D needle hay (i - 1) (j - 1) \<le> k"
    using edits_subst.IH [of "i - 1" "j - 1"] i j edits_subst.prems by simp
  then show ?case using D_diag [of needle hay "i - 1" "j - 1"] i j by simp
next
  case (edits_drop xs ys k a)
  note i = take_snocD [OF edits_drop.prems(1) [symmetric] edits_drop.prems(2)]
  have "D needle hay (i - 1) j \<le> k"
    using edits_drop.IH [of "i - 1" j] i edits_drop.prems by simp
  then show ?case using D_up [of needle hay "i - 1" j] i by simp
next
  case (edits_skip xs ys k b)
  note j = substring_snocD [OF edits_skip.prems(3) [symmetric] edits_skip.prems(4)]
  have "D needle hay i (j - 1) \<le> k"
    using edits_skip.IH [of i "j - 1"] j edits_skip.prems by simp
  then show ?case using D_left [of needle hay i "j - 1"] j by simp
qed

section \<open>Locality\<close>

lemma D_take:
  assumes "j \<le> e"
  shows "D needle (take e hay) i j = D needle hay i j"
  unfolding D_def by (rule dist_cong) (use assms in auto)

text \<open>A cell depends on no byte more than \<open>2 i\<close> before its column.\<close>

lemma D_drop:
  assumes "i \<le> length needle" and "s0 + j \<le> length hay" and "s0 = 0 \<or> 2 * i \<le> j"
  shows "D needle (drop s0 hay) i j = D needle hay i (s0 + j)"
proof (rule antisym)
  have sub: "substring (drop s0 hay) s j = substring hay (s0 + s) (s0 + j)" for s
    by (simp add: substring_def take_drop add.commute)
  obtain s where s: "s \<le> s0 + j" "edits (take i needle) (substring hay s (s0 + j)) (D needle hay i (s0 + j))"
    using D_attained [OF assms(1,2)] by blast
  have "length (substring hay s (s0 + j)) \<le> 2 * i"
    using edits_length [OF s(2)] dist_le_row [of "\<lambda>i j. needle ! i = hay ! j" i "s0 + j"] assms(1)
    by (simp add: D_def)
  then have "s0 \<le> s" using assms(2,3) s(1) by (auto simp: length_substring)
  then have "substring (drop s0 hay) (s - s0) j = substring hay s (s0 + j)" by (simp add: sub)
  then show "D needle (drop s0 hay) i j \<le> D needle hay i (s0 + j)"
    using D_minimal [OF s(2) refl assms(1), of "drop s0 hay" "s - s0" j] assms(2) by simp
  obtain t where "t \<le> j" "edits (take i needle) (substring (drop s0 hay) t j) (D needle (drop s0 hay) i j)"
  proof -
    have "j \<le> length (drop s0 hay)" using assms(2) by simp
    then show thesis using D_attained [OF assms(1)] that by blast
  qed
  then show "D needle hay i (s0 + j) \<le> D needle (drop s0 hay) i j"
    using D_minimal [OF _ refl assms(1) sub assms(2)] by blast
qed

end
