(* ===== verification/FuzzySpans.thy ===== *)
theory FuzzySpans
  imports EditDistance
begin

text \<open>
  Fuzzy occurrences, \<open>src/src/suffix_fst/briques/fuzzy_spans.rs\<close>: the full matrix with its
  traceback (\<open>fuzzy_spans\<close>), the last row alone (\<open>last_row\<close>, bit-parallel up to 64 bytes of needle,
  column by column beyond), the early-exit test (\<open>within_distance\<close>) and the scan of long texts with
  a local matrix (\<open>fuzzy_spans_long\<close>).

  A \<open>u32\<close> cell is a \<open>nat\<close>: a cell is at most the length of the needle (\<open>dist_le_row\<close>), so no
  addition wraps.  An index out of range panics in the source; every index below is in range for
  the matrix of the call, and the one subtraction that could underflow (\<open>e -= 1\<close> at \<open>e = 0\<close>) is a
  panic of the model.
\<close>

section \<open>The full matrix\<close>

definition cell :: "u8 \<Rightarrow> u8 \<Rightarrow> nat \<Rightarrow> nat \<Rightarrow> nat \<Rightarrow> nat" where
  "cell qb hb up left diag =
     (let cost = (if qb \<noteq> hb then 1 else 0) in min (min (up + 1) (left + 1)) (diag + cost))"

definition fill_row :: "bytes \<Rightarrow> bytes \<Rightarrow> nat \<Rightarrow> nat \<Rightarrow> nat list \<Rightarrow> nat list" where
  "fill_row needle hay w i dp =
     (let qb = needle ! (i - 1) in
      fold (\<lambda>j dp. dp[i * w + j :=
              cell qb (hay ! (j - 1)) (dp ! ((i - 1) * w + j)) (dp ! (i * w + j - 1)) (dp ! ((i - 1) * w + j - 1))])
        [1..<length hay + 1] dp)"

definition dp_matrix :: "bytes \<Rightarrow> bytes \<Rightarrow> nat list" where
  "dp_matrix needle hay =
     (let m = length needle; w = length hay + 1;
          dp = replicate ((m + 1) * w) 0;
          dp = fold (\<lambda>i dp. dp[i * w := i]) [1..<m + 1] dp
      in fold (fill_row needle hay w) [1..<m + 1] dp)"

section \<open>Runs and traceback\<close>

text \<open>The inner loop over a run of acceptable end offsets: the best end, its distance, the end of the run.\<close>

function best_run :: "(nat \<Rightarrow> nat) \<Rightarrow> nat \<Rightarrow> nat \<Rightarrow> nat \<Rightarrow> nat \<Rightarrow> nat \<Rightarrow> nat \<times> nat \<times> nat" where
  "best_run row n d k best_e best_d =
     (if k \<le> n \<and> row k \<le> d then
        if row k < best_d then best_run row n d (k + 1) k (row k)
        else best_run row n d (k + 1) best_e best_d
      else (best_e, best_d, k))"
  by pat_completeness auto
termination
  by (relation "measure (\<lambda>(row, n, d, k, be, bd). Suc n - k)") auto

declare best_run.simps [simp del]

lemma best_run_end: "best_run row n d k be bd = (e, b, k') \<Longrightarrow> k \<le> k'"
proof (induction row n d k be bd rule: best_run.induct)
  case (1 row n d k be bd)
  then show ?case by (subst (asm) (3) best_run.simps) (auto split: if_splits)
qed

text \<open>The outer loop over the end offsets, with the traceback that finds the start of an occurrence.\<close>

function scan :: "(nat \<Rightarrow> nat) \<Rightarrow> nat \<Rightarrow> nat \<Rightarrow> (nat \<Rightarrow> nat exec) \<Rightarrow> nat \<Rightarrow> (nat \<times> nat \<times> nat) list exec" where
  "scan row n d start j =
     (if j \<le> n then
        if d < row j then scan row n d start (j + 1)
        else (case best_run row n d (j + 1) j (row j) of
                (best_e, best_d, k) \<Rightarrow> do {
                  e \<leftarrow> start best_e;
                  rest \<leftarrow> scan row n d start k;
                  Some ((e, best_e, best_d) # rest) })
      else Some [])"
  by pat_completeness auto
termination
  by (relation "measure (\<lambda>(row, n, d, start, j). Suc n - j)")
    (auto dest!: best_run_end [OF sym] best_run_end)

declare scan.simps [simp del]

text \<open>One iteration of the traceback, for \<open>i > 0\<close>: the cell it moves to.\<close>

definition trace_step :: "bytes \<Rightarrow> bytes \<Rightarrow> nat list \<Rightarrow> nat \<Rightarrow> nat \<Rightarrow> nat \<Rightarrow> (nat \<times> nat) exec" where
  "trace_step needle hay dp w i e =
     (let here = dp ! (i * w + e) in
      if 0 < e \<and> needle ! (i - 1) = hay ! (e - 1) \<and> dp ! ((i - 1) * w + e - 1) = here then Some (i - 1, e - 1)
      else if dp ! ((i - 1) * w + e) + 1 = here then Some (i - 1, e)
      else if 0 < e \<and> dp ! ((i - 1) * w + e - 1) + 1 = here then Some (i - 1, e - 1)
      else if e = 0 then None
      else Some (i, e - 1))"

lemma trace_step_decreases: "trace_step needle hay dp w i e = Some (i', e') \<Longrightarrow> 0 < i \<Longrightarrow> i' + e' < i + e"
  by (auto simp: trace_step_def Let_def split: if_splits)

function traceback :: "bytes \<Rightarrow> bytes \<Rightarrow> nat list \<Rightarrow> nat \<Rightarrow> nat \<Rightarrow> nat \<Rightarrow> nat exec" where
  "traceback needle hay dp w i e =
     (if 0 < i then
        (case trace_step needle hay dp w i e of
           None \<Rightarrow> None
         | Some (i', e') \<Rightarrow> traceback needle hay dp w i' e')
      else Some e)"
  by pat_completeness auto
termination
  by (relation "measure (\<lambda>(needle, hay, dp, w, i, e). i + e)") (auto dest: trace_step_decreases)

declare traceback.simps [simp del]

definition fuzzy_spans :: "bytes \<Rightarrow> bytes \<Rightarrow> nat \<Rightarrow> (nat \<times> nat \<times> nat) list exec" where
  "fuzzy_spans needle hay d =
     (let m = length needle; n = length hay in
      if m = 0 \<or> n = 0 then Some []
      else
        (let w = n + 1; dp = dp_matrix needle hay
         in scan (\<lambda>j. dp ! (m * w + j)) n d (\<lambda>best_e. traceback needle hay dp w m best_e) 1))"

section \<open>The last row\<close>

definition peq_table :: "bytes \<Rightarrow> u64 list" where
  "peq_table needle =
     fold (\<lambda>i peq. let b = unat (needle ! i) in peq[b := peq ! b OR push_bit i 1])
       [0..<length needle] (replicate 256 0)"

text \<open>One column of the bit-parallel recurrence: the new vertical deltas, the horizontal ones before the shift.\<close>

definition myers_step :: "u64 \<Rightarrow> u64 \<Rightarrow> u64 \<Rightarrow> u64 \<times> u64 \<times> u64 \<times> u64" where
  "myers_step eq pv mv =
     (let xv = eq OR mv;
          xh = (((eq AND pv) + pv) XOR pv) OR eq;
          ph = mv OR NOT (xh OR pv);
          mh = pv AND xh;
          ph1 = push_bit 1 ph;
          mh1 = push_bit 1 mh
      in (mh1 OR NOT (xv OR ph1), ph1 AND xv, ph, mh))"

fun myers_row :: "u64 list \<Rightarrow> u64 \<Rightarrow> u64 \<Rightarrow> u64 \<Rightarrow> nat \<Rightarrow> bytes \<Rightarrow> nat list" where
  "myers_row peq topb pv mv score [] = []"
| "myers_row peq topb pv mv score (c # cs) =
     (case myers_step (peq ! unat c) pv mv of (pv', mv', ph, mh) \<Rightarrow>
        (let score' = (if ph AND topb \<noteq> 0 then score + 1 else if mh AND topb \<noteq> 0 then score - 1 else score)
         in score' # myers_row peq topb pv' mv' score' cs))"

definition col_step :: "bytes \<Rightarrow> u8 \<Rightarrow> nat list \<Rightarrow> nat list" where
  "col_step needle hb col =
     snd (fold (\<lambda>i (diag, col).
            let left = col ! i; v = cell (needle ! (i - 1)) hb (col ! (i - 1)) left diag
            in (left, col[i := v]))
          [1..<length needle + 1] (0, col))"

fun col_rows :: "bytes \<Rightarrow> nat list \<Rightarrow> bytes \<Rightarrow> nat list" where
  "col_rows needle col [] = []"
| "col_rows needle col (hb # hbs) =
     (let col' = col_step needle hb col in col' ! length needle # col_rows needle col' hbs)"

definition last_row :: "bytes \<Rightarrow> bytes \<Rightarrow> nat list" where
  "last_row needle hay =
     (let m = length needle in
      if m = 0 then replicate (length hay + 1) 0
      else if m \<le> 64 then m # myers_row (peq_table needle) (push_bit (m - 1) 1) (NOT 0) 0 m hay
      else m # col_rows needle [0..<m + 1] hay)"

section \<open>The early-exit test\<close>

fun myers_within :: "u64 list \<Rightarrow> u64 \<Rightarrow> u64 \<Rightarrow> u64 \<Rightarrow> nat \<Rightarrow> nat \<Rightarrow> bytes \<Rightarrow> bool" where
  "myers_within peq topb pv mv score d [] = False"
| "myers_within peq topb pv mv score d (c # cs) =
     (case myers_step (peq ! unat c) pv mv of (pv', mv', ph, mh) \<Rightarrow>
        if ph AND topb \<noteq> 0 then myers_within peq topb pv' mv' (score + 1) d cs
        else if mh AND topb \<noteq> 0 then
          (if score - 1 \<le> d then True else myers_within peq topb pv' mv' (score - 1) d cs)
        else myers_within peq topb pv' mv' score d cs)"

definition within_distance :: "bytes \<Rightarrow> bytes \<Rightarrow> nat \<Rightarrow> bool" where
  "within_distance needle hay d =
     (let m = length needle in
      if m = 0 \<or> hay = [] then False
      else if m \<le> d then True
      else if m \<le> 64 then myers_within (peq_table needle) (push_bit (m - 1) 1) (NOT 0) 0 m d hay
      else list_ex (\<lambda>v. v \<le> d) (drop 1 (last_row needle hay)))"

section \<open>Long texts\<close>

text \<open>The traceback of one occurrence on the local matrix over \<open>hay[s0..best_e]\<close>.\<close>

definition local_start :: "bytes \<Rightarrow> bytes \<Rightarrow> nat \<Rightarrow> nat \<Rightarrow> nat exec" where
  "local_start needle hay d best_e =
     (let m = length needle;
          s0 = best_e - (2 * m + d + 1);
          ln = best_e - s0;
          text = take ln (drop s0 hay)
      in map_option (\<lambda>e. s0 + e) (traceback needle text (dp_matrix needle text) (ln + 1) m ln))"

definition fuzzy_spans_long_above :: "bytes \<Rightarrow> bytes \<Rightarrow> nat \<Rightarrow> nat \<Rightarrow> (nat \<times> nat \<times> nat) list exec" where
  "fuzzy_spans_long_above needle hay d full_cells =
     (let m = length needle; n = length hay in
      if m = 0 \<or> n = 0 then Some []
      else if 64 < m \<and> min ((m + 1) * (n + 1)) (2 ^ 64 - 1) \<le> full_cells then fuzzy_spans needle hay d
      else
        (let last = last_row needle hay
         in scan (\<lambda>j. last ! j) n d (local_start needle hay d) 1))"

definition fuzzy_spans_long :: "bytes \<Rightarrow> bytes \<Rightarrow> nat \<Rightarrow> (nat \<times> nat \<times> nat) list exec" where
  "fuzzy_spans_long needle hay d = fuzzy_spans_long_above needle hay d (push_bit 22 1)"

section \<open>The matrix holds the recurrence\<close>

definition filled :: "bytes \<Rightarrow> bytes \<Rightarrow> nat \<Rightarrow> nat \<Rightarrow> nat \<Rightarrow> nat list \<Rightarrow> bool" where
  "filled needle hay w i j dp \<longleftrightarrow>
     length dp = (length needle + 1) * w
     \<and> (\<forall>a \<le> length needle. dp ! (a * w) = a)
     \<and> (\<forall>a b. a \<le> length needle \<longrightarrow> b \<le> length hay \<longrightarrow> a < i \<or> a = i \<and> b \<le> j
          \<longrightarrow> dp ! (a * w + b) = D needle hay a b)"

lemma filledD:
  assumes "filled needle hay w i j dp"
  shows "length dp = (length needle + 1) * w" and "a \<le> length needle \<Longrightarrow> dp ! (a * w) = a"
    and "a \<le> length needle \<Longrightarrow> b \<le> length hay \<Longrightarrow> a < i \<or> a = i \<and> b \<le> j \<Longrightarrow> dp ! (a * w + b) = D needle hay a b"
  using assms unfolding filled_def by blast+

lemma D_column: "D needle hay a 0 = a"
  by (simp add: D_def dist_column)

lemma filled_mono: "filled needle hay w i (length hay) dp \<Longrightarrow> filled needle hay w (Suc i) 0 dp"
  unfolding filled_def by (auto simp: D_column less_Suc_eq)

lemma filled_cell:
  assumes f: "filled needle hay w i j dp" and "0 < i" and "i \<le> length needle" and "j < length hay" and w: "length hay < w"
  shows "filled needle hay w i (Suc j)
    (dp[i * w + Suc j := cell (needle ! (i - 1)) (hay ! j) (dp ! ((i - 1) * w + Suc j))
          (dp ! (i * w + j)) (dp ! ((i - 1) * w + j))])"
    (is "filled _ _ _ _ _ (dp[?p := ?v])")
proof -
  obtain i' where i: "i = Suc i'" using assms(2) by (cases i) auto
  have "dp ! (i' * w + Suc j) = D needle hay i' (Suc j)" "dp ! (i * w + j) = D needle hay i j"
    "dp ! (i' * w + j) = D needle hay i' j"
    by (rule filledD(3) [OF f]; use assms i in simp)+
  then have v: "?v = D needle hay i (Suc j)" by (simp add: cell_def i)
  have p: "?p < length dp"
    using row_major_bound [of i "length needle" "Suc j" w] filledD(1) [OF f] assms by simp
  have other: "dp[?p := ?v] ! (a * w + b) = dp ! (a * w + b)" if "b \<le> length hay" "(a, b) \<noteq> (i, Suc j)" for a b
  proof (rule nth_list_update_neq)
    show "?p \<noteq> a * w + b" using row_major_inj [of "Suc j" w b i a] that assms(4,5) by auto
  qed
  have "dp[?p := ?v] ! (a * w) = a" if "a \<le> length needle" for a
    using other [of 0 a] filledD(2) [OF f that] by simp
  moreover have "dp[?p := ?v] ! (a * w + b) = D needle hay a b"
    if "a \<le> length needle" "b \<le> length hay" "a < i \<or> a = i \<and> b \<le> Suc j" for a b
  proof (cases "(a, b) = (i, Suc j)")
    case True
    then show ?thesis using p v by simp
  next
    case False
    then have "a < i \<or> a = i \<and> b \<le> j" using that(3) by auto
    then show ?thesis using other [of b a] filledD(3) [OF f that(1,2)] that(2) False by simp
  qed
  ultimately show ?thesis using filledD(1) [OF f] unfolding filled_def length_list_update by blast
qed

lemma filled_row:
  assumes "filled needle hay w i 0 dp" and "0 < i" and "i \<le> length needle" and "length hay < w"
  shows "filled needle hay w i (length hay) (fill_row needle hay w i dp)"
proof -
  let ?f = "\<lambda>j dp. dp[i * w + j := cell (needle ! (i - 1)) (hay ! (j - 1)) (dp ! ((i - 1) * w + j))
        (dp ! (i * w + j - 1)) (dp ! ((i - 1) * w + j - 1))]"
  have "filled needle hay w i (length hay + 1 - 1) (fold ?f [1..<length hay + 1] dp)"
  proof (rule fold_upt_invariant [where P = "\<lambda>j dp. filled needle hay w i (j - 1) dp"])
    fix j s assume j: "1 \<le> j" "j < length hay + 1" "filled needle hay w i (j - 1) s"
    then obtain k where "j = Suc k" by (cases j) auto
    then show "filled needle hay w i (Suc j - 1) (?f j s)"
      using filled_cell [of needle hay w i k s] assms(2-4) j by simp
  qed (use assms(1) in simp_all)
  then show ?thesis by (simp add: fill_row_def Let_def)
qed

lemma first_column:
  assumes "length hay < w"
  shows "filled needle hay w 0 (length hay)
     (fold (\<lambda>i dp. dp[i * w := i]) [1..<length needle + 1] (replicate ((length needle + 1) * w) 0))"
proof -
  let ?m = "length needle"
  let ?I = "\<lambda>i dp. length dp = (?m + 1) * w \<and> (\<forall>a < i. a \<le> ?m \<longrightarrow> dp ! (a * w) = a) \<and> (\<forall>b < w. dp ! b = (0::nat))"
  have "?I (?m + 1) (fold (\<lambda>i dp. dp[i * w := i]) [1..<?m + 1] (replicate ((?m + 1) * w) 0))"
  proof (rule fold_upt_invariant [where P = ?I])
    have "b < (?m + 1) * w" if "b < w" for b using row_major_bound [of 0 ?m b w] that by simp
    moreover have "0 < (?m + 1) * w" using row_major_bound [of 0 ?m 0 w] assms by simp
    ultimately show "?I 1 (replicate ((?m + 1) * w) 0)" by (simp del: mult_Suc)
    fix i and s :: "nat list" assume i: "1 \<le> i" "i < ?m + 1" "?I i s"
    have "i * w < length s" using row_major_bound [of i ?m 0 w] i assms by simp
    moreover have "i * w \<noteq> b" if "b < w" for b
      using row_major_inj [of 0 w b i 0] that i(1) assms by simp
    moreover have "i * w \<noteq> a * w" if "a < i" for a using that row_major_inj [of 0 w 0 i a] assms by simp
    ultimately show "?I (Suc i) (s[i * w := i])" using i(3) by (auto simp: less_Suc_eq)
  qed simp
  then show ?thesis using assms by (auto simp: filled_def)
qed

lemma dp_matrix_filled:
  "filled needle hay (length hay + 1) (length needle) (length hay) (dp_matrix needle hay)"
proof -
  define w where "w = length hay + 1"
  let ?m = "length needle"
  let ?dp0 = "fold (\<lambda>i dp. dp[i * w := i]) [1..<?m + 1] (replicate ((?m + 1) * w) 0)"
  have "filled needle hay w (?m + 1 - 1) (length hay) (fold (fill_row needle hay w) [1..<?m + 1] ?dp0)"
  proof (rule fold_upt_invariant [where P = "\<lambda>i dp. filled needle hay w (i - 1) (length hay) dp"])
    fix i s assume i: "1 \<le> i" "i < ?m + 1" "filled needle hay w (i - 1) (length hay) s"
    then have "filled needle hay w i 0 s" using filled_mono [of needle hay w "i - 1" s] by simp
    then show "filled needle hay w (Suc i - 1) (length hay) (fill_row needle hay w i s)"
      using filled_row [of needle hay w i s] i(1,2) by (simp add: w_def)
  qed (use first_column [of hay w needle] in \<open>simp_all add: w_def\<close>)
  then show ?thesis unfolding dp_matrix_def Let_def w_def [symmetric] by (simp only: add_diff_cancel_right')
qed

lemma dp_matrix_cell:
  assumes "i \<le> length needle" and "j \<le> length hay"
  shows "dp_matrix needle hay ! (i * (length hay + 1) + j) = D needle hay i j"
  using filledD(3) [OF dp_matrix_filled assms] assms by (cases "i = length needle") auto

section \<open>The traceback\<close>

text \<open>One iteration read off the recurrence instead of the matrix.\<close>

definition D_step :: "bytes \<Rightarrow> bytes \<Rightarrow> nat \<Rightarrow> nat \<Rightarrow> (nat \<times> nat) exec" where
  "D_step needle hay i e =
     (if 0 < e \<and> needle ! (i - 1) = hay ! (e - 1) \<and> D needle hay (i - 1) (e - 1) = D needle hay i e
      then Some (i - 1, e - 1)
      else if D needle hay (i - 1) e + 1 = D needle hay i e then Some (i - 1, e)
      else if 0 < e \<and> D needle hay (i - 1) (e - 1) + 1 = D needle hay i e then Some (i - 1, e - 1)
      else if e = 0 then None
      else Some (i, e - 1))"

lemma trace_step_eq:
  assumes "0 < i" and "i \<le> length needle" and "e \<le> length hay"
  shows "trace_step needle hay (dp_matrix needle hay) (length hay + 1) i e = D_step needle hay i e"
proof -
  have c: "dp_matrix needle hay ! (i * (length hay + 1) + e) = D needle hay i e"
    "dp_matrix needle hay ! ((i - 1) * (length hay + 1) + e) = D needle hay (i - 1) e"
    using assms by (intro dp_matrix_cell; simp)+
  have "dp_matrix needle hay ! ((i - 1) * (length hay + 1) + e - 1) = D needle hay (i - 1) (e - 1)" if "0 < e"
    using dp_matrix_cell [of "i - 1" needle "e - 1" hay] that assms by (cases e) auto
  then show ?thesis
    unfolding trace_step_def D_step_def Let_def c by auto
qed

lemma D_step_cases:
  assumes "0 < i"
  obtains (hit) "0 < e" "needle ! (i - 1) = hay ! (e - 1)" "D_step needle hay i e = Some (i - 1, e - 1)"
      "D needle hay i e = D needle hay (i - 1) (e - 1)"
    | (lose) "D_step needle hay i e = Some (i - 1, e)" "D needle hay i e = D needle hay (i - 1) e + 1"
    | (swap) "0 < e" "D_step needle hay i e = Some (i - 1, e - 1)" "D needle hay i e = D needle hay (i - 1) (e - 1) + 1"
    | (pass) "0 < e" "D_step needle hay i e = Some (i, e - 1)" "D needle hay i e = D needle hay i (e - 1) + 1"
proof -
  let ?D = "D needle hay"
  obtain a where a: "i = Suc a" using assms by (cases i) auto
  consider (1) "0 < e \<and> needle ! (i - 1) = hay ! (e - 1) \<and> ?D (i - 1) (e - 1) = ?D i e"
    | (2) "\<not> (0 < e \<and> needle ! (i - 1) = hay ! (e - 1) \<and> ?D (i - 1) (e - 1) = ?D i e)" "?D (i - 1) e + 1 = ?D i e"
    | (3) "\<not> (0 < e \<and> needle ! (i - 1) = hay ! (e - 1) \<and> ?D (i - 1) (e - 1) = ?D i e)" "?D (i - 1) e + 1 \<noteq> ?D i e"
        "0 < e \<and> ?D (i - 1) (e - 1) + 1 = ?D i e"
    | (4) "\<not> (0 < e \<and> needle ! (i - 1) = hay ! (e - 1) \<and> ?D (i - 1) (e - 1) = ?D i e)" "?D (i - 1) e + 1 \<noteq> ?D i e"
        "\<not> (0 < e \<and> ?D (i - 1) (e - 1) + 1 = ?D i e)"
    by blast
  then show thesis
  proof cases
    case 1
    then have "D_step needle hay i e = Some (i - 1, e - 1)" unfolding D_step_def by (rule if_P)
    with 1 show thesis by (intro hit) simp_all
  next
    case 2
    have "D_step needle hay i e = Some (i - 1, e)"
      unfolding D_step_def if_not_P [OF 2(1)] if_P [OF 2(2)] by (rule refl)
    then show thesis by (rule lose) (rule 2(2) [symmetric])
  next
    case 3
    have "D_step needle hay i e = Some (i - 1, e - 1)"
      unfolding D_step_def if_not_P [OF 3(1)] if_not_P [OF 3(2)] if_P [OF 3(3)] by (rule refl)
    with 3 show thesis by (intro swap) simp_all
  next
    case 4
    have "e \<noteq> 0"
    proof
      assume "e = 0"
      then show False using 4(2) a by (simp add: D_column)
    qed
    then obtain b where b: "e = Suc b" by (cases e) auto
    have "?D i e = ?D a e + 1 \<or> ?D i e = ?D i b + 1
        \<or> ?D i e = ?D a b + (if needle ! a = hay ! b then 0 else 1)"
    proof -
      have "min (min x y) z = x \<or> min (min x y) z = y \<or> min (min x y) z = z" for x y z :: nat
        by (simp add: min_def)
      then show ?thesis unfolding a b D_simps(3) by blast
    qed
    moreover have "?D i e \<noteq> ?D a e + 1" using 4(2) a by simp
    moreover have "?D i e \<noteq> ?D a b + (if needle ! a = hay ! b then 0 else 1)" using 4(1,3) a b
      by (cases "needle ! a = hay ! b") (simp_all del: D_simps)
    ultimately have "?D i e = ?D i b + 1" by blast
    moreover have "D_step needle hay i e = Some (i, e - 1)"
      unfolding D_step_def if_not_P [OF 4(1)] if_not_P [OF 4(2)] if_not_P [OF 4(3)] if_not_P [OF \<open>e \<noteq> 0\<close>]
      by (rule refl)
    ultimately show thesis using pass b by simp
  qed
qed

lemma traceback_eq:
  assumes "0 < i" and "i \<le> length needle" and "e \<le> length hay" and "D_step needle hay i e = Some (i', e')"
  shows "traceback needle hay (dp_matrix needle hay) (length hay + 1) i e
       = traceback needle hay (dp_matrix needle hay) (length hay + 1) i' e'"
  using assms trace_step_eq [OF assms(1-3)] by (subst traceback.simps) simp

text \<open>The traceback never underflows, and the edits along it turn the needle into the span.\<close>

lemma traceback_edits:
  assumes "i \<le> length needle" and "e \<le> length hay"
  shows "\<exists>s \<le> e. traceback needle hay (dp_matrix needle hay) (length hay + 1) i e = Some s
           \<and> edits (take i needle) (substring hay s e) (D needle hay i e)"
  using assms
proof (induction "i + e" arbitrary: i e rule: less_induct)
  case less
  let ?tb = "traceback needle hay (dp_matrix needle hay) (length hay + 1)"
  show ?case
  proof (cases "i = 0")
    case True
    then show ?thesis by (subst traceback.simps) (auto intro: edits_empty)
  next
    case False
    then have i: "0 < i" by simp
    have needle: "take i needle = take (i - 1) needle @ [needle ! (i - 1)]"
      using i less.prems take_Suc_conv_app_nth [of "i - 1" needle] by simp
    have hay: "substring hay s e = substring hay s (e - 1) @ [hay ! (e - 1)]" if "s \<le> e - 1" "0 < e" for s
      using that less.prems substring_Suc [of s "e - 1" hay] by simp
    note step = traceback_eq [OF i less.prems]
    have IH: "\<exists>s \<le> e'. ?tb i' e' = Some s \<and> edits (take i' needle) (substring hay s e') (D needle hay i' e')"
      if "i' \<le> i" "e' \<le> e" "i' + e' < i + e" for i' e'
      using less.hyps [OF that(3)] that(1,2) less.prems by simp
    show ?thesis
    proof (rule D_step_cases [OF i, of e needle hay], goal_cases)
      case 1
      then obtain s where s: "s \<le> e - 1" "?tb (i - 1) (e - 1) = Some s"
        "edits (take (i - 1) needle) (substring hay s (e - 1)) (D needle hay (i - 1) (e - 1))"
        using IH [of "i - 1" "e - 1"] less.prems i by auto
      then show ?case using 1 step needle hay [OF s(1)] edits_match [OF s(3), of "hay ! (e - 1)"]
        by (intro exI [of _ s]) auto
    next
      case 2
      then obtain s where s: "s \<le> e" "?tb (i - 1) e = Some s"
        "edits (take (i - 1) needle) (substring hay s e) (D needle hay (i - 1) e)"
        using IH [of "i - 1" e] less.prems i by auto
      then show ?case using 2 step needle edits_drop [OF s(3), of "needle ! (i - 1)"]
        by (intro exI [of _ s]) auto
    next
      case 3
      then obtain s where s: "s \<le> e - 1" "?tb (i - 1) (e - 1) = Some s"
        "edits (take (i - 1) needle) (substring hay s (e - 1)) (D needle hay (i - 1) (e - 1))"
        using IH [of "i - 1" "e - 1"] less.prems i by auto
      then show ?case using 3 step needle hay [OF s(1)] edits_subst [OF s(3), of "needle ! (i - 1)" "hay ! (e - 1)"]
        by (intro exI [of _ s]) auto
    next
      case 4
      then obtain s where s: "s \<le> e - 1" "?tb i (e - 1) = Some s"
        "edits (take i needle) (substring hay s (e - 1)) (D needle hay i (e - 1))"
        using IH [of i "e - 1"] less.prems i by auto
      then show ?case using 4 step hay [OF s(1)] edits_skip [OF s(3), of "hay ! (e - 1)"]
        by (intro exI [of _ s]) auto
    qed
  qed
qed

section \<open>Runs\<close>

lemma best_run_spec:
  assumes "best_run row n d k be bd = (e, b, k')" and "bd = row be" and "j \<le> be" and "be < k"
    and "\<forall>x. j \<le> x \<and> x < k \<longrightarrow> row x \<le> d \<and> row be \<le> row x \<and> (x < be \<longrightarrow> row be < row x)" and "k \<le> Suc n"
  shows "b = row e \<and> j \<le> e \<and> e < k' \<and> k' \<le> Suc n \<and> (k' \<le> n \<longrightarrow> d < row k')
    \<and> (\<forall>x. j \<le> x \<and> x < k' \<longrightarrow> row x \<le> d \<and> row e \<le> row x \<and> (x < e \<longrightarrow> row e < row x))"
  using assms
proof (induction row n d k be bd rule: best_run.induct)
  case (1 row n d k be bd)
  show ?case
  proof (cases "k \<le> n \<and> row k \<le> d")
    case False
    then have "best_run row n d k be bd = (be, bd, k)" by (subst best_run.simps) (rule if_not_P)
    then show ?thesis using "1.prems" False by auto
  next
    case True
    show ?thesis
    proof (cases "row k < bd")
      case less: True
      have "best_run row n d (k + 1) k (row k) = (e, b, k')"
        using "1.prems"(1) True less by (subst (asm) best_run.simps) simp
      then show ?thesis using True less "1.prems"
        by (intro "1.IH"(1)) (auto simp: less_Suc_eq intro: less_le_trans)
    next
      case ge: False
      have "best_run row n d (k + 1) be bd = (e, b, k')"
        using "1.prems"(1) True ge by (subst (asm) best_run.simps) simp
      then show ?thesis using True ge "1.prems"
        by (intro "1.IH"(2)) (auto simp: less_Suc_eq)
    qed
  qed
qed

lemma best_run_start:
  assumes "best_run row n d (j + 1) j (row j) = (e, b, k)" and "j \<le> n" and "\<not> d < row j"
  shows "b = row e \<and> j \<le> e \<and> e < k \<and> k \<le> Suc n \<and> (k \<le> n \<longrightarrow> d < row k)
          \<and> (\<forall>x. j \<le> x \<and> x < k \<longrightarrow> row x \<le> d \<and> row e \<le> row x \<and> (x < e \<longrightarrow> row e < row x))"
  using assms(2,3) by (intro best_run_spec [OF assms(1)]) (auto simp: less_Suc_eq)

text \<open>
  What a scan promises of the offsets from \<open>j\<close> on: every span ends at an acceptable offset with its
  distance; every acceptable offset lies in the run of a span that is at least as close and, among
  equals, leftmost; and two spans are separated by an unacceptable offset (one span per run).
\<close>

definition one_per_run :: "(nat \<Rightarrow> nat) \<Rightarrow> nat \<Rightarrow> nat \<Rightarrow> (nat \<Rightarrow> nat exec) \<Rightarrow> nat \<Rightarrow> (nat \<times> nat \<times> nat) list \<Rightarrow> bool" where
  "one_per_run row n d start j out \<longleftrightarrow>
     (\<forall>(s, e, b) \<in> set out. start e = Some s \<and> b = row e \<and> b \<le> d \<and> j \<le> e \<and> e \<le> n)
     \<and> (\<forall>x. j \<le> x \<and> x \<le> n \<and> row x \<le> d \<longrightarrow>
          (\<exists>(s, e, b) \<in> set out. b \<le> row x \<and> (b = row x \<longrightarrow> e \<le> x)
             \<and> (\<forall>y. min x e \<le> y \<and> y \<le> max x e \<longrightarrow> row y \<le> d)))
     \<and> sorted_wrt (\<lambda>(s, e, b) (s', e', b'). \<exists>y. e < y \<and> y < e' \<and> d < row y) out"

lemma one_per_run_cover:
  assumes "one_per_run row n d start j out" and "j \<le> x" "x \<le> n" "row x \<le> d"
  obtains s e b where "(s, e, b) \<in> set out" "b \<le> row x" "\<forall>y. min x e \<le> y \<and> y \<le> max x e \<longrightarrow> row y \<le> d"
proof -
  have "\<exists>(s, e, b) \<in> set out. b \<le> row x \<and> (b = row x \<longrightarrow> e \<le> x)
      \<and> (\<forall>y. min x e \<le> y \<and> y \<le> max x e \<longrightarrow> row y \<le> d)"
    using assms unfolding one_per_run_def by blast
  then show thesis using that by (auto simp del: min_less_iff_conj)
qed

lemma one_per_run_Cons:
  assumes rest: "one_per_run row n d start k out" and "start e = Some s" and "j \<le> e" "e < k" "k \<le> Suc n"
    and gap: "k \<le> n \<longrightarrow> d < row k"
    and run: "\<forall>x. j \<le> x \<and> x < k \<longrightarrow> row x \<le> d \<and> row e \<le> row x \<and> (x < e \<longrightarrow> row e < row x)"
  shows "one_per_run row n d start j ((s, e, row e) # out)"
proof -
  have sep: "\<exists>y. e < y \<and> y < e' \<and> d < row y" if "(s', e', b') \<in> set out" for s' e' b'
  proof -
    have e': "k \<le> e'" "e' \<le> n" "row e' \<le> d" using rest that by (auto simp: one_per_run_def)
    then have "d < row k" using gap by simp
    then show ?thesis using e' assms(4) by (intro exI [of _ k]) (auto simp: nat_less_le)
  qed
  have cover: "\<exists>(s', e', b) \<in> set ((s, e, row e) # out). b \<le> row x \<and> (b = row x \<longrightarrow> e' \<le> x)
      \<and> (\<forall>y. min x e' \<le> y \<and> y \<le> max x e' \<longrightarrow> row y \<le> d)"
    if x: "j \<le> x" "x \<le> n" "row x \<le> d" for x
  proof (cases "x < k")
    case True
    have "row e \<le> row x \<and> (row e = row x \<longrightarrow> e \<le> x)"
      using run x(1) True by (metis less_irrefl not_le)
    moreover have "row y \<le> d" if "min x e \<le> y \<and> y \<le> max x e" for y
      using run that x(1) True assms(3,4) by (auto simp: min_def max_def split: if_splits)
    ultimately show ?thesis by auto
  next
    case False
    then have "k \<le> x" by simp
    then have "\<exists>(s', e', b) \<in> set out. b \<le> row x \<and> (b = row x \<longrightarrow> e' \<le> x)
        \<and> (\<forall>y. min x e' \<le> y \<and> y \<le> max x e' \<longrightarrow> row y \<le> d)"
      using rest x(2,3) unfolding one_per_run_def by blast
    then show ?thesis unfolding list.set(2) by blast
  qed
  have "(\<forall>(s', e', b) \<in> set ((s, e, row e) # out). start e' = Some s' \<and> b = row e' \<and> b \<le> d \<and> j \<le> e' \<and> e' \<le> n)"
    using rest assms(2-5) run by (fastforce simp: one_per_run_def)
  moreover have "sorted_wrt (\<lambda>(s, e, b) (s', e', b'). \<exists>y. e < y \<and> y < e' \<and> d < row y) ((s, e, row e) # out)"
    using rest sep by (auto simp: one_per_run_def)
  ultimately show ?thesis unfolding one_per_run_def using cover by blast
qed

lemma one_per_run_skip:
  assumes out: "one_per_run row n d start (Suc j) out" and "d < row j"
  shows "one_per_run row n d start j out"
proof -
  have "Suc j \<le> x" if "j \<le> x" "row x \<le> d" for x
    using that assms(2) by (cases "x = j") auto
  moreover have "\<forall>(s, e, b) \<in> set out. start e = Some s \<and> b = row e \<and> b \<le> d \<and> j \<le> e \<and> e \<le> n"
    using out by (auto simp: one_per_run_def)
  ultimately show ?thesis using out unfolding one_per_run_def by blast
qed

lemma scan_spec:
  assumes "\<And>e. 1 \<le> e \<Longrightarrow> e \<le> n \<Longrightarrow> row e \<le> d \<Longrightarrow> start e \<noteq> None" and "1 \<le> j"
  shows "\<exists>out. scan row n d start j = Some out \<and> one_per_run row n d start j out"
  using assms
proof (induction row n d start j rule: scan.induct)
  case (1 row n d start j)
  show ?case
  proof (cases "j \<le> n")
    case False
    then show ?thesis by (subst scan.simps) (auto simp: one_per_run_def)
  next
    case jn: True
    show ?thesis
    proof (cases "d < row j")
      case True
      then obtain out where out: "scan row n d start (j + 1) = Some out" "one_per_run row n d start (j + 1) out"
        using "1.IH"(1) [OF jn True] "1.prems" by auto
      have "one_per_run row n d start j out" by (rule one_per_run_skip) (use out(2) True in simp_all)
      then show ?thesis using out(1) jn True by (subst scan.simps) simp
    next
      case False
      obtain e b k where r: "best_run row n d (j + 1) j (row j) = (e, b, k)" by (metis prod_cases3)
      note s = best_run_start [OF r jn False]
      then obtain s0 where s0: "start e = Some s0"
        using "1.prems"(1) [of e] "1.prems"(2) by (cases "start e") auto
      obtain out where out: "scan row n d start k = Some out" "one_per_run row n d start k out"
      proof -
        have "1 \<le> k" using s "1.prems"(2) by simp
        then have "\<exists>out. scan row n d start k = Some out \<and> one_per_run row n d start k out"
          by (intro "1.IH"(2) [OF jn False r [symmetric] refl s0] "1.prems"(1))
        then show thesis using that by blast
      qed
      have "one_per_run row n d start j ((s0, e, row e) # out)"
        using s s0 by (intro one_per_run_Cons [OF out(2)]) auto
      then show ?thesis using out(1) s0 s r jn False by (subst scan.simps) auto
    qed
  qed
qed

lemma best_run_cong:
  assumes "\<And>e. 1 \<le> e \<Longrightarrow> e \<le> n \<Longrightarrow> row e = row' e" and "1 \<le> k"
  shows "best_run row n d k be bd = best_run row' n d k be bd"
  using assms
proof (induction row n d k be bd rule: best_run.induct)
  case (1 row n d k be bd)
  have "best_run row n d (k + 1) k (row k) = best_run row' n d (k + 1) k (row k)"
    if "k \<le> n \<and> row k \<le> d" "row k < bd" using "1.IH"(1) [OF that] "1.prems" by simp
  moreover have "best_run row n d (k + 1) be bd = best_run row' n d (k + 1) be bd"
    if "k \<le> n \<and> row k \<le> d" "\<not> row k < bd" using "1.IH"(2) [OF that] "1.prems" by simp
  ultimately show ?case
    using "1.prems" by (simp add: best_run.simps [of row n d k] best_run.simps [of row' n d k] cong: conj_cong)
qed

lemma scan_cong:
  assumes "\<And>e. 1 \<le> e \<Longrightarrow> e \<le> n \<Longrightarrow> row e = row' e" and "1 \<le> j"
    and "\<And>e. 1 \<le> e \<Longrightarrow> e \<le> n \<Longrightarrow> row e \<le> d \<Longrightarrow> start e = start' e"
  shows "scan row n d start j = scan row' n d start' j"
  using assms
proof (induction row n d start j rule: scan.induct)
  case (1 row n d start j)
  show ?case
  proof (cases "j \<le> n")
    case False
    then show ?thesis by (simp add: scan.simps [of row n d start j] scan.simps [of row' n d start' j])
  next
    case jn: True
    have row: "row j = row' j" using "1.prems"(1,2) jn by simp
    show ?thesis
    proof (cases "d < row j")
      case True
      then have "scan row n d start (j + 1) = scan row' n d start' (j + 1)"
        using "1.IH"(1) [OF jn True] "1.prems" by simp
      then show ?thesis
        using jn True row by (simp add: scan.simps [of row n d start j] scan.simps [of row' n d start' j])
    next
      case False
      obtain e b k where r: "best_run row n d (j + 1) j (row j) = (e, b, k)" by (metis prod_cases3)
      then have r': "best_run row' n d (j + 1) j (row' j) = (e, b, k)"
        using best_run_cong [of n row row' "j + 1"] "1.prems"(1) row by simp
      have "j \<le> e \<and> e < k \<and> k \<le> Suc n \<and> row e \<le> d"
        using best_run_start [OF r jn False] by blast
      then have e: "start e = start' e" and k: "1 \<le> k" using "1.prems"(2) "1.prems"(3) [of e] by auto
      have "scan row n d start k = scan row' n d start' k" if "start e = Some s" for s
        using "1.IH"(2) [OF jn False r [symmetric] refl that] "1.prems"(1,3) k by blast
      then show ?thesis
        using jn False row r r' e
        by (cases "start' e") (simp_all add: scan.simps [of row n d start j] scan.simps [of row' n d start' j])
    qed
  qed
qed

section \<open>Occurrences\<close>

abbreviation best_at :: "bytes \<Rightarrow> bytes \<Rightarrow> nat \<Rightarrow> nat" where
  "best_at needle hay e \<equiv> D needle hay (length needle) e"

abbreviation start_at :: "bytes \<Rightarrow> bytes \<Rightarrow> nat \<Rightarrow> nat exec" where
  "start_at needle hay e \<equiv> traceback needle hay (dp_matrix needle hay) (length hay + 1) (length needle) e"

lemma fuzzy_spans_scan:
  assumes "needle \<noteq> []" and "hay \<noteq> []"
  shows "fuzzy_spans needle hay d = scan (best_at needle hay) (length hay) d (start_at needle hay) 1"
proof -
  have "scan (\<lambda>j. dp_matrix needle hay ! (length needle * (length hay + 1) + j)) (length hay) d (start_at needle hay) 1
      = scan (best_at needle hay) (length hay) d (start_at needle hay) 1"
  proof (rule scan_cong)
    fix e assume "1 \<le> e" "e \<le> length hay"
    then show "dp_matrix needle hay ! (length needle * (length hay + 1) + e) = best_at needle hay e"
      by (intro dp_matrix_cell) simp_all
  qed simp_all
  then show ?thesis using assms by (simp add: fuzzy_spans_def Let_def)
qed

lemma start_at_edits:
  assumes "e \<le> length hay"
  shows "\<exists>s \<le> e. start_at needle hay e = Some s \<and> edits needle (substring hay s e) (best_at needle hay e)"
  using traceback_edits [of "length needle" needle e hay] assms by simp

lemma best_at_minimal:
  assumes "edits needle (substring hay s e) k" and "e \<le> length hay"
  shows "best_at needle hay e \<le> k"
  using D_minimal [OF assms(1) _ _ refl assms(2)] by simp

lemma fuzzy_spans_runs:
  assumes "needle \<noteq> []" and "hay \<noteq> []"
  shows "\<exists>out. fuzzy_spans needle hay d = Some out
           \<and> one_per_run (best_at needle hay) (length hay) d (start_at needle hay) 1 out"
proof -
  have "\<exists>out. scan (best_at needle hay) (length hay) d (start_at needle hay) 1 = Some out
      \<and> one_per_run (best_at needle hay) (length hay) d (start_at needle hay) 1 out"
    by (rule scan_spec) (use start_at_edits [of _ hay needle] in \<open>fastforce+\<close>)
  then show ?thesis using fuzzy_spans_scan [OF assms] by simp
qed

lemma fuzzy_spans_empty: "needle = [] \<or> hay = [] \<Longrightarrow> fuzzy_spans needle hay d = Some []"
  by (auto simp: fuzzy_spans_def)

section \<open>Properties\<close>

text \<open>
  C18.  Every span is an occurrence: \<open>fuzzy_spans\<close> always returns (its traceback never runs off the
  matrix), and for each \<open>(s, e, k)\<close> of the result, \<open>k <= d\<close> edits turn the needle into
  \<open>hay[s..e]\<close> and no substring ending at \<open>e\<close> is closer.
\<close>

theorem fuzzy_spans_sound:
  "\<exists>out. fuzzy_spans needle hay d = Some out \<and>
     (\<forall>(s, e, k) \<in> set out. s \<le> e \<and> e \<le> length hay \<and> k \<le> d \<and> edits needle (substring hay s e) k
        \<and> (\<forall>s' k'. edits needle (substring hay s' e) k' \<longrightarrow> k \<le> k'))"
proof (cases "needle = [] \<or> hay = []")
  case True
  then show ?thesis by (simp add: fuzzy_spans_empty)
next
  case False
  then obtain out where out: "fuzzy_spans needle hay d = Some out"
    "one_per_run (best_at needle hay) (length hay) d (start_at needle hay) 1 out"
    using fuzzy_spans_runs by blast
  have "s \<le> e \<and> e \<le> length hay \<and> k \<le> d \<and> edits needle (substring hay s e) k
      \<and> (\<forall>s' k'. edits needle (substring hay s' e) k' \<longrightarrow> k \<le> k')" if "(s, e, k) \<in> set out" for s e k
  proof -
    have e: "start_at needle hay e = Some s" "k = best_at needle hay e" "k \<le> d" "e \<le> length hay"
      using out(2) that by (auto simp: one_per_run_def)
    then show ?thesis using start_at_edits [OF e(4), of needle] best_at_minimal by auto
  qed
  then show ?thesis using out(1) by auto
qed

theorem fuzzy_spans_sound_witness:
  "\<exists>k. fuzzy_spans [1, 2, 3] [9, 1, 3, 9] 1 = Some [(1, 3, k)] \<and> k \<le> 1
     \<and> edits [1, 2, 3 :: u8] (substring [9, 1, 3, 9] 1 3) k"
proof -
  have "fuzzy_spans [1, 2, 3] [9, 1, 3, 9] 1 = Some [(1, 3, 1)]" by code_simp
  then show ?thesis using fuzzy_spans_sound [of "[1, 2, 3]" "[9, 1, 3, 9]" 1] by auto
qed

text \<open>
  C19.  Every occurrence is found, once per run: if a non-empty prefix of the text ends in a
  substring within \<open>d\<close> edits of the needle, its end lies in a run of acceptable offsets that holds
  a span of the result, at least as close (and leftmost among equals); and between two spans of
  the result there is an offset at which no substring is within \<open>d\<close>.
\<close>

theorem fuzzy_spans_complete:
  assumes "needle \<noteq> []"
  shows "\<exists>out. fuzzy_spans needle hay d = Some out \<and>
     (\<forall>s x k. 1 \<le> x \<and> x \<le> length hay \<and> k \<le> d \<and> edits needle (substring hay s x) k \<longrightarrow>
        (\<exists>(s', e, k') \<in> set out. k' \<le> k \<and>
           (\<forall>y. min x e \<le> y \<and> y \<le> max x e \<longrightarrow> (\<exists>t c. c \<le> d \<and> edits needle (substring hay t y) c)))) \<and>
     sorted_wrt (\<lambda>(s, e, k) (s', e', k'). \<exists>y. e < y \<and> y < e' \<and> (\<forall>t c. edits needle (substring hay t y) c \<longrightarrow> d < c)) out"
proof (cases "hay = []")
  case True
  then show ?thesis by (auto simp: fuzzy_spans_empty)
next
  case False
  let ?row = "best_at needle hay"
  obtain out where out: "fuzzy_spans needle hay d = Some out"
    "one_per_run ?row (length hay) d (start_at needle hay) 1 out"
    using fuzzy_spans_runs [OF assms False] by blast
  have near: "\<exists>t c. c \<le> d \<and> edits needle (substring hay t y) c" if "?row y \<le> d" "y \<le> length hay" for y
    using start_at_edits [OF that(2), of needle] that(1) by blast
  have found: "\<exists>(s', e, k') \<in> set out. k' \<le> k \<and>
      (\<forall>y. min x e \<le> y \<and> y \<le> max x e \<longrightarrow> (\<exists>t c. c \<le> d \<and> edits needle (substring hay t y) c))"
    if x: "1 \<le> x" "x \<le> length hay" "k \<le> d" "edits needle (substring hay s x) k" for s x k
  proof -
    have rx: "?row x \<le> k" using best_at_minimal [OF x(4,2)] .
    then have "?row x \<le> d" using x(3) by simp
    then obtain s' e b where e: "(s', e, b) \<in> set out" "b \<le> ?row x"
      "\<forall>y. min x e \<le> y \<and> y \<le> max x e \<longrightarrow> ?row y \<le> d"
      by (rule one_per_run_cover [OF out(2) x(1,2)])
    have "e \<le> length hay" using out(2) e(1) by (auto simp: one_per_run_def)
    then have "\<exists>t c. c \<le> d \<and> edits needle (substring hay t y) c" if "min x e \<le> y \<and> y \<le> max x e" for y
      using that e(3) near [of y] x(2) by (auto simp: max_def split: if_splits)
    then show ?thesis using e(1,2) rx by (intro bexI [of _ "(s', e, b)"]) auto
  qed
  have "sorted_wrt (\<lambda>(s, e, k) (s', e', k'). \<exists>y. e < y \<and> y < e' \<and> (\<forall>t c. edits needle (substring hay t y) c \<longrightarrow> d < c)) out"
  proof (rule sorted_wrt_mono_rel)
    show "sorted_wrt (\<lambda>(s, e, b) (s', e', b'). \<exists>y. e < y \<and> y < e' \<and> d < ?row y) out"
      using out(2) by (simp add: one_per_run_def)
    fix p q assume p: "p \<in> set out" "q \<in> set out"
      "(\<lambda>(s, e, b) (s', e', b'). \<exists>y. e < y \<and> y < e' \<and> d < ?row y) p q"
    obtain s e k s' e' k' where pq: "p = (s, e, k)" "q = (s', e', k')" by (metis prod_cases3)
    then obtain y where y: "e < y" "y < e'" "d < ?row y" using p(3) by auto
    have "e' \<le> length hay" using out(2) p(2) pq by (auto simp: one_per_run_def)
    then have "d < c" if "edits needle (substring hay t y) c" for t c
      using best_at_minimal [OF that] y by simp
    then show "(\<lambda>(s, e, k) (s', e', k'). \<exists>y. e < y \<and> y < e'
        \<and> (\<forall>t c. edits needle (substring hay t y) c \<longrightarrow> d < c)) p q"
      using y pq by auto
  qed
  then show ?thesis using out(1) found by blast
qed

theorem fuzzy_spans_complete_witness:
  "\<exists>out. fuzzy_spans [1, 2, 3] [9, 1, 3, 9] 1 = Some out \<and> (\<exists>(s, e, k) \<in> set out. k \<le> 1)"
proof -
  let ?n = "[1, 2, 3] :: bytes" and ?h = "[9, 1, 3, 9] :: bytes"
  have "edits ([] @ [1]) ([] @ [1]) 0" by (intro edits_match edits_empty)
  then have "edits (([] @ [1]) @ [2]) ([] @ [1]) (Suc 0)" by (rule edits_drop)
  then have "edits ((([] @ [1]) @ [2]) @ [3]) (([] @ [1]) @ [3 :: u8]) (Suc 0)" by (rule edits_match)
  then have e: "edits ?n (substring ?h 1 3) 1" by (simp add: substring_def)
  obtain out where out: "fuzzy_spans ?n ?h 1 = Some out"
    and all: "\<forall>s x k. 1 \<le> x \<and> x \<le> length ?h \<and> k \<le> 1 \<and> edits ?n (substring ?h s x) k \<longrightarrow>
        (\<exists>(s', e, k') \<in> set out. k' \<le> k \<and>
           (\<forall>y. min x e \<le> y \<and> y \<le> max x e \<longrightarrow> (\<exists>t c. c \<le> 1 \<and> edits ?n (substring ?h t y) c)))"
    by (rule exE [OF fuzzy_spans_complete [of ?n ?h 1]], simp, elim conjE) (rule that)
  have "\<exists>(s', e, k') \<in> set out. k' \<le> 1 \<and>
      (\<forall>y. min 3 e \<le> y \<and> y \<le> max 3 e \<longrightarrow> (\<exists>t c. c \<le> 1 \<and> edits ?n (substring ?h t y) c))"
    by (rule all [rule_format, of 3 1 1]) (use e in simp)
  then show ?thesis using out by blast
qed

end
