(* ===== verification/Myers.thy ===== *)
theory Myers
  imports FuzzySpans
begin

text \<open>
  The fast rows of \<open>src/src/suffix_fst/briques/fuzzy_spans.rs\<close>: the bit-parallel column update
  computes the vertical and horizontal differences of the recurrence, so \<open>last_row\<close> is the last row
  of the matrix, \<open>within_distance\<close> is the emptiness test of \<open>fuzzy_spans\<close>, and the scan of long
  texts on local matrices returns what the full matrix returns.
\<close>

section \<open>Carries\<close>

text \<open>The carry into bit \<open>n\<close> of a sum.\<close>

primrec carry :: "'a::len word \<Rightarrow> 'a word \<Rightarrow> nat \<Rightarrow> bool" where
  "carry a b 0 = False"
| "carry a b (Suc n) = ((bit a n \<and> bit b n) \<or> (bit a n \<or> bit b n) \<and> carry a b n)"

lemma take_bit_Suc_nat: "take_bit (Suc n) (x :: nat) = take_bit n x + (if bit x n then 2 ^ n else 0)"
  by (simp add: take_bit_Suc_from_most)

lemma bit_unat: "bit (unat w) n \<longleftrightarrow> bit w n"
  by (auto simp: bit_unsigned_iff dest: bit_imp_le_length)

lemma carry_take_bit:
  "carry a b n \<longleftrightarrow> 2 ^ n \<le> take_bit n (unat a) + take_bit n (unat b)"
proof (induction n)
  case (Suc n)
  define x y p where "x = take_bit n (unat a)" and "y = take_bit n (unat b)" and "p = (2 :: nat) ^ n"
  have "x < p" "y < p" by (simp_all add: x_def y_def p_def)
  then show ?case
    unfolding carry.simps Suc take_bit_Suc_nat bit_unat power_Suc x_def [symmetric] y_def [symmetric] p_def [symmetric]
    by (cases "bit a n"; cases "bit b n") auto
qed simp

lemma bit_add_nat: "bit (x + y) n \<longleftrightarrow> (bit x n \<noteq> (bit y n \<noteq> (2 ^ n \<le> take_bit n x + take_bit n (y :: nat))))"
proof -
  define u v p where "u = take_bit n x" and "v = take_bit n y" and "p = (2 :: nat) ^ n"
  have uv: "u < p" "v < p" by (simp_all add: u_def v_def p_def)
  have "(u + v) div p = (if p \<le> u + v then 1 else 0)"
    using uv div_nat_eqI [of p 1 "u + v"] by simp
  moreover have "(x + y) div p = x div p + y div p + (u + v) div p"
    using div_add1_eq [of x y p] by (simp add: u_def v_def p_def take_bit_eq_mod)
  ultimately have "(x + y) div p = x div p + y div p + (if p \<le> u + v then 1 else 0)" by simp
  then show ?thesis
    unfolding bit_iff_odd u_def [symmetric] v_def [symmetric] p_def [symmetric] by auto
qed

lemma bit_add_carry:
  assumes "n < LENGTH('a)"
  shows "bit (a + b :: 'a::len word) n \<longleftrightarrow> (bit a n \<noteq> (bit b n \<noteq> carry a b n))"
proof -
  have "unat (a + b) = take_bit LENGTH('a) (unat a + unat b)"
    by (simp add: unat_word_ariths take_bit_eq_mod)
  then have "bit (a + b) n \<longleftrightarrow> bit (unat a + unat b) n"
    using assms by (metis bit_unat bit_take_bit_iff)
  then show ?thesis by (simp add: bit_add_nat bit_unat carry_take_bit)
qed

section \<open>One cell\<close>

text \<open>The horizontal and vertical differences out of a cell, from those into it.\<close>

lemma cell_deltas:
  assumes n: "n = min (min (h + 1) (v + 1)) (x + (if e then 0 else 1 :: nat))"
    and "h \<le> x + 1" "x \<le> h + 1" "v \<le> x + 1" "x \<le> v + 1"
  shows "n + 1 = v \<longleftrightarrow> v = x + 1 \<and> (e \<or> h + 1 = x)"
    and "n = v + 1 \<longleftrightarrow> v + 1 = x \<or> \<not> ((e \<or> h + 1 = x) \<or> v = x + 1)"
    and "n = h + 1 \<longleftrightarrow> h + 1 = x \<or> \<not> ((e \<or> v + 1 = x) \<or> h = x + 1)"
    and "n + 1 = h \<longleftrightarrow> h = x + 1 \<and> (e \<or> v + 1 = x)"
  using assms by (cases e; auto simp: min_def)+

lemma dist_neighbours:
  "dist E i (Suc j) \<le> dist E i j + 1" "dist E i j \<le> dist E i (Suc j) + 1"
  "dist E (Suc i) j \<le> dist E i j + 1" "dist E i j \<le> dist E (Suc i) j + 1"
  using dist_steps [of E i j] by blast+

section \<open>One column\<close>

definition vertical :: "(nat \<Rightarrow> nat \<Rightarrow> bool) \<Rightarrow> nat \<Rightarrow> u64 \<Rightarrow> u64 \<Rightarrow> bool" where
  "vertical E j pv mv \<longleftrightarrow>
     (\<forall>i < 64. (bit pv i \<longleftrightarrow> dist E (Suc i) j = dist E i j + 1) \<and> (bit mv i \<longleftrightarrow> dist E (Suc i) j + 1 = dist E i j))"

definition horizontal :: "(nat \<Rightarrow> nat \<Rightarrow> bool) \<Rightarrow> nat \<Rightarrow> u64 \<Rightarrow> u64 \<Rightarrow> bool" where
  "horizontal E j ph mh \<longleftrightarrow>
     (\<forall>i < 64. (bit ph i \<longleftrightarrow> dist E (Suc i) (Suc j) = dist E (Suc i) j + 1)
             \<and> (bit mh i \<longleftrightarrow> dist E (Suc i) (Suc j) + 1 = dist E (Suc i) j))"

lemma vertical_start: "vertical E 0 (NOT 0) 0"
  by (simp add: vertical_def bit_simps dist_column)

text \<open>The carries of \<open>(eq & pv) + pv\<close> are the decreases along the row above.\<close>

lemma carry_decrease:
  assumes v: "vertical E j pv mv" and eq: "\<And>i. i < 64 \<Longrightarrow> bit eq i \<longleftrightarrow> E i j" and "i \<le> 64"
  shows "carry (eq AND pv) pv i \<longleftrightarrow> dist E i (Suc j) + 1 = dist E i j"
  using assms(3)
proof (induction i)
  case (Suc i)
  have "carry (eq AND pv) pv (Suc i) \<longleftrightarrow> bit pv i \<and> (bit eq i \<or> carry (eq AND pv) pv i)"
    by (auto simp: bit_and_iff)
  also have "... \<longleftrightarrow> dist E (Suc i) j = dist E i j + 1 \<and> (E i j \<or> dist E i (Suc j) + 1 = dist E i j)"
    using Suc v eq [of i] by (simp add: vertical_def)
  finally show ?case using cell_deltas(1) [OF dist.simps(3) [of E i j] dist_neighbours] by blast
qed simp

lemma bit_xh:
  assumes "vertical E j pv mv" and "\<And>i. i < 64 \<Longrightarrow> bit eq i \<longleftrightarrow> E i j" and "i < 64"
  shows "bit ((((eq AND pv) + pv) XOR pv) OR eq) i \<longleftrightarrow> E i j \<or> dist E i (Suc j) + 1 = dist E i j"
  using carry_decrease [OF assms(1,2), of i] assms(2) [of i] assms(3) bit_add_carry [of i "eq AND pv" pv]
  by (auto simp: bit_or_iff bit_xor_iff bit_and_iff)

lemma myers_step_horizontal:
  assumes v: "vertical E j pv mv" and eq: "\<And>i. i < 64 \<Longrightarrow> bit eq i \<longleftrightarrow> E i j"
    and step: "myers_step eq pv mv = (pv', mv', ph, mh)"
  shows "horizontal E j ph mh"
  unfolding horizontal_def
proof (intro allI impI)
  fix i :: nat assume i: "i < 64"
  note vi = v [unfolded vertical_def, rule_format, OF i]
    and d = cell_deltas [OF dist.simps(3) [of E i j] dist_neighbours]
  have ph: "ph = mv OR NOT (((((eq AND pv) + pv) XOR pv) OR eq) OR pv)"
    and mh: "mh = pv AND ((((eq AND pv) + pv) XOR pv) OR eq)"
    using step by (simp_all add: myers_step_def Let_def)
  show "(bit ph i \<longleftrightarrow> dist E (Suc i) (Suc j) = dist E (Suc i) j + 1)
      \<and> (bit mh i \<longleftrightarrow> dist E (Suc i) (Suc j) + 1 = dist E (Suc i) j)"
    unfolding ph mh d(1,2) bit_or_iff [of mv] bit_and_iff [of pv] bit_not_iff
    using vi i bit_xh [OF v eq i] by (simp add: bit_or_iff [of _ pv])
qed

lemma myers_step_vertical:
  assumes v: "vertical E j pv mv" and eq: "\<And>i. i < 64 \<Longrightarrow> bit eq i \<longleftrightarrow> E i j"
    and step: "myers_step eq pv mv = (pv', mv', ph, mh)"
  shows "vertical E (Suc j) pv' mv'"
  unfolding vertical_def
proof (intro allI impI)
  fix i :: nat assume i: "i < 64"
  note hor = myers_step_horizontal [OF v eq step]
  note vi = v [unfolded vertical_def, rule_format, OF i]
    and d = cell_deltas [OF dist.simps(3) [of E i j] dist_neighbours]
  have pv': "pv' = push_bit 1 mh OR NOT ((eq OR mv) OR push_bit 1 ph)" and mv': "mv' = push_bit 1 ph AND (eq OR mv)"
    using step by (auto simp: myers_step_def Let_def)
  have hi: "(bit (push_bit 1 ph) i \<longleftrightarrow> dist E i (Suc j) = dist E i j + 1)
      \<and> (bit (push_bit 1 mh) i \<longleftrightarrow> dist E i (Suc j) + 1 = dist E i j)"
  proof (cases i)
    case (Suc k)
    then have "k < 64" using i by simp
    then show ?thesis
      using hor [unfolded horizontal_def, rule_format, of k] i unfolding Suc bit_push_bit_iff by (simp del: dist.simps)
  qed (simp add: bit_push_bit_iff del: One_nat_def push_bit_of_1)
  show "(bit pv' i \<longleftrightarrow> dist E (Suc i) (Suc j) = dist E i (Suc j) + 1)
      \<and> (bit mv' i \<longleftrightarrow> dist E (Suc i) (Suc j) + 1 = dist E i (Suc j))"
    unfolding pv' mv' d(3,4) bit_or_iff bit_and_iff bit_not_iff using hi vi i eq [OF i] by simp
qed

section \<open>The rows\<close>

lemma push_bit_1_iff: "k < 64 \<Longrightarrow> bit (push_bit k 1 :: u64) i \<longleftrightarrow> i = k"
  unfolding bit_push_bit_iff by (cases "i < k"; cases "i = k") (auto simp: bit_1_iff)

lemma and_mask_nonzero: "k < 64 \<Longrightarrow> (x :: u64) AND push_bit k 1 \<noteq> 0 \<longleftrightarrow> bit x k"
proof -
  assume k: "k < 64"
  have "bit (x AND push_bit k 1) i \<longleftrightarrow> i = k \<and> bit x k" for i
    unfolding bit_and_iff push_bit_1_iff [OF k] by blast
  then show "x AND push_bit k 1 \<noteq> 0 \<longleftrightarrow> bit x k" 
    by (auto simp: bit_eq_iff [of _ 0] bit_0_eq k)
qed

lemma peq_table_bit:
  assumes "length needle \<le> 64"
  shows "bit (peq_table needle ! unat c) i \<longleftrightarrow> i < length needle \<and> needle ! i = c"
proof -
  let ?f = "\<lambda>i peq. let b = unat (needle ! i) in peq[b := peq ! b OR push_bit i (1 :: u64)]"
  let ?P = "\<lambda>k (peq :: u64 list). length peq = 256 \<and> (\<forall>(c :: u8) i. bit (peq ! unat c) i \<longleftrightarrow> i < k \<and> needle ! i = c)"
  have u: "unat (c :: u8) < 256" for c using unsigned_less [of c] by simp
  have "?P (length needle) (fold ?f [0..<length needle] (replicate 256 0))"
  proof (rule fold_upt_invariant [where P = ?P])
    fix k peq assume k: "k < length needle" "?P k peq"
    have "bit (?f k peq ! unat c) i \<longleftrightarrow> i < Suc k \<and> needle ! i = c" for c i
    proof (cases "c = needle ! k")
      case True
      then show ?thesis
        using k assms u [of c] push_bit_1_iff [of k i] by (auto simp: Let_def bit_or_iff less_Suc_eq)
    next
      case False
      then have "unat (needle ! k) \<noteq> unat c" by (simp add: word_eq_iff_unsigned [where ?'a = nat])
      then show ?thesis using k False by (auto simp: Let_def less_Suc_eq)
    qed
    then show "?P (Suc k) (?f k peq)" using k by (simp add: Let_def)
  qed (use u in simp_all)
  then show ?thesis by (simp add: peq_table_def)
qed

text \<open>The match predicate the table encodes, on all 64 rows; the rows past the needle match nothing.\<close>

definition matches :: "bytes \<Rightarrow> bytes \<Rightarrow> nat \<Rightarrow> nat \<Rightarrow> bool" where
  "matches needle hay i j \<longleftrightarrow> i < length needle \<and> needle ! i = hay ! j"

lemma dist_matches: "i \<le> length needle \<Longrightarrow> dist (matches needle hay) i j = D needle hay i j"
  unfolding D_def by (rule dist_cong) (simp add: matches_def)

lemma matches_peq:
  assumes "length needle \<le> 64"
  shows "bit (peq_table needle ! unat (hay ! j)) i \<longleftrightarrow> matches needle hay i j"
  using peq_table_bit [OF assms] by (simp add: matches_def)

lemma drop_ConsD:
  assumes "drop j xs = c # cs"
  shows "j < length xs" and "c = xs ! j" and "cs = drop (Suc j) xs"
proof -
  show j: "j < length xs" using assms by (cases "j < length xs") auto
  show "c = xs ! j" "cs = drop (Suc j) xs" using Cons_nth_drop_Suc [OF j] assms by auto
qed

text \<open>What one column does to the score, in terms of the last row.\<close>

lemma myers_score:
  assumes "length needle \<le> 64" and "needle \<noteq> []" and "vertical (matches needle hay) j pv mv"
    and "myers_step (peq_table needle ! unat (hay ! j)) pv mv = (pv', mv', ph, mh)"
  shows "vertical (matches needle hay) (Suc j) pv' mv'"
    and "ph AND push_bit (length needle - 1) 1 \<noteq> 0 \<longleftrightarrow> best_at needle hay (Suc j) = best_at needle hay j + 1"
    and "mh AND push_bit (length needle - 1) 1 \<noteq> 0 \<longleftrightarrow> best_at needle hay (Suc j) + 1 = best_at needle hay j"
proof -
  note eq = matches_peq [OF assms(1), of hay j]
  show "vertical (matches needle hay) (Suc j) pv' mv'" by (rule myers_step_vertical [OF assms(3) eq assms(4)])
  obtain k where k: "length needle = Suc k" using assms(2) by (cases needle) auto
  have d: "dist (matches needle hay) (Suc k) i = best_at needle hay i" for i
    using dist_matches [of "Suc k" needle hay i] k by simp
  have k64: "k < 64" using k assms(1) by simp
  note hk = myers_step_horizontal [OF assms(3) eq assms(4), unfolded horizontal_def, rule_format, OF k64, unfolded d]
  have k': "length needle - 1 = k" using k by simp
  show "ph AND push_bit (length needle - 1) 1 \<noteq> 0 \<longleftrightarrow> best_at needle hay (Suc j) = best_at needle hay j + 1"
    "mh AND push_bit (length needle - 1) 1 \<noteq> 0 \<longleftrightarrow> best_at needle hay (Suc j) + 1 = best_at needle hay j"
    unfolding k' and_mask_nonzero [OF k64] using hk by blast+
qed

lemma best_at_steps:
  "best_at needle hay (Suc j) \<noteq> best_at needle hay j + 1 \<Longrightarrow> best_at needle hay (Suc j) + 1 \<noteq> best_at needle hay j
     \<Longrightarrow> best_at needle hay (Suc j) = best_at needle hay j"
  using dist_neighbours(1,2) [of "\<lambda>i j. needle ! i = hay ! j" "length needle" j] unfolding D_def by linarith

lemma myers_row_best:
  assumes "length needle \<le> 64" and "needle \<noteq> []" and "vertical (matches needle hay) j pv mv"
    and "cs = drop j hay" and "j \<le> length hay"
  shows "myers_row (peq_table needle) (push_bit (length needle - 1) 1) pv mv (best_at needle hay j) cs
       = map (best_at needle hay) [Suc j..<Suc (length hay)]"
  using assms(3-5)
proof (induction cs arbitrary: j pv mv)
  case (Cons c cs)
  obtain pv' mv' ph mh where step: "myers_step (peq_table needle ! unat c) pv mv = (pv', mv', ph, mh)"
    by (metis prod_cases4)
  note j = drop_ConsD [OF Cons.prems(2) [symmetric]]
  note s = myers_score [OF assms(1,2) Cons.prems(1) step [unfolded j(2)]]
  have score: "(if ph AND push_bit (length needle - 1) 1 \<noteq> 0 then best_at needle hay j + 1
      else if mh AND push_bit (length needle - 1) 1 \<noteq> 0 then best_at needle hay j - 1 else best_at needle hay j)
      = best_at needle hay (Suc j)"
    unfolding s(2,3) using best_at_steps [of needle hay j] by auto
  have "[Suc j..<Suc (length hay)] = Suc j # [Suc (Suc j)..<Suc (length hay)]" using j(1) by (simp add: upt_conv_Cons)
  then show ?case
    using Cons.IH [OF s(1) j(3)] j(1) step
    by (simp only: myers_row.simps prod.case Let_def score list.map)
qed simp

text \<open>Above the budget, only a decrease can reach it: the early exit of \<open>within_distance\<close> misses nothing.\<close>

lemma myers_within_best:
  assumes "length needle \<le> 64" and "needle \<noteq> []" and "vertical (matches needle hay) j pv mv"
    and "cs = drop j hay" and "j \<le> length hay" and "d < best_at needle hay j"
  shows "myers_within (peq_table needle) (push_bit (length needle - 1) 1) pv mv (best_at needle hay j) d cs
       \<longleftrightarrow> (\<exists>e > j. e \<le> length hay \<and> best_at needle hay e \<le> d)"
  using assms(3-6)
proof (induction cs arbitrary: j pv mv)
  case (Cons c cs)
  obtain pv' mv' ph mh where step: "myers_step (peq_table needle ! unat c) pv mv = (pv', mv', ph, mh)"
    by (metis prod_cases4)
  note j = drop_ConsD [OF Cons.prems(2) [symmetric]]
  note s = myers_score [OF assms(1,2) Cons.prems(1) step [unfolded j(2)]]
  have later: "(\<exists>e > j. e \<le> length hay \<and> best_at needle hay e \<le> d)
      \<longleftrightarrow> best_at needle hay (Suc j) \<le> d \<or> (\<exists>e > Suc j. e \<le> length hay \<and> best_at needle hay e \<le> d)"
    using j(1) by (metis Suc_leI Suc_lessD Suc_lessI lessI)
  have IH: "myers_within (peq_table needle) (push_bit (length needle - 1) 1) pv' mv' (best_at needle hay (Suc j)) d cs
      \<longleftrightarrow> (\<exists>e > j. e \<le> length hay \<and> best_at needle hay e \<le> d)" if "d < best_at needle hay (Suc j)"
    using Cons.IH [OF s(1) j(3) _ that] j(1) that unfolding later by auto
  consider (up) "best_at needle hay (Suc j) = best_at needle hay j + 1"
    | (down) "best_at needle hay (Suc j) \<noteq> best_at needle hay j + 1" "best_at needle hay (Suc j) + 1 = best_at needle hay j"
    | (same) "best_at needle hay (Suc j) \<noteq> best_at needle hay j + 1" "best_at needle hay (Suc j) + 1 \<noteq> best_at needle hay j"
        "best_at needle hay (Suc j) = best_at needle hay j"
    using best_at_steps [of needle hay j] by blast
  then show ?case
  proof cases
    case up
    then show ?thesis unfolding myers_within.simps step prod.case s(2) using IH Cons.prems(4) by simp
  next
    case down
    have "best_at needle hay j - 1 = best_at needle hay (Suc j)" using down(2) by simp
    then show ?thesis
      unfolding myers_within.simps step prod.case s(2) s(3) if_not_P [OF down(1)] if_P [OF down(2)]
      using IH later by (cases "best_at needle hay (Suc j) \<le> d") auto
  next
    case same
    then show ?thesis
      unfolding myers_within.simps step prod.case s(2) s(3) if_not_P [OF same(1)] if_not_P [OF same(2)]
      using IH Cons.prems(4) by simp
  qed
qed auto

section \<open>Column by column\<close>

definition column :: "bytes \<Rightarrow> bytes \<Rightarrow> nat \<Rightarrow> nat list" where
  "column needle hay j = map (\<lambda>i. D needle hay i j) [0..<length needle + 1]"

lemma col_step_column:
  assumes "j < length hay"
  shows "col_step needle (hay ! j) (column needle hay j) = column needle hay (Suc j)"
proof -
  let ?m = "length needle" and ?D = "D needle hay"
  let ?f = "\<lambda>i (diag, col). let left = col ! i; v = cell (needle ! (i - 1)) (hay ! j) (col ! (i - 1)) left diag
            in (left, col[i := v])"
  let ?P = "\<lambda>i (diag, col). diag = ?D (i - 1) j \<and> length col = ?m + 1
      \<and> (\<forall>a \<le> ?m. col ! a = (if a < i then ?D a (Suc j) else ?D a j))"
  have nth: "column needle hay x ! a = ?D a x" if "a \<le> ?m" for a x
    using that nth_map [of a "[0..<?m + 1]"] by (simp add: column_def del: upt_Suc)
  have "?P (?m + 1) (fold ?f [1..<?m + 1] (0, column needle hay j))"
  proof (rule fold_upt_invariant [where P = ?P])
    show "?P 1 (0, column needle hay j)" using nth by (auto simp: column_def)
  next
    fix i s assume i: "1 \<le> i" "i < ?m + 1" and P: "?P i s"
    obtain diag col where s: "s = (diag, col)" by (cases s)
    obtain k where k: "i = Suc k" using i(1) by (cases i) auto
    have c: "diag = ?D k j" "col ! k = ?D k (Suc j)" "col ! i = ?D i j" "length col = ?m + 1"
      using P i k s by auto
    then have "cell (needle ! (i - 1)) (hay ! j) (col ! (i - 1)) (col ! i) diag = ?D i (Suc j)"
      by (simp add: k cell_def)
    then have f: "?f i s = (?D i j, col[i := ?D i (Suc j)])" using c(3) by (simp add: s Let_def)
    show "?P (Suc i) (?f i s)" unfolding f using P i c(4) by (auto simp: s less_Suc_eq nth_list_update)
  qed simp
  then have "length (col_step needle (hay ! j) (column needle hay j)) = ?m + 1
      \<and> (\<forall>a \<le> ?m. col_step needle (hay ! j) (column needle hay j) ! a = ?D a (Suc j))"
    unfolding col_step_def by (auto split: prod.splits)
  then show ?thesis using nth by (intro nth_equalityI) (auto simp: column_def)
qed

lemma col_rows_best:
  assumes "hbs = drop j hay" and "j \<le> length hay"
  shows "col_rows needle (column needle hay j) hbs = map (best_at needle hay) [Suc j..<Suc (length hay)]"
  using assms
proof (induction hbs arbitrary: j)
  case (Cons hb hbs)
  note j = drop_ConsD [OF Cons.prems(1) [symmetric]]
  have "[Suc j..<Suc (length hay)] = Suc j # [Suc (Suc j)..<Suc (length hay)]" using j(1) by (simp add: upt_conv_Cons)
  moreover have "column needle hay (Suc j) ! length needle = best_at needle hay (Suc j)"
    using nth_map [of "length needle" "[0..<length needle + 1]"] by (simp add: column_def del: upt_Suc)
  ultimately show ?case
    using Cons.IH [OF j(3)] j(1) col_step_column [OF j(1), of needle] by (simp add: j(2) Let_def del: upt_Suc)
qed simp

lemma last_row_best: "last_row needle hay = map (best_at needle hay) [0..<Suc (length hay)]"
proof -
  have split: "map (best_at needle hay) [0..<Suc (length hay)]
      = length needle # map (best_at needle hay) [Suc 0..<Suc (length hay)]"
    by (simp add: upt_conv_Cons D_column del: upt_Suc)
  have zero: "[0..<length needle + 1] = column needle hay 0"
    by (simp add: column_def D_column del: upt_Suc) 
  consider "needle = []" | (short) "needle \<noteq> []" "length needle \<le> 64" | (long) "needle \<noteq> []" "64 < length needle"
    by linarith
  then show ?thesis
  proof cases
    case 1
    then show ?thesis by (simp add: last_row_def map_replicate_const del: upt_Suc)
  next
    case short
    then show ?thesis
      unfolding split
      using myers_row_best [OF short(2,1) vertical_start [of "matches needle hay"], of hay]
      by (simp add: last_row_def Let_def D_column del: upt_Suc)
  next
    case long
    then show ?thesis
      unfolding split using col_rows_best [of hay 0 hay needle] zero by (simp add: last_row_def Let_def del: upt_Suc)
  qed
qed

section \<open>Local matrices\<close>

text \<open>
  The window of a local traceback: the columns of \<open>hay[s0..]\<close> up to \<open>ln\<close>. A position is inside when
  the cells it reads depend on no byte before the window, now and after every edit it can still pay for.
\<close>

definition inside :: "bytes \<Rightarrow> bytes \<Rightarrow> nat \<Rightarrow> nat \<Rightarrow> nat \<Rightarrow> bool" where
  "inside needle hay s0 i x \<longleftrightarrow> s0 = 0 \<or> 2 * i + D needle hay i (s0 + x) + 1 \<le> x"

lemma local_cell:
  assumes win: "text = take ln (drop s0 hay)" and fits: "s0 + ln \<le> length hay"
    and "i \<le> length needle" and "x \<le> ln" and "s0 = 0 \<or> 2 * i \<le> x"
  shows "D needle text i x = D needle hay i (s0 + x)"
  using D_take [OF assms(4), of needle "drop s0 hay" i] D_drop [OF assms(3) _ assms(5)] fits assms(4) win by simp

lemma local_step:
  assumes win: "text = take ln (drop s0 hay)" and fits: "s0 + ln \<le> length hay"
    and "0 < i" and "i \<le> length needle" and "x \<le> ln" and "inside needle hay s0 i x"
  shows "D_step needle hay i (s0 + x) = map_option (\<lambda>(i', x'). (i', s0 + x')) (D_step needle text i x)"
proof -
  have c: "D needle text i x = D needle hay i (s0 + x)" "D needle text (i - 1) x = D needle hay (i - 1) (s0 + x)"
    using assms by (intro local_cell [OF win fits]; auto simp: inside_def)+
  have d: "D needle text (i - 1) (x - 1) = D needle hay (i - 1) (s0 + (x - 1))"
    using assms by (intro local_cell [OF win fits]) (auto simp: inside_def)
  have pos: "0 < s0 + x \<longleftrightarrow> 0 < x" using assms(6) by (auto simp: inside_def)
  have pred: "s0 + x - 1 = s0 + (x - 1)" and byte: "text ! (x - 1) = hay ! (s0 + (x - 1))" if "0 < x"
    using that assms(5) fits win by simp_all
  show ?thesis
  proof (cases "0 < x")
    case True
    then show ?thesis unfolding D_step_def c d pos pred [OF True] byte [OF True] by simp
  next
    case False
    then show ?thesis using pos unfolding D_step_def c by simp
  qed
qed

lemma local_traceback:
  assumes win: "text = take ln (drop s0 hay)" and fits: "s0 + ln \<le> length hay"
    and "i \<le> length needle" and "x \<le> ln" and "inside needle hay s0 i x"
  shows "map_option (\<lambda>e. s0 + e) (traceback needle text (dp_matrix needle text) (ln + 1) i x)
       = traceback needle hay (dp_matrix needle hay) (length hay + 1) i (s0 + x)"
  using assms(3-5)
proof (induction "i + x" arbitrary: i x rule: less_induct)
  case less
  let ?l = "traceback needle text (dp_matrix needle text) (ln + 1)"
    and ?g = "traceback needle hay (dp_matrix needle hay) (length hay + 1)"
  have len: "length text = ln" using win fits by simp
  show ?case
  proof (cases "i = 0")
    case True
    then show ?thesis by (simp add: traceback.simps)
  next
    case False
    then have i: "0 < i" by simp
    have sx: "s0 + x \<le> length hay" using less.prems(2) fits by simp
    have go: "map_option (\<lambda>e. s0 + e) (?l i x) = ?g i (s0 + x)"
      if step: "D_step needle hay i (s0 + x) = Some (i', s0 + x')" and "i' \<le> i" "x' \<le> x" "i' + x' < i + x"
        and "inside needle hay s0 i' x'" for i' x'
    proof -
      have "D_step needle text i x = Some (i', x')"
        using local_step [OF win fits i less.prems] step by (auto simp: map_option_case split: option.splits)
      then have "?l i x = ?l i' x'"
        using traceback_eq [OF i less.prems(1), of x "text" i' x'] less.prems(2) len by simp
      moreover have "?g i (s0 + x) = ?g i' (s0 + x')" by (rule traceback_eq [OF i less.prems(1) sx step])
      ultimately show ?thesis using less.hyps [of i' x'] that(2-5) less.prems(1,2) by simp
    qed
    have pos: "0 < x" if "0 < s0 + x" using that less.prems(3) by (auto simp: inside_def)
    show ?thesis
    proof (rule D_step_cases [OF i, of "s0 + x" needle hay], goal_cases)
      case 1
      then show ?case using pos [OF 1(1)] i less.prems(3) by (intro go [of "i - 1" "x - 1"]) (auto simp: inside_def)
    next
      case 2
      then show ?case using i less.prems(3) by (intro go [of "i - 1" x]) (auto simp: inside_def)
    next
      case 3
      then show ?case using pos [OF 3(1)] i less.prems(3) by (intro go [of "i - 1" "x - 1"]) (auto simp: inside_def)
    next
      case 4
      then show ?case using pos [OF 4(1)] i less.prems(3) by (intro go [of i "x - 1"]) (auto simp: inside_def)
    qed
  qed
qed

lemma local_start_at:
  assumes "e \<le> length hay" and "best_at needle hay e \<le> d"
  shows "local_start needle hay d e = start_at needle hay e"
proof -
  let ?s0 = "e - (2 * length needle + d + 1)"
  have "map_option (\<lambda>x. ?s0 + x) (traceback needle (take (e - ?s0) (drop ?s0 hay))
      (dp_matrix needle (take (e - ?s0) (drop ?s0 hay))) (e - ?s0 + 1) (length needle) (e - ?s0))
    = traceback needle hay (dp_matrix needle hay) (length hay + 1) (length needle) (?s0 + (e - ?s0))"
    by (rule local_traceback [OF refl]) (use assms in \<open>auto simp: inside_def\<close>)
  then show ?thesis by (simp add: local_start_def Let_def)
qed

section \<open>Properties\<close>

text \<open>
  C20.  The bit-parallel row (64 needle bytes or fewer) and the column-by-column row (more) are the last
  row of the full matrix: the vertical and horizontal difference words of every column agree with it.
\<close>

theorem last_row_correct:
  "last_row needle hay
     = map (\<lambda>j. dp_matrix needle hay ! (length needle * (length hay + 1) + j)) [0..<length hay + 1]"
  unfolding last_row_best Suc_eq_plus1 by (rule map_cong [OF refl], subst dp_matrix_cell) auto

text \<open>
  C21.  \<open>within_distance\<close>, which keeps no row and stops at the first offset that proves it, answers
  exactly whether \<open>fuzzy_spans\<close> finds an occurrence.
\<close>

theorem within_distance_correct: "within_distance needle hay d \<longleftrightarrow> fuzzy_spans needle hay d \<noteq> Some []"
proof (cases "needle = [] \<or> hay = []")
  case True
  then show ?thesis using fuzzy_spans_empty [OF True, of d] by (auto simp: within_distance_def)
next
  case False
  then have ne: "needle \<noteq> []" "hay \<noteq> []" by auto
  obtain out where out: "fuzzy_spans needle hay d = Some out"
    and runs: "one_per_run (best_at needle hay) (length hay) d (start_at needle hay) 1 out"
    using fuzzy_spans_runs [OF ne] by blast
  have "out \<noteq> [] \<longleftrightarrow> (\<exists>e > 0. e \<le> length hay \<and> best_at needle hay e \<le> d)"
  proof
    assume "out \<noteq> []"
    then obtain s e b where "(s, e, b) \<in> set out" by (metis list.set_intros(1) neq_Nil_conv prod_cases3)
    then have "b = best_at needle hay e \<and> b \<le> d \<and> 1 \<le> e \<and> e \<le> length hay"
      using runs [unfolded one_per_run_def, THEN conjunct1] by auto
    then show "\<exists>e > 0. e \<le> length hay \<and> best_at needle hay e \<le> d" by (intro exI [of _ e]) simp
  next
    assume "\<exists>e > 0. e \<le> length hay \<and> best_at needle hay e \<le> d"
    then obtain e where e: "0 < e" "e \<le> length hay" "best_at needle hay e \<le> d" by blast
    then have "1 \<le> e" by simp
    from one_per_run_cover [OF runs this e(2,3)] show "out \<noteq> []" by force
  qed
  moreover have "within_distance needle hay d \<longleftrightarrow> (\<exists>e > 0. e \<le> length hay \<and> best_at needle hay e \<le> d)"
  proof -
    consider "length needle \<le> d" | (short) "d < length needle" "length needle \<le> 64" | (long) "d < length needle" "64 < length needle"
      by linarith
    then show ?thesis
    proof cases
      case 1
      then have "best_at needle hay 1 \<le> d" using dist_le_row order_trans unfolding D_def by blast
      moreover have "1 \<le> length hay" using ne(2) by (cases hay) auto
      ultimately show ?thesis using ne 1 by (auto simp: within_distance_def intro!: exI [of _ 1])
    next
      case short
      then show ?thesis
        using ne myers_within_best [OF short(2) ne(1) vertical_start [of "matches needle hay"], of hay d]
        by (simp add: within_distance_def Let_def D_column)
    next
      case long
      have "drop 1 (last_row needle hay) = map (best_at needle hay) [1..<Suc (length hay)]"
        unfolding last_row_best by (simp add: drop_map del: upt_Suc)
      then show ?thesis
        using ne long by (auto simp: within_distance_def list_ex_iff Suc_le_eq simp del: upt_Suc)
    qed
  qed
  ultimately show ?thesis using out by simp
qed

text \<open>
  C22.  The scan of a text of any length, on the fast row and on local matrices of the columns a
  traceback can reach, returns exactly the spans of the full matrix, whatever the cell threshold.
\<close>

theorem fuzzy_spans_long_correct:
  "fuzzy_spans_long_above needle hay d full_cells = fuzzy_spans needle hay d
   \<and> fuzzy_spans_long needle hay d = fuzzy_spans needle hay d"
proof -
  have "fuzzy_spans_long_above needle hay d cells = fuzzy_spans needle hay d" for cells
  proof (cases "needle = [] \<or> hay = []")
    case True
    then show ?thesis using fuzzy_spans_empty [OF True, of d] by (auto simp: fuzzy_spans_long_above_def)
  next
    case False
    then have ne: "needle \<noteq> []" "hay \<noteq> []" by auto
    have "scan (\<lambda>j. last_row needle hay ! j) (length hay) d (local_start needle hay d) 1
        = scan (best_at needle hay) (length hay) d (start_at needle hay) 1"
    proof (rule scan_cong)
      have row: "last_row needle hay ! e = best_at needle hay e" if "e \<le> length hay" for e
        using that nth_map [of e "[0..<Suc (length hay)]"] by (simp add: last_row_best del: upt_Suc)
      fix e assume e: "1 \<le> e" "e \<le> length hay"
      show "last_row needle hay ! e = best_at needle hay e" by (rule row [OF e(2)])
      show "local_start needle hay d e = start_at needle hay e" if "last_row needle hay ! e \<le> d"
        using that local_start_at [OF e(2)] row [OF e(2)] by simp
    qed simp
    then show ?thesis
      using ne fuzzy_spans_scan [OF ne, of d] by (simp add: fuzzy_spans_long_above_def Let_def)
  qed
  then show ?thesis by (simp add: fuzzy_spans_long_def)
qed

end
