(* ===== verification/Dag.thy ===== *)
theory Dag
  imports Complex_Main Prelude
begin

text \<open>
  The task graph of \<open>src/luciole/src/dag.rs\<close>, with the ports of \<open>port.rs\<close> and the node interface of
  \<open>node.rs\<close>: construction with checked connections, the levels of the topological sort, validation.

  A \<open>Box<dyn Node>\<close> is a state of type \<open>'n\<close> together with the dictionary \<open>Node\<close> of the trait's
  operations, so the model is parametric in what a node computes: a function of its state and inputs, with an error or
  a result. A node that panics, as \<open>PortValue::take\<close> does while the value has other references, is outside of it. Values on ports have type \<open>'v\<close>,
  captured undo contexts type \<open>'u\<close>. The decrement of an in-degree at zero, which Rust reports as an
  overflow, is the outcome \<open>None\<close>.
\<close>

section \<open>Ports and nodes\<close>

datatype PortType = Typed nat | Trigger | Any_type

fun compatible_with :: "PortType \<Rightarrow> PortType \<Rightarrow> bool" where
  "compatible_with Any_type _ = True"
| "compatible_with _ Any_type = True"
| "compatible_with Trigger Trigger = True"
| "compatible_with (Typed a) (Typed b) = (a = b)"
| "compatible_with _ _ = False"

record PortDef =
  pd_name :: string
  port_type :: PortType
  required :: bool

datatype LogLevel = Debug | Info | Warn | Error

record NodeResult =
  metrics :: "(string \<times> real) list"
  logs :: "(LogLevel \<times> string) list"

text \<open>
  The trait: \<open>execute\<close> reads the inputs of its context and returns the next state of the node with an
  error or with the outputs, metrics and logs left in the context.
\<close>

record ('n, 'v, 'u) Node =
  node_type :: "'n \<Rightarrow> string"
  inputs :: "'n \<Rightarrow> PortDef list"
  outputs :: "'n \<Rightarrow> PortDef list"
  execute :: "'n \<Rightarrow> (string \<rightharpoonup> 'v) \<Rightarrow> 'n \<times> (string + (string \<rightharpoonup> 'v) \<times> NodeResult)"
  can_undo :: "'n \<Rightarrow> bool"
  undo_context :: "'n \<Rightarrow> 'u option"
  undo :: "'n \<Rightarrow> 'u \<Rightarrow> 'n \<times> (string + unit)"

section \<open>The graph\<close>

record DagEdge =
  from_node :: string
  from_port :: string
  to_node :: string
  to_port :: string

record 'n DagNodeEntry =
  ne_name :: string
  ne_node :: 'n

record ('n, 'v) Dag =
  nodes :: "'n DagNodeEntry list"
  edges :: "DagEdge list"
  initial_inputs :: "string \<times> string \<rightharpoonup> 'v"

datatype dag_error =
    NodeNotFound string
  | NoOutputPort string string
  | NoInputPort string string
  | PortTypeMismatch DagEdge
  | UnknownNode string
  | CycleDetected
  | InputNotConnected string string

definition dag_new :: "('n, 'v) Dag" where
  "dag_new = \<lparr>nodes = [], edges = [], initial_inputs = Map.empty\<rparr>"

definition set_initial_input :: "string \<Rightarrow> string \<Rightarrow> 'v \<Rightarrow> ('n, 'v) Dag \<Rightarrow> ('n, 'v) Dag" where
  "set_initial_input node port v dag = dag\<lparr>initial_inputs := (initial_inputs dag)((node, port) \<mapsto> v)\<rparr>"

definition add_node :: "string \<Rightarrow> 'n \<Rightarrow> ('n, 'v) Dag \<Rightarrow> ('n, 'v) Dag" where
  "add_node name node dag = dag\<lparr>nodes := nodes dag @ [\<lparr>ne_name = name, ne_node = node\<rparr>]\<rparr>"

definition find_node :: "('n, 'v) Dag \<Rightarrow> string \<Rightarrow> 'n DagNodeEntry option" where
  "find_node dag name = List.find (\<lambda>e. ne_name e = name) (nodes dag)"

definition find_output_port_type :: "('n, 'v, 'u) Node \<Rightarrow> 'n \<Rightarrow> string \<Rightarrow> PortType option" where
  "find_output_port_type ops node port = map_option port_type (List.find (\<lambda>p. pd_name p = port) (outputs ops node))"

definition find_input_port_type :: "('n, 'v, 'u) Node \<Rightarrow> 'n \<Rightarrow> string \<Rightarrow> PortType option" where
  "find_input_port_type ops node port = map_option port_type (List.find (\<lambda>p. pd_name p = port) (inputs ops node))"

definition connect :: "('n, 'v, 'u) Node \<Rightarrow> string \<Rightarrow> string \<Rightarrow> string \<Rightarrow> string \<Rightarrow> ('n, 'v) Dag \<Rightarrow> dag_error + ('n, 'v) Dag" where
  "connect ops fn fp tn tp dag =
     (case find_node dag fn of
        None \<Rightarrow> Inl (NodeNotFound fn)
      | Some f \<Rightarrow> (case find_node dag tn of
          None \<Rightarrow> Inl (NodeNotFound tn)
        | Some t \<Rightarrow> (case find_output_port_type ops (ne_node f) fp of
            None \<Rightarrow> Inl (NoOutputPort fn fp)
          | Some from_type \<Rightarrow> (case find_input_port_type ops (ne_node t) tp of
              None \<Rightarrow> Inl (NoInputPort tn tp)
            | Some to_type \<Rightarrow>
                (let e = \<lparr>from_node = fn, from_port = fp, to_node = tn, to_port = tp\<rparr> in
                 if \<not> compatible_with from_type to_type then Inl (PortTypeMismatch e)
                 else Inr (dag\<lparr>edges := edges dag @ [e]\<rparr>))))))"

fun chain :: "('n, 'v, 'u) Node \<Rightarrow> string list \<Rightarrow> ('n, 'v) Dag \<Rightarrow> ('n, 'v) Dag \<times> (dag_error + unit)" where
  "chain ops (a # b # names) dag =
     (case connect ops a ''done'' b ''trigger'' dag of
        Inl e \<Rightarrow> (dag, Inl e)
      | Inr dag' \<Rightarrow> chain ops (b # names) dag')"
| "chain ops _ dag = (dag, Inr ())"

section \<open>Topological levels\<close>

definition name_to_idx :: "'n DagNodeEntry list \<Rightarrow> string \<rightharpoonup> nat" where
  "name_to_idx ns = fold (\<lambda>(i, e) m. m(ne_name e \<mapsto> i)) (enumerate 0 ns) Map.empty"

fun link_edges :: "(string \<rightharpoonup> nat) \<Rightarrow> DagEdge list \<Rightarrow> nat list \<Rightarrow> nat list list
    \<Rightarrow> dag_error + nat list \<times> nat list list" where
  "link_edges ix [] in_degree dependents = Inr (in_degree, dependents)"
| "link_edges ix (e # es) in_degree dependents =
     (case ix (from_node e) of
        None \<Rightarrow> Inl (UnknownNode (from_node e))
      | Some from \<Rightarrow> (case ix (to_node e) of
          None \<Rightarrow> Inl (UnknownNode (to_node e))
        | Some to \<Rightarrow>
            if to \<in> set (dependents ! from) then link_edges ix es in_degree dependents
            else link_edges ix es (in_degree[to := in_degree ! to + 1]) (dependents[from := dependents ! from @ [to]])))"

text \<open>One node of the current level: its dependents lose a predecessor, the freed ones are pushed.\<close>

fun relax :: "nat list \<Rightarrow> nat list \<times> nat list \<Rightarrow> (nat list \<times> nat list) exec" where
  "relax [] s = Some s"
| "relax (dep # deps) (in_degree, nxt) =
     (if in_degree ! dep = 0 then None
      else (let in_degree = in_degree[dep := in_degree ! dep - 1]
            in relax deps (in_degree, if in_degree ! dep = 0 then nxt @ [dep] else nxt)))"

fun relax_level :: "nat list list \<Rightarrow> nat list \<Rightarrow> nat list \<times> nat list \<Rightarrow> (nat list \<times> nat list) exec" where
  "relax_level dependents [] s = Some s"
| "relax_level dependents (node_idx # current) s =
     (case relax (dependents ! node_idx) s of None \<Rightarrow> None | Some s' \<Rightarrow> relax_level dependents current s')"

text \<open>Every push takes one node with a positive in-degree away: the outer loop stops.\<close>

definition positives :: "nat list \<Rightarrow> nat" where
  "positives in_degree = card {i. i < length in_degree \<and> 0 < in_degree ! i}"

lemma relax_positives:
  "relax ds (deg, nxt) = Some (deg', nxt') \<Longrightarrow> positives deg' + length nxt' = positives deg + length nxt"
proof (induction ds arbitrary: deg nxt)
  case (Cons d ds)
  let ?deg = "deg[d := deg ! d - 1]"
  have pos: "deg ! d \<noteq> 0" and r: "relax ds (?deg, if ?deg ! d = 0 then nxt @ [d] else nxt) = Some (deg', nxt')"
    using Cons.prems by (auto simp: Let_def split: if_splits)
  have "positives ?deg + (if ?deg ! d = 0 then 1 else 0) = positives deg"
  proof (cases "d < length deg")
    case True
    show ?thesis
    proof (cases "deg ! d = 1")
      case one: True
      have "{i. i < length ?deg \<and> 0 < ?deg ! i} = {i. i < length deg \<and> 0 < deg ! i} - {d}"
        using one True by (auto simp: nth_list_update)
      moreover have "d \<in> {i. i < length deg \<and> 0 < deg ! i}" using True one by simp
      ultimately have "positives ?deg + 1 = positives deg"
        using card_Suc_Diff1 [of "{i. i < length deg \<and> 0 < deg ! i}" d] by (simp add: positives_def)
      then show ?thesis using one True by simp
    next
      case False
      have "{i. i < length ?deg \<and> 0 < ?deg ! i} = {i. i < length deg \<and> 0 < deg ! i}"
        using pos True False by (auto simp: nth_list_update)
      then show ?thesis using pos False True by (simp add: positives_def)
    qed
  qed (use pos in \<open>simp add: positives_def list_update_beyond\<close>)
  then show ?case using Cons.IH [OF r] by (auto split: if_splits)
qed simp

lemma relax_level_positives:
  "relax_level deps current (deg, nxt) = Some (deg', nxt') \<Longrightarrow> positives deg' + length nxt' = positives deg + length nxt"
proof (induction current arbitrary: deg nxt)
  case (Cons u us)
  then obtain d1 n1 where "relax (deps ! u) (deg, nxt) = Some (d1, n1)" "relax_level deps us (d1, n1) = Some (deg', nxt')"
    by (auto split: option.splits)
  then show ?case using relax_positives Cons.IH by metis
qed simp

function kahn :: "nat list list \<Rightarrow> nat list \<Rightarrow> nat list \<Rightarrow> nat \<Rightarrow> nat list list \<Rightarrow> (nat \<times> nat list list) exec" where
  "kahn dependents in_degree current visited levels =
     (if current = [] then Some (visited, levels)
      else (case relax_level dependents current (in_degree, []) of
              None \<Rightarrow> None
            | Some (in_degree', nxt) \<Rightarrow> kahn dependents in_degree' nxt (visited + length current) (levels @ [current])))"
  by pat_completeness auto
termination
proof (relation "measure (\<lambda>(dependents, in_degree, current, visited, levels).
    2 * positives in_degree + (if current = [] then 0 else 1))", goal_cases)
  case (2 dependents in_degree current visited levels s in_degree' nxt)
  then show ?case using relax_level_positives [of dependents current in_degree "[]" in_degree' nxt]
    by (cases nxt) auto
qed simp

declare kahn.simps [simp del]

definition topological_levels :: "('n, 'v) Dag \<Rightarrow> (dag_error + nat list list) exec" where
  "topological_levels dag =
     (let n = length (nodes dag) in
      if n = 0 then Some (Inr [])
      else (case link_edges (name_to_idx (nodes dag)) (edges dag) (replicate n 0) (replicate n []) of
              Inl e \<Rightarrow> Some (Inl e)
            | Inr (in_degree, dependents) \<Rightarrow>
                (case kahn dependents in_degree (filter (\<lambda>i. in_degree ! i = 0) [0..<n]) 0 [] of
                   None \<Rightarrow> None
                 | Some (visited, levels) \<Rightarrow> Some (if visited \<noteq> n then Inl CycleDetected else Inr levels))))"

section \<open>Validation\<close>

fun first_missing :: "DagEdge list \<Rightarrow> string \<Rightarrow> PortDef list \<Rightarrow> string option" where
  "first_missing es name [] = None"
| "first_missing es name (p # ps) =
     (if required p \<and> (name, pd_name p) \<notin> set (map (\<lambda>e. (to_node e, to_port e)) es) then Some (pd_name p)
      else first_missing es name ps)"

fun check_inputs :: "('n, 'v, 'u) Node \<Rightarrow> DagEdge list \<Rightarrow> 'n DagNodeEntry list \<Rightarrow> dag_error + unit" where
  "check_inputs ops es [] = Inr ()"
| "check_inputs ops es (n # ns) =
     (case first_missing es (ne_name n) (inputs ops (ne_node n)) of
        Some port \<Rightarrow> Inl (InputNotConnected (ne_name n) port)
      | None \<Rightarrow> check_inputs ops es ns)"

definition validate :: "('n, 'v, 'u) Node \<Rightarrow> ('n, 'v) Dag \<Rightarrow> (dag_error + unit) exec" where
  "validate ops dag =
     (case topological_levels dag of
        None \<Rightarrow> None
      | Some (Inl e) \<Rightarrow> Some (Inl e)
      | Some (Inr _) \<Rightarrow> Some (check_inputs ops (edges dag) (nodes dag)))"

section \<open>What the sort computes\<close>

text \<open>The dependency relation on node indices, and the layers of a graph.\<close>

definition edge_rel :: "('n, 'v) Dag \<Rightarrow> (nat \<times> nat) set" where
  "edge_rel dag = {(i, j). \<exists>e \<in> set (edges dag).
     name_to_idx (nodes dag) (from_node e) = Some i \<and> name_to_idx (nodes dag) (to_node e) = Some j}"

text \<open>
  Every predecessor of a node is in an earlier layer, and a node that is not in the first layer has a
  predecessor in the layer just before: it could not have been placed earlier.
\<close>

definition layered :: "(nat \<times> nat) set \<Rightarrow> nat list list \<Rightarrow> bool" where
  "layered E levels \<longleftrightarrow>
     (\<forall>k < length levels. levels ! k \<noteq> [] \<and> (\<forall>v \<in> set (levels ! k).
        (\<forall>u. (u, v) \<in> E \<longrightarrow> u \<in> set (concat (take k levels)))
        \<and> (0 < k \<longrightarrow> (\<exists>u \<in> set (levels ! (k - 1)). (u, v) \<in> E))))"

lemma layered_snoc:
  assumes "layered E levels" and "current \<noteq> []"
    and "\<And>v u. v \<in> set current \<Longrightarrow> (u, v) \<in> E \<Longrightarrow> u \<in> set (concat levels)"
    and "\<And>v. v \<in> set current \<Longrightarrow> levels \<noteq> [] \<Longrightarrow> \<exists>u \<in> set (last levels). (u, v) \<in> E"
  shows "layered E (levels @ [current])"
  unfolding layered_def
proof (intro allI impI)
  fix k assume k: "k < length (levels @ [current])"
  show "(levels @ [current]) ! k \<noteq> [] \<and> (\<forall>v \<in> set ((levels @ [current]) ! k).
      (\<forall>u. (u, v) \<in> E \<longrightarrow> u \<in> set (concat (take k (levels @ [current]))))
      \<and> (0 < k \<longrightarrow> (\<exists>u \<in> set ((levels @ [current]) ! (k - 1)). (u, v) \<in> E)))"
  proof (cases "k < length levels")
    case True
    then have "k - 1 < length levels" by simp
    then show ?thesis using assms(1) [unfolded layered_def] True by (simp add: nth_append)
  next
    case False
    then have "k = length levels" using k by simp
    then show ?thesis using assms(2-4) by (auto simp: nth_append last_conv_nth)
  qed
qed

lemma layered_acyclic:
  assumes "layered E levels" and "\<And>u v. (u, v) \<in> E \<Longrightarrow> v \<in> set (concat levels)"
  shows "acyclic E"
proof -
  define f where "f v = (LEAST k. v \<in> set (concat (take k levels)))" for v
  have "(u, v) \<in> measure f" if e: "(u, v) \<in> E" for u v
  proof -
    have "v \<in> set (concat (take (length levels) levels))" using assms(2) [OF e] by simp
    then have v: "v \<in> set (concat (take (f v) levels))" unfolding f_def by (rule LeastI)
    obtain k where k: "f v = Suc k" using v by (cases "f v") auto
    have "v \<notin> set (concat (take k levels))" 
      using not_less_Least [of k "\<lambda>k. v \<in> set (concat (take k levels))", folded f_def] k by simp
    then have "k < length levels \<and> v \<in> set (levels ! k)"
      using v unfolding k by (cases "k < length levels") (auto simp: take_Suc_conv_app_nth)
    then have "u \<in> set (concat (take k levels))" using assms(1) e unfolding layered_def by blast
    then have "f u \<le> k" unfolding f_def by (rule Least_le)
    then show ?thesis using k by simp
  qed
  then show ?thesis by (intro wf_acyclic wf_subset [OF wf_measure [of f]]) auto
qed

lemma name_to_idx_snoc: "name_to_idx (ns @ [e]) = (name_to_idx ns)(ne_name e \<mapsto> length ns)"
  by (simp add: name_to_idx_def enumerate_append_eq)

lemma name_to_idx_Nil [simp]: "name_to_idx [] = Map.empty"
  by (simp add: name_to_idx_def)

lemma name_to_idx_Some: "name_to_idx ns s = Some i \<Longrightarrow> i < length ns \<and> ne_name (ns ! i) = s"
  by (induction ns arbitrary: i rule: rev_induct) (auto simp: name_to_idx_snoc nth_append split: if_splits)

lemma name_to_idx_ran: "ran (name_to_idx ns) \<subseteq> {..<length ns}"
  by (auto simp: ran_def dest: name_to_idx_Some)

lemma name_to_idx_None: "name_to_idx ns s = None \<longleftrightarrow> s \<notin> ne_name ` set ns"
  by (induction ns rule: rev_induct) (auto simp: name_to_idx_snoc)

lemma name_to_idx_distinct:
  assumes "distinct (map ne_name ns)" and "i < length ns"
  shows "name_to_idx ns (ne_name (ns ! i)) = Some i"
proof -
  obtain j where j: "name_to_idx ns (ne_name (ns ! i)) = Some j"
    using assms(2) name_to_idx_None [of ns "ne_name (ns ! i)"] by auto
  then have "j < length ns" "map ne_name ns ! j = map ne_name ns ! i"
    using name_to_idx_Some [OF j] assms(2) by auto
  then have "j = i" using assms nth_eq_iff_index_eq [of "map ne_name ns" j i] by simp
  then show ?thesis using j by simp
qed

lemma edge_rel_range: "edge_rel dag \<subseteq> {..<length (nodes dag)} \<times> {..<length (nodes dag)}"
  by (auto simp: edge_rel_def dest: name_to_idx_Some)

section \<open>Adjacency\<close>

definition linked :: "nat \<Rightarrow> (nat \<times> nat) set \<Rightarrow> nat list \<Rightarrow> nat list list \<Rightarrow> bool" where
  "linked n E deg deps \<longleftrightarrow> length deg = n \<and> length deps = n
     \<and> (\<forall>u < n. distinct (deps ! u) \<and> set (deps ! u) = {v. (u, v) \<in> E})
     \<and> (\<forall>v < n. deg ! v = card {u. u < n \<and> (u, v) \<in> E})"

lemma linked_insert:
  assumes l: "linked n E deg deps" and "u < n" "v < n" and new: "v \<notin> set (deps ! u)"
  shows "linked n (insert (u, v) E) (deg[v := deg ! v + 1]) (deps[u := deps ! u @ [v]])"
proof -
  have uv: "(u, v) \<notin> E" using l assms(2) new by (auto simp: linked_def)
  have "card {x. x < n \<and> (x, v) \<in> insert (u, v) E} = card {x. x < n \<and> (x, v) \<in> E} + 1"
  proof -
    have "{x. x < n \<and> (x, v) \<in> insert (u, v) E} = insert u {x. x < n \<and> (x, v) \<in> E}" using assms(2) by auto
    then show ?thesis using uv by simp
  qed
  moreover have "{x. x < n \<and> (x, w) \<in> insert (u, v) E} = {x. x < n \<and> (x, w) \<in> E}" if "w \<noteq> v" for w
    using that by auto
  ultimately show ?thesis
    using l assms(2,3) new by (auto simp: linked_def nth_list_update)
qed

lemma link_edges_spec:
  assumes "linked n E deg deps" and "ran ix \<subseteq> {..<n}"
  shows "case link_edges ix es deg deps of
      Inr (deg', deps') \<Rightarrow> (\<forall>e \<in> set es. ix (from_node e) \<noteq> None \<and> ix (to_node e) \<noteq> None)
        \<and> linked n (E \<union> {(i, j). \<exists>e \<in> set es. ix (from_node e) = Some i \<and> ix (to_node e) = Some j}) deg' deps'
    | Inl x \<Rightarrow> \<exists>e \<in> set es. \<exists>s. x = UnknownNode s \<and> (s = from_node e \<or> s = to_node e) \<and> ix s = None"
  using assms(1)
proof (induction es arbitrary: E deg deps)
  case (Cons e es)
  show ?case
  proof (cases "ix (from_node e)")
    case None
    then show ?thesis by auto
  next
    case (Some u)
    note u = this
    show ?thesis
    proof (cases "ix (to_node e)")
      case None
      then show ?thesis using u by auto
    next
      case (Some v)
      have uv: "u < n" "v < n" using assms(2) u Some by (auto intro: ranI)
      have rel: "{(i, j). \<exists>e' \<in> set (e # es). ix (from_node e') = Some i \<and> ix (to_node e') = Some j}
          = insert (u, v) {(i, j). \<exists>e' \<in> set es. ix (from_node e') = Some i \<and> ix (to_node e') = Some j}"
        using u Some by auto
      show ?thesis
      proof (cases "v \<in> set (deps ! u)")
        case True
        then have "(u, v) \<in> E" using Cons.prems uv by (auto simp: linked_def)
        then have "E \<union> insert (u, v) R = E \<union> R" for R by auto
        then show ?thesis using Cons.IH [OF Cons.prems] True u Some unfolding rel by (auto split: sum.splits)
      next
        case False
        then show ?thesis
          using Cons.IH [OF linked_insert [OF Cons.prems uv False]] u Some rel by (auto split: sum.splits)
      qed
    qed
  qed
qed auto

lemma linked_empty: "linked n {} (replicate n 0) (replicate n [])"
  by (simp add: linked_def)

section \<open>The loop\<close>

lemma relax_append: "relax (xs @ ys) s = (case relax xs s of None \<Rightarrow> None | Some s' \<Rightarrow> relax ys s')"
  by (induction xs s rule: relax.induct) (auto simp: Let_def)

lemma relax_level_concat: "relax_level deps us s = relax (concat (map ((!) deps) us)) s"
  by (induction us arbitrary: s) (auto simp: relax_append split: option.splits)

lemma relax_spec:
  assumes "\<And>d. d \<in> set ds \<Longrightarrow> d < length deg" and "\<And>v. v < length deg \<Longrightarrow> count_list ds v \<le> deg ! v"
  shows "\<exists>deg' nx. relax ds (deg, nxt) = Some (deg', nxt @ nx) \<and> length deg' = length deg
    \<and> (\<forall>v < length deg. deg' ! v = deg ! v - count_list ds v)
    \<and> distinct nx \<and> set nx = {v \<in> set ds. deg ! v = count_list ds v}"
  using assms
proof (induction ds arbitrary: deg nxt)
  case (Cons d ds)
  let ?deg = "deg[d := deg ! d - 1]"
  let ?nxt = "if ?deg ! d = 0 then nxt @ [d] else nxt"
  have d: "d < length deg" using Cons.prems(1) by simp
  then have pos: "Suc (count_list ds d) \<le> deg ! d" using Cons.prems(2) [of d] by simp
  have count: "count_list ds v \<le> ?deg ! v" if "v < length deg" for v
    using Cons.prems(2) [OF that] d by (cases "v = d") simp_all
  obtain deg' nx where r: "relax ds (?deg, ?nxt) = Some (deg', ?nxt @ nx)" "length deg' = length ?deg"
    "\<forall>v < length deg. deg' ! v = ?deg ! v - count_list ds v" "distinct nx"
    "set nx = {v \<in> set ds. ?deg ! v = count_list ds v}"
  proof -
    have "d' < length ?deg" if "d' \<in> set ds" for d' using Cons.prems(1) that by simp
    moreover have "count_list ds v \<le> ?deg ! v" if "v < length ?deg" for v using count that by simp
    ultimately show thesis using Cons.IH [of ?deg ?nxt] that unfolding length_list_update by blast
  qed
  have step: "relax (d # ds) (deg, nxt) = relax ds (?deg, ?nxt)" using pos by (simp add: Let_def)
  have deg': "deg' ! v = deg ! v - count_list (d # ds) v" if "v < length deg" for v
    using r(3) that d by (cases "v = d") auto
  show ?case
  proof (cases "?deg ! d = 0")
    case True
    then have fresh: "d \<notin> set ds" "deg ! d = 1" using count [OF d] pos d by (auto simp: count_list_0_iff)
    have "v \<in> set (d # nx) \<longleftrightarrow> v \<in> set (d # ds) \<and> deg ! v = count_list (d # ds) v" for v
      using r(5) d fresh by (cases "v = d") simp_all
    then have "set (d # nx) = {v \<in> set (d # ds). deg ! v = count_list (d # ds) v}" by blast
    moreover have "distinct (d # nx)" using r(4,5) fresh by auto
    moreover have "relax (d # ds) (deg, nxt) = Some (deg', nxt @ d # nx)" using step r(1) True by simp
    ultimately show ?thesis using r(2) deg' unfolding length_list_update by blast
  next
    case False
    then have "v \<in> set ds \<and> ?deg ! v = count_list ds v \<longleftrightarrow> v \<in> set (d # ds) \<and> deg ! v = count_list (d # ds) v" for v
      using pos d by (cases "v = d") (auto simp: count_list_0_iff)
    then have "set nx = {v \<in> set (d # ds). deg ! v = count_list (d # ds) v}" using r(5) by blast
    moreover have "relax (d # ds) (deg, nxt) = Some (deg', nxt @ nx)" using step r(1) False by simp
    ultimately show ?thesis using r(2,4) deg' unfolding length_list_update by blast
  qed
qed (auto simp: count_list_0_iff)

lemma count_list_distinct: "distinct xs \<Longrightarrow> count_list xs v = (if v \<in> set xs then 1 else 0)"
  by (induction xs) auto

lemma count_dependents:
  assumes l: "linked n E deg deps" and "distinct us" and "set us \<subseteq> {..<n}"
  shows "count_list (concat (map ((!) deps) us)) v = card {u \<in> set us. (u, v) \<in> E}"
  using assms(2,3)
proof (induction us)
  case (Cons u us)
  have "{x \<in> set (u # us). (x, v) \<in> E} = (if (u, v) \<in> E then insert u {x \<in> set us. (x, v) \<in> E} else {x \<in> set us. (x, v) \<in> E})"
    by auto
  moreover have "count_list (deps ! u) v = (if (u, v) \<in> E then 1 else 0)"
    using l Cons.prems by (simp add: linked_def count_list_distinct)
  ultimately show ?case using Cons by auto
qed simp

text \<open>
  The state of the loop: an in-degree counts the predecessors that are not in a finished level, and the
  current level holds exactly the unfinished nodes without one.
\<close>

definition kahn_inv :: "nat \<Rightarrow> (nat \<times> nat) set \<Rightarrow> nat list \<Rightarrow> nat list \<Rightarrow> nat list list \<Rightarrow> bool" where
  "kahn_inv n E deg current levels \<longleftrightarrow> length deg = n
     \<and> distinct (concat levels @ current) \<and> set (concat levels @ current) \<subseteq> {..<n}
     \<and> (\<forall>v < n. deg ! v = card {u. u < n \<and> (u, v) \<in> E \<and> u \<notin> set (concat levels)})
     \<and> (\<forall>v < n. v \<notin> set (concat levels) \<longrightarrow> (v \<in> set current \<longleftrightarrow> deg ! v = 0))
     \<and> layered E levels
     \<and> (\<forall>v \<in> set current. levels \<noteq> [] \<longrightarrow> (\<exists>u \<in> set (last levels). (u, v) \<in> E))"

lemma kahn_invD:
  assumes "kahn_inv n E deg current levels"
  shows "length deg = n" "distinct (concat levels @ current)" "set (concat levels @ current) \<subseteq> {..<n}" "layered E levels"
    and "v < n \<Longrightarrow> deg ! v = card {u. u < n \<and> (u, v) \<in> E \<and> u \<notin> set (concat levels)}"
    and "v < n \<Longrightarrow> v \<notin> set (concat levels) \<Longrightarrow> v \<in> set current \<longleftrightarrow> deg ! v = 0"
    and "v \<in> set current \<Longrightarrow> levels \<noteq> [] \<Longrightarrow> \<exists>u \<in> set (last levels). (u, v) \<in> E"
  using assms unfolding kahn_inv_def by blast+

lemma kahn_inv_preds:
  assumes "kahn_inv n E deg current levels" and "E \<subseteq> {..<n} \<times> {..<n}" and "v \<in> set current" and "(u, v) \<in> E"
  shows "u \<in> set (concat levels)"
proof -
  have "v < n" "v \<notin> set (concat levels)" using assms(1,3) by (auto simp: kahn_inv_def)
  then have "deg ! v = 0" "deg ! v = card {u. u < n \<and> (u, v) \<in> E \<and> u \<notin> set (concat levels)}"
    using assms(1,3) by (auto simp: kahn_inv_def)
  then have "{u. u < n \<and> (u, v) \<in> E \<and> u \<notin> set (concat levels)} = {}" by simp
  then show ?thesis using assms(2,4) by blast
qed

lemma concat_set_nth: "v \<in> set (concat xs) \<longleftrightarrow> (\<exists>k < length xs. v \<in> set (xs ! k))"
  by (induction xs) (auto simp: less_Suc_eq_0_disj)

lemma layered_preds:
  assumes "layered E levels" and "v \<in> set (concat levels)" and "(u, v) \<in> E"
  shows "u \<in> set (concat levels)"
proof -
  obtain k where "k < length levels" "v \<in> set (levels ! k)" 
    using assms(2) by (metis concat_set_nth)
  then have "u \<in> set (concat (take k levels))" using assms(1,3) unfolding layered_def by blast
  then show ?thesis by (auto dest: in_set_takeD)
qed

lemma kahn_step:
  assumes I: "kahn_inv n E deg current levels" and l: "linked n E deg0 deps" and E: "E \<subseteq> {..<n} \<times> {..<n}" and ne: "current \<noteq> []"
  shows "\<exists>deg' nxt. relax_level deps current (deg, []) = Some (deg', nxt) \<and> kahn_inv n E deg' nxt (levels @ [current])"
proof -
  define ds where "ds = concat (map ((!) deps) current)"
  let ?L = "set (concat levels)" and ?C = "set current"
  let ?P = "\<lambda>v. {u. u < n \<and> (u, v) \<in> E \<and> u \<notin> ?L}"
  have C: "distinct current" "?C \<subseteq> {..<n}" "?L \<inter> ?C = {}" using kahn_invD(2,3) [OF I] by auto
  have count: "count_list ds v = card {u \<in> ?C. (u, v) \<in> E}" for v
    unfolding ds_def by (rule count_dependents [OF l C(1,2)])
  have deg: "deg ! v = card (?P v)" if "v < n" for v by (rule kahn_invD(5) [OF I that])
  have sub: "{u \<in> ?C. (u, v) \<in> E} \<subseteq> ?P v" for v using C by auto
  have from_current: "\<exists>u \<in> ?C. (u, v) \<in> E" if "v \<in> set ds" for v
    using that l C(2) by (auto simp: ds_def linked_def)
  note len = kahn_invD(1) [OF I]
  have le: "count_list ds v \<le> deg ! v" if "v < n" for v
    unfolding count deg [OF that] by (rule card_mono) (use sub in auto)
  have range: "d < n" if "d \<in> set ds" for d using from_current [OF that] E by auto
  obtain deg' nxt where r: "relax ds (deg, []) = Some (deg', nxt)" "length deg' = n"
    "\<forall>v < n. deg' ! v = deg ! v - count_list ds v" "distinct nxt" "set nxt = {v \<in> set ds. deg ! v = count_list ds v}"
    using relax_spec [of ds deg "[]"] le range len unfolding append_Nil by blast
  have deg': "deg' ! v = card {u. u < n \<and> (u, v) \<in> E \<and> u \<notin> set (concat (levels @ [current]))}" if "v < n" for v
  proof -
    have "deg' ! v = card (?P v - {u \<in> ?C. (u, v) \<in> E})"
      using r(3) that deg [OF that] count sub by (simp add: card_Diff_subset)
    also have "?P v - {u \<in> ?C. (u, v) \<in> E} = {u. u < n \<and> (u, v) \<in> E \<and> u \<notin> set (concat (levels @ [current]))}" by auto
    finally show ?thesis .
  qed
  have fresh: "v \<notin> ?L \<and> v \<notin> ?C" if "v \<in> set nxt" for v
  proof -
    have "v \<in> set ds" using that unfolding r(5) by simp
    then obtain u where u: "u \<in> ?C" "(u, v) \<in> E" using from_current by blast
    then show ?thesis using layered_preds [OF kahn_invD(4) [OF I], of v u] kahn_inv_preds [OF I E, of v u] C(3) by blast
  qed
  have ready: "v \<in> set nxt \<longleftrightarrow> deg' ! v = 0" if v: "v < n" "v \<notin> set (concat (levels @ [current]))" for v
  proof
    show "v \<in> set nxt \<Longrightarrow> deg' ! v = 0" using r(3,5) v(1) by simp
  next
    assume "deg' ! v = 0"
    then have eq: "deg ! v = count_list ds v" using r(3) v(1) le [OF v(1)] by simp
    have "deg ! v \<noteq> 0" using kahn_invD(6) [OF I v(1)] v(2) by simp
    then have "v \<in> set ds" unfolding eq by (simp add: count_list_0_iff)
    then show "v \<in> set nxt" using r(5) eq by simp
  qed
  have "layered E (levels @ [current])"
    by (rule layered_snoc [OF kahn_invD(4) [OF I] ne]) (use kahn_inv_preds [OF I E] kahn_invD(7) [OF I] in blast)+
  moreover have "\<forall>v \<in> set nxt. \<exists>u \<in> set (last (levels @ [current])). (u, v) \<in> E" using r(5) from_current by simp
  moreover have "distinct (concat (levels @ [current]) @ nxt)"
    using kahn_invD(2) [OF I] fresh r(4) by auto
  moreover have "set nxt \<subseteq> {..<n}" using range unfolding r(5) by auto
  ultimately have "kahn_inv n E deg' nxt (levels @ [current])"
    unfolding kahn_inv_def using r(2) deg' ready kahn_invD(3) [OF I] by simp
  then show ?thesis using r(1) by (simp add: relax_level_concat ds_def)
qed

lemma kahn_run:
  assumes "linked n E deg0 deps" and "E \<subseteq> {..<n} \<times> {..<n}"
  shows "kahn_inv n E deg current levels \<Longrightarrow> visited = length (concat levels) \<Longrightarrow>
    \<exists>deg' levels'. kahn deps deg current visited levels = Some (length (concat levels'), levels') \<and> kahn_inv n E deg' [] levels'"
  using assms
proof (induction deps deg current visited levels rule: kahn.induct)
  case (1 deps deg current visited levels)
  show ?case
  proof (cases "current = []")
    case True
    then show ?thesis using "1.prems" by (subst kahn.simps) auto
  next
    case False
    obtain deg' nxt where r: "relax_level deps current (deg, []) = Some (deg', nxt)"
      and I: "kahn_inv n E deg' nxt (levels @ [current])"
      using kahn_step [OF "1.prems"(1,3,4) False] by blast
    have "visited + length current = length (concat (levels @ [current]))" using "1.prems"(2) by simp
    from "1.IH" [OF False r refl I this "1.prems"(3,4)] show ?thesis using False r by (subst kahn.simps) simp
  qed
qed

lemma kahn_finished:
  assumes I: "kahn_inv n E deg [] levels" and E: "E \<subseteq> {..<n} \<times> {..<n}"
  shows "length (concat levels) = n \<longleftrightarrow> acyclic E" and "length (concat levels) = n \<longleftrightarrow> set (concat levels) = {..<n}"
proof -
  have d: "distinct (concat levels)" "set (concat levels) \<subseteq> {..<n}" "layered E levels" using I by (auto simp: kahn_inv_def)
  have all: "length (concat levels) = n \<longleftrightarrow> set (concat levels) = {..<n}"
    using card_subset_eq [of "{..<n}" "set (concat levels)"] distinct_card [OF d(1)] d(2) by auto
  show "length (concat levels) = n \<longleftrightarrow> set (concat levels) = {..<n}" by (rule all)
  show "length (concat levels) = n \<longleftrightarrow> acyclic E"
  proof
    assume "length (concat levels) = n"
    then show "acyclic E" using layered_acyclic [OF d(3)] all E by blast
  next
    assume "acyclic E"
    then have wf: "wf E" using E by (intro finite_acyclic_wf) (auto intro: finite_subset [OF E])
    show "length (concat levels) = n"
    proof (rule ccontr)
      assume "length (concat levels) \<noteq> n"
      then obtain v where "v \<in> {..<n} - set (concat levels)" using all d(2) by blast
      then obtain z where z: "z < n" "z \<notin> set (concat levels)"
        and min: "\<And>y. (y, z) \<in> E \<Longrightarrow> y \<notin> {..<n} - set (concat levels)"
        by (rule wfE_min [OF wf]) blast
      have "deg ! z \<noteq> 0" using kahn_invD(6) [OF I z] by simp
      moreover have "deg ! z = 0" unfolding kahn_invD(5) [OF I z(1)] using min by (subst card_eq_0_iff) blast
      ultimately show False by simp
    qed
  qed
qed

lemma kahn_start:
  assumes "linked n E deg deps" and "E \<subseteq> {..<n} \<times> {..<n}"
  shows "kahn_inv n E deg (filter (\<lambda>i. deg ! i = 0) [0..<n]) []"
  using assms by (auto simp: kahn_inv_def linked_def layered_def)

text \<open>The sort in one statement, over a graph whose edges name existing nodes.\<close>

definition edges_known :: "('n, 'v) Dag \<Rightarrow> bool" where
  "edges_known dag \<longleftrightarrow> (\<forall>e \<in> set (edges dag). from_node e \<in> ne_name ` set (nodes dag) \<and> to_node e \<in> ne_name ` set (nodes dag))"

definition schedule :: "('n, 'v) Dag \<Rightarrow> nat list list \<Rightarrow> bool" where
  "schedule dag levels \<longleftrightarrow> distinct (concat levels) \<and> set (concat levels) = {..<length (nodes dag)} \<and> layered (edge_rel dag) levels"

lemma levels_known:
  assumes "edges_known dag"
  shows "\<exists>levels. topological_levels dag = Some (if acyclic (edge_rel dag) then Inr levels else Inl CycleDetected)
    \<and> (acyclic (edge_rel dag) \<longrightarrow> schedule dag levels)"
proof (cases "nodes dag = []")
  case True
  then have "edge_rel dag = {}" by (simp add: edge_rel_def)
  then show ?thesis using True by (auto simp: topological_levels_def schedule_def layered_def acyclic_def)
next
  case False
  let ?n = "length (nodes dag)" and ?E = "edge_rel dag" and ?ix = "name_to_idx (nodes dag)"
  note ix = name_to_idx_ran [of "nodes dag"]
  have known: "?ix (from_node e) \<noteq> None \<and> ?ix (to_node e) \<noteq> None" if "e \<in> set (edges dag)" for e
    using assms that unfolding edges_known_def name_to_idx_None by blast
  obtain deg deps where link: "link_edges ?ix (edges dag) (replicate ?n 0) (replicate ?n []) = Inr (deg, deps)"
    and l: "linked ?n ?E deg deps"
  proof (cases "link_edges ?ix (edges dag) (replicate ?n 0) (replicate ?n [])")
    case (Inl x)
    then show thesis using link_edges_spec [OF linked_empty ix, of "edges dag"] known by fastforce
  next
    case (Inr p)
    then show thesis using link_edges_spec [OF linked_empty ix, of "edges dag"] that
      by (cases p) (simp add: edge_rel_def)
  qed
  obtain deg' levels where run: "kahn deps deg (filter (\<lambda>i. deg ! i = 0) [0..<?n]) 0 [] = Some (length (concat levels), levels)"
    and I: "kahn_inv ?n ?E deg' [] levels"
    using kahn_run [OF l edge_rel_range kahn_start [OF l edge_rel_range], of 0] by auto
  note fin = kahn_finished [OF I edge_rel_range]
  have "topological_levels dag = Some (if acyclic ?E then Inr levels else Inl CycleDetected)"
    using False link run fin(1) by (simp add: topological_levels_def)
  moreover have "schedule dag levels" if "acyclic ?E"
    using that fin kahn_invD(2,4) [OF I] by (simp add: schedule_def)
  ultimately show ?thesis by blast
qed

lemma link_edges_names:
  "link_edges ix es degs succs = Inl (UnknownNode s) \<Longrightarrow> \<exists>e \<in> set es. s = from_node e \<or> s = to_node e"
  by (induction ix es degs succs rule: link_edges.induct) (auto split: option.splits if_splits)

lemma levels_unknown:
  assumes "\<not> edges_known dag" and "nodes dag \<noteq> []"
  shows "\<exists>s. topological_levels dag = Some (Inl (UnknownNode s)) \<and> s \<notin> ne_name ` set (nodes dag)
    \<and> (\<exists>e \<in> set (edges dag). s = from_node e \<or> s = to_node e)"
proof -
  let ?n = "length (nodes dag)" and ?ix = "name_to_idx (nodes dag)"
  note spec = link_edges_spec [OF linked_empty name_to_idx_ran, of "edges dag" "nodes dag"]
  have "\<exists>e \<in> set (edges dag). ?ix (from_node e) = None \<or> ?ix (to_node e) = None"
    using assms(1) unfolding edges_known_def name_to_idx_None by blast
  then obtain s where s: "link_edges ?ix (edges dag) (replicate ?n 0) (replicate ?n []) = Inl (UnknownNode s)" "?ix s = None"
    using spec by (cases "link_edges ?ix (edges dag) (replicate ?n 0) (replicate ?n [])") auto
  then show ?thesis using assms(2) link_edges_names [OF s(1)] by (auto simp: topological_levels_def name_to_idx_None)
qed

section \<open>Construction\<close>

text \<open>The graphs the interface builds, and the types its connections have.\<close>

inductive built :: "('n, 'v, 'u) Node \<Rightarrow> ('n, 'v) Dag \<Rightarrow> bool" for ops where
  built_new: "built ops dag_new"
| built_node: "built ops dag \<Longrightarrow> built ops (add_node name node dag)"
| built_input: "built ops dag \<Longrightarrow> built ops (set_initial_input node port v dag)"
| built_edge: "built ops dag \<Longrightarrow> connect ops fn fp tn tp dag = Inr dag' \<Longrightarrow> built ops dag'"

definition typed_edge :: "('n, 'v, 'u) Node \<Rightarrow> ('n, 'v) Dag \<Rightarrow> DagEdge \<Rightarrow> bool" where
  "typed_edge ops dag e \<longleftrightarrow>
     (\<exists>f t p q. find_node dag (from_node e) = Some f \<and> find_node dag (to_node e) = Some t
        \<and> p \<in> set (outputs ops (ne_node f)) \<and> pd_name p = from_port e
        \<and> q \<in> set (inputs ops (ne_node t)) \<and> pd_name q = to_port e
        \<and> compatible_with (port_type p) (port_type q))"

lemma find_name: "List.find (\<lambda>x. f x = s) xs = Some y \<Longrightarrow> y \<in> set xs \<and> f y = s"
  by (auto simp: find_Some_iff)

lemma connect_typed:
  assumes "connect ops fn fp tn tp dag = Inr dag'"
  shows "dag' = dag\<lparr>edges := edges dag @ [\<lparr>from_node = fn, from_port = fp, to_node = tn, to_port = tp\<rparr>]\<rparr>"
    and "typed_edge ops dag \<lparr>from_node = fn, from_port = fp, to_node = tn, to_port = tp\<rparr>"
proof -
  obtain f t a b where c: "find_node dag fn = Some f" "find_node dag tn = Some t"
    "find_output_port_type ops (ne_node f) fp = Some a" "find_input_port_type ops (ne_node t) tp = Some b"
    "compatible_with a b"
    using assms by (auto simp: connect_def Let_def split: option.splits if_splits)
  then show "dag' = dag\<lparr>edges := edges dag @ [\<lparr>from_node = fn, from_port = fp, to_node = tn, to_port = tp\<rparr>]\<rparr>"
    using assms by (simp add: connect_def Let_def)
  obtain p q where "List.find (\<lambda>p. pd_name p = fp) (outputs ops (ne_node f)) = Some p" "a = port_type p"
    "List.find (\<lambda>p. pd_name p = tp) (inputs ops (ne_node t)) = Some q" "b = port_type q"
    using c(3,4) by (auto simp: find_output_port_type_def find_input_port_type_def)
  then show "typed_edge ops dag \<lparr>from_node = fn, from_port = fp, to_node = tn, to_port = tp\<rparr>"
    using c find_name [of pd_name fp _ p] find_name [of pd_name tp _ q] unfolding typed_edge_def
    by (intro exI [of _ f] exI [of _ t] exI [of _ p] exI [of _ q]) simp
qed

lemma find_node_add: "find_node dag s = Some x \<Longrightarrow> find_node (add_node name node dag) s = Some x"
proof -
  have "List.find P xs = Some x \<Longrightarrow> List.find P (xs @ ys) = Some x" for P and xs ys :: "'a DagNodeEntry list"
    by (induction xs) (auto split: if_splits)
  then show "find_node dag s = Some x \<Longrightarrow> find_node (add_node name node dag) s = Some x"
    by (simp add: find_node_def add_node_def)
qed

lemma built_typed: "built ops dag \<Longrightarrow> e \<in> set (edges dag) \<Longrightarrow> typed_edge ops dag e"
proof (induction rule: built.induct)
  case built_new
  then show ?case by (simp add: dag_new_def)
next
  case (built_node dag name node)
  then show ?case using find_node_add unfolding typed_edge_def by (fastforce simp: add_node_def)
next
  case (built_input dag node port v)
  then show ?case by (simp add: typed_edge_def set_initial_input_def find_node_def)
next
  case (built_edge dag fn fp tn tp dag')
  have "find_node dag' = find_node dag"
    unfolding connect_typed(1) [OF built_edge(2)] by (simp add: find_node_def fun_eq_iff)
  then have "typed_edge ops dag' = typed_edge ops dag" by (simp add: typed_edge_def fun_eq_iff)
  then show ?case using built_edge.IH built_edge.prems connect_typed [OF built_edge(2)] by auto
qed

lemma built_known: "built ops dag \<Longrightarrow> edges_known dag"
  unfolding edges_known_def using built_typed [of ops dag] find_name [of ne_name _ "nodes dag"]
  unfolding typed_edge_def find_node_def by (metis imageI)

lemma first_missing_None:
  "first_missing es name ps = None
     \<longleftrightarrow> (\<forall>p \<in> set ps. required p \<longrightarrow> (\<exists>e \<in> set es. to_node e = name \<and> to_port e = pd_name p))"
  by (induction ps) (auto simp: image_iff)

definition inputs_connected :: "('n, 'v, 'u) Node \<Rightarrow> ('n, 'v) Dag \<Rightarrow> bool" where
  "inputs_connected ops dag \<longleftrightarrow>
     (\<forall>n \<in> set (nodes dag). \<forall>p \<in> set (inputs ops (ne_node n)). required p \<longrightarrow>
        (\<exists>e \<in> set (edges dag). to_node e = ne_name n \<and> to_port e = pd_name p))"

lemma check_inputs_ok:
  "check_inputs ops es ns = Inr ()
     \<longleftrightarrow> (\<forall>n \<in> set ns. \<forall>p \<in> set (inputs ops (ne_node n)). required p \<longrightarrow>
            (\<exists>e \<in> set es. to_node e = ne_name n \<and> to_port e = pd_name p))"
  by (induction ns) (auto simp: first_missing_None [symmetric] split: option.splits)

section \<open>Properties\<close>

text \<open>
  C23.  \<open>topological_levels\<close> always returns: no in-degree is decremented below zero and the loop ends.
  On a graph whose edges name existing nodes it returns levels exactly when the graph is acyclic; they
  hold every node once, every node after all its predecessors and as early as that allows. A cycle is
  reported as such. When an edge names a node that does not exist, the error names such an end of an edge;
  only a graph without nodes is sorted, into no levels, without a look at its edges. The four cases exclude
  each other.
\<close>

theorem topological_levels_correct:
  "(edges_known dag \<and> acyclic (edge_rel dag) \<and> (\<exists>levels. topological_levels dag = Some (Inr levels) \<and> schedule dag levels))
   \<or> (edges_known dag \<and> \<not> acyclic (edge_rel dag) \<and> topological_levels dag = Some (Inl CycleDetected))
   \<or> (\<not> edges_known dag \<and> nodes dag = [] \<and> topological_levels dag = Some (Inr []))
   \<or> (\<not> edges_known dag \<and> nodes dag \<noteq> [] \<and> (\<exists>s e. e \<in> set (edges dag) \<and> (s = from_node e \<or> s = to_node e)
        \<and> s \<notin> ne_name ` set (nodes dag) \<and> topological_levels dag = Some (Inl (UnknownNode s))))"
proof (cases "edges_known dag")
  case True
  then show ?thesis using levels_known [OF True] by (cases "acyclic (edge_rel dag)") auto
next
  case False
  show ?thesis
  proof (cases "nodes dag = []")
    case True
    then show ?thesis using False by (simp add: topological_levels_def)
  next
    case nonempty: False
    then show ?thesis using False levels_unknown [OF False nonempty] by blast
  qed
qed

text \<open>
  C24.  A graph built with the interface has only connections from an output port to an input port of
  compatible types; the sort never meets an unknown node; and \<open>validate\<close> accepts it exactly when it is
  acyclic and every required input port has an incoming edge.
\<close>

theorem built_dag_valid:
  assumes "built ops dag"
  shows "list_all (typed_edge ops dag) (edges dag)
    \<and> (\<exists>levels. topological_levels dag = Some (if acyclic (edge_rel dag) then Inr levels else Inl CycleDetected))
    \<and> (validate ops dag = Some (Inr ()) \<longleftrightarrow> acyclic (edge_rel dag) \<and> inputs_connected ops dag)"
proof -
  obtain levels where "topological_levels dag = Some (if acyclic (edge_rel dag) then Inr levels else Inl CycleDetected)"
    using levels_known [OF built_known [OF assms]] by blast
  then show ?thesis
    using built_typed [OF assms]
    by (auto simp: list_all_iff validate_def inputs_connected_def check_inputs_ok [symmetric] split: option.splits sum.splits)
qed

text \<open>Two nodes joined by a typed edge.\<close>

definition pair_ops :: "(nat, nat, unit) Node" where
  "pair_ops = \<lparr>node_type = \<lambda>_. ''pair'',
     inputs = \<lambda>n. if n = 0 then [] else [\<lparr>pd_name = ''in'', port_type = Typed 1, required = True\<rparr>],
     outputs = \<lambda>_. [\<lparr>pd_name = ''out'', port_type = Typed 1, required = True\<rparr>],
     execute = \<lambda>n ins. (n, Inr ([''out'' \<mapsto> n], \<lparr>metrics = [], logs = []\<rparr>)),
     can_undo = \<lambda>_. False, undo_context = \<lambda>_. None, undo = \<lambda>n _. (n, Inl ''undo not supported'')\<rparr>"

definition pair_dag :: "(nat, nat) Dag" where
  "pair_dag = \<lparr>nodes = [\<lparr>ne_name = ''a'', ne_node = 0\<rparr>, \<lparr>ne_name = ''b'', ne_node = 1\<rparr>],
     edges = [\<lparr>from_node = ''a'', from_port = ''out'', to_node = ''b'', to_port = ''in''\<rparr>],
     initial_inputs = Map.empty\<rparr>"

lemma pair_dag_built: "built pair_ops pair_dag"
proof -
  have "connect pair_ops ''a'' ''out'' ''b'' ''in'' (add_node ''b'' 1 (add_node ''a'' 0 dag_new)) = Inr pair_dag"
    by (simp add: connect_def find_node_def add_node_def dag_new_def pair_ops_def pair_dag_def
        find_output_port_type_def find_input_port_type_def Let_def)
  then show ?thesis by (intro built_edge [OF built_node [OF built_node [OF built_new]]])
qed

theorem built_dag_valid_witness:
  "built pair_ops pair_dag \<and> list_all (typed_edge pair_ops pair_dag) (edges pair_dag)
   \<and> (validate pair_ops pair_dag = Some (Inr ()) \<longleftrightarrow> acyclic (edge_rel pair_dag) \<and> inputs_connected pair_ops pair_dag)"
  using built_dag_valid [OF pair_dag_built] pair_dag_built by blast

end
