(* ===== verification/Checkpoint.thy ===== *)
theory Checkpoint
  imports Prelude
begin

text \<open>
  The checkpoint stores of \<open>src/luciole/src/checkpoint.rs\<close>: the interface, the in-memory store and the
  store that keeps one text file per graph. The file system is a map from graph ids to file contents;
  its errors, which the code ignores, and writes cut off within a file are not modelled. The file \<open>{dag_id}.checkpoint\<close> is
  taken to lie in the directory of the store, so different ids are different files.
\<close>

section \<open>The interface\<close>

datatype CheckpointStatus = Running | Completed | Failed

record DagCheckpoint =
  cp_dag_id :: string
  completed_nodes :: "string list"
  failed_node :: "string option"
  cp_error :: "string option"
  status :: CheckpointStatus

definition is_completed :: "DagCheckpoint \<Rightarrow> string \<Rightarrow> bool" where
  "is_completed cp name = list_ex (\<lambda>n. n = name) (completed_nodes cp)"

record 's CheckpointStore =
  save_node_completed :: "string \<Rightarrow> string \<Rightarrow> string \<Rightarrow> 's \<Rightarrow> 's"
  save_node_failed :: "string \<Rightarrow> string \<Rightarrow> string \<Rightarrow> 's \<Rightarrow> 's"
  mark_completed :: "string \<Rightarrow> 's \<Rightarrow> 's"
  mark_failed :: "string \<Rightarrow> string \<Rightarrow> 's \<Rightarrow> 's"
  load :: "string \<Rightarrow> 's \<Rightarrow> DagCheckpoint option"

section \<open>In memory\<close>

record CheckpointData =
  cd_completed :: "(string \<times> string) list"
  cd_failed_node :: "string option"
  cd_error :: "string option"
  cd_status :: CheckpointStatus

type_synonym MemoryCheckpointStore = "string \<rightharpoonup> CheckpointData"

definition mem_entry :: "MemoryCheckpointStore \<Rightarrow> string \<Rightarrow> CheckpointData" where
  "mem_entry data dag_id =
     (case data dag_id of
        Some entry \<Rightarrow> entry
      | None \<Rightarrow> \<lparr>cd_completed = [], cd_failed_node = None, cd_error = None, cd_status = Running\<rparr>)"

definition mem_save_node_completed :: "string \<Rightarrow> string \<Rightarrow> string \<Rightarrow> MemoryCheckpointStore \<Rightarrow> MemoryCheckpointStore" where
  "mem_save_node_completed dag_id name ty data =
     (let entry = mem_entry data dag_id
      in data(dag_id \<mapsto> entry\<lparr>cd_completed := cd_completed entry @ [(name, ty)]\<rparr>))"

definition mem_save_node_failed :: "string \<Rightarrow> string \<Rightarrow> string \<Rightarrow> MemoryCheckpointStore \<Rightarrow> MemoryCheckpointStore" where
  "mem_save_node_failed dag_id name e data =
     (let entry = mem_entry data dag_id
      in data(dag_id \<mapsto> entry\<lparr>cd_failed_node := Some name, cd_error := Some e, cd_status := Failed\<rparr>))"

definition mem_mark_completed :: "string \<Rightarrow> MemoryCheckpointStore \<Rightarrow> MemoryCheckpointStore" where
  "mem_mark_completed dag_id data =
     (case data dag_id of None \<Rightarrow> data | Some entry \<Rightarrow> data(dag_id \<mapsto> entry\<lparr>cd_status := Completed\<rparr>))"

definition mem_mark_failed :: "string \<Rightarrow> string \<Rightarrow> MemoryCheckpointStore \<Rightarrow> MemoryCheckpointStore" where
  "mem_mark_failed dag_id e data =
     (case data dag_id of
        None \<Rightarrow> data
      | Some entry \<Rightarrow> data(dag_id \<mapsto> entry\<lparr>cd_status := Failed, cd_error := Some e\<rparr>))"

definition mem_load :: "string \<Rightarrow> MemoryCheckpointStore \<Rightarrow> DagCheckpoint option" where
  "mem_load dag_id data =
     (case data dag_id of
        None \<Rightarrow> None
      | Some entry \<Rightarrow> Some \<lparr>cp_dag_id = dag_id, completed_nodes = map fst (cd_completed entry),
          failed_node = cd_failed_node entry, cp_error = cd_error entry, status = cd_status entry\<rparr>)"

definition memory_store :: "MemoryCheckpointStore CheckpointStore" where
  "memory_store = \<lparr>save_node_completed = mem_save_node_completed, save_node_failed = mem_save_node_failed,
     mark_completed = mem_mark_completed, mark_failed = mem_mark_failed, load = mem_load\<rparr>"

section \<open>On files\<close>

type_synonym FileCheckpointStore = "string \<rightharpoonup> string"

abbreviation newline :: char where "newline \<equiv> CHR 0x0A"
abbreviation return :: char where "return \<equiv> CHR 0x0D"
abbreviation colon :: char where "colon \<equiv> CHR 0x3A"

text \<open>\<open>lines.join("\n")\<close> and \<open>str::lines\<close>: a terminated line loses its terminator and one \<open>\r\<close> before it.\<close>

fun join_lines :: "string list \<Rightarrow> string" where
  "join_lines [] = []"
| "join_lines [l] = l"
| "join_lines (l # ls) = l @ newline # join_lines ls"

definition strip_cr :: "string \<Rightarrow> string" where
  "strip_cr l = (if l \<noteq> [] \<and> last l = return then butlast l else l)"

function lines_of :: "string \<Rightarrow> string list" where
  "lines_of s =
     (if s = [] then []
      else if newline \<in> set s then
        strip_cr (takeWhile (\<lambda>c. c \<noteq> newline) s) # lines_of (tl (dropWhile (\<lambda>c. c \<noteq> newline) s))
      else [s])"
  by pat_completeness auto
termination
proof (relation "measure length", goal_cases)
  case (2 s)
  then have "dropWhile (\<lambda>c. c \<noteq> newline) s \<noteq> []" by (simp add: dropWhile_eq_Nil_conv)
  then have "length (tl (dropWhile (\<lambda>c. c \<noteq> newline) s)) < length (dropWhile (\<lambda>c. c \<noteq> newline) s)" by simp
  also have "... \<le> length s" by (rule length_dropWhile_le)
  finally show ?case by simp
qed simp

declare lines_of.simps [simp del]

definition write_lines :: "string \<Rightarrow> string list \<Rightarrow> FileCheckpointStore \<Rightarrow> FileCheckpointStore" where
  "write_lines dag_id ls files = files(dag_id \<mapsto> join_lines ls)"

definition read_lines :: "string \<Rightarrow> FileCheckpointStore \<Rightarrow> string list option" where
  "read_lines dag_id files = map_option lines_of (files dag_id)"

definition append_line :: "string \<Rightarrow> string \<Rightarrow> FileCheckpointStore \<Rightarrow> FileCheckpointStore" where
  "append_line dag_id l files =
     write_lines dag_id ((case read_lines dag_id files of None \<Rightarrow> [] | Some ls \<Rightarrow> ls) @ [l]) files"

definition file_save_node_completed :: "string \<Rightarrow> string \<Rightarrow> string \<Rightarrow> FileCheckpointStore \<Rightarrow> FileCheckpointStore" where
  "file_save_node_completed dag_id name ty = append_line dag_id (''COMPLETED:'' @ name @ '':'' @ ty)"

definition file_save_node_failed :: "string \<Rightarrow> string \<Rightarrow> string \<Rightarrow> FileCheckpointStore \<Rightarrow> FileCheckpointStore" where
  "file_save_node_failed dag_id name e = append_line dag_id (''FAILED:'' @ name @ '':'' @ e)"

definition file_mark_completed :: "string \<Rightarrow> FileCheckpointStore \<Rightarrow> FileCheckpointStore" where
  "file_mark_completed dag_id = append_line dag_id ''STATUS:COMPLETED''"

definition file_mark_failed :: "string \<Rightarrow> string \<Rightarrow> FileCheckpointStore \<Rightarrow> FileCheckpointStore" where
  "file_mark_failed dag_id e = append_line dag_id (''STATUS:FAILED:'' @ e)"

fun strip_prefix :: "string \<Rightarrow> string \<Rightarrow> string option" where
  "strip_prefix [] s = Some s"
| "strip_prefix (p # ps) [] = None"
| "strip_prefix (p # ps) (c # cs) = (if p = c then strip_prefix ps cs else None)"

definition parse_line :: "string \<Rightarrow> DagCheckpoint \<Rightarrow> DagCheckpoint" where
  "parse_line line cp =
     (case strip_prefix ''COMPLETED:'' line of
        Some rest \<Rightarrow> cp\<lparr>completed_nodes := completed_nodes cp @ [takeWhile (\<lambda>c. c \<noteq> colon) rest]\<rparr>
      | None \<Rightarrow> (case strip_prefix ''FAILED:'' line of
          Some rest \<Rightarrow> cp\<lparr>failed_node := Some (takeWhile (\<lambda>c. c \<noteq> colon) rest),
            cp_error := (if colon \<in> set rest then Some (tl (dropWhile (\<lambda>c. c \<noteq> colon) rest)) else None),
            status := Failed\<rparr>
        | None \<Rightarrow>
            if line = ''STATUS:COMPLETED'' then cp\<lparr>status := Completed\<rparr>
            else (case strip_prefix ''STATUS:FAILED:'' line of
                    Some rest \<Rightarrow> cp\<lparr>status := Failed, cp_error := Some rest\<rparr>
                  | None \<Rightarrow> cp)))"

definition file_load :: "string \<Rightarrow> FileCheckpointStore \<Rightarrow> DagCheckpoint option" where
  "file_load dag_id files =
     map_option (\<lambda>ls. fold parse_line ls \<lparr>cp_dag_id = dag_id, completed_nodes = [], failed_node = None,
         cp_error = None, status = Running\<rparr>)
       (read_lines dag_id files)"

definition file_store :: "FileCheckpointStore CheckpointStore" where
  "file_store = \<lparr>save_node_completed = file_save_node_completed, save_node_failed = file_save_node_failed,
     mark_completed = file_mark_completed, mark_failed = file_mark_failed, load = file_load\<rparr>"

section \<open>What a store promises\<close>

definition completed_of :: "DagCheckpoint option \<Rightarrow> string list" where
  "completed_of cp = (case cp of None \<Rightarrow> [] | Some c \<Rightarrow> completed_nodes c)"

lemma completed_of_Some [simp]: "completed_of (Some c) = completed_nodes c"
  by (simp add: completed_of_def)

text \<open>
  The contract the runtime relies on: over the states that satisfy \<open>inv\<close> and the names and texts that
  are \<open>ok_name\<close> and \<open>ok_text\<close>, exactly the saved nodes are listed as completed, in order.
\<close>

locale checkpoint_store =
  fixes ops :: "'s CheckpointStore" and inv :: "'s \<Rightarrow> bool" and ok_name ok_text :: "string \<Rightarrow> bool"
  assumes saved: "inv s \<Longrightarrow> ok_name n \<Longrightarrow> ok_text t \<Longrightarrow> inv (save_node_completed ops d n t s)
      \<and> completed_of (load ops d (save_node_completed ops d n t s)) = completed_of (load ops d s) @ [n]"
    and failed: "inv s \<Longrightarrow> ok_name n \<Longrightarrow> ok_text e \<Longrightarrow> inv (save_node_failed ops d n e s)
      \<and> completed_of (load ops d (save_node_failed ops d n e s)) = completed_of (load ops d s)"
    and completed: "inv s \<Longrightarrow> inv (mark_completed ops d s)
      \<and> completed_of (load ops d (mark_completed ops d s)) = completed_of (load ops d s)"
    and aborted: "inv s \<Longrightarrow> ok_text e \<Longrightarrow> inv (mark_failed ops d e s)
      \<and> completed_of (load ops d (mark_failed ops d e s)) = completed_of (load ops d s)"

lemmas memory_defs = memory_store_def mem_save_node_completed_def mem_save_node_failed_def mem_mark_completed_def
  mem_mark_failed_def mem_load_def mem_entry_def

interpretation mem: checkpoint_store memory_store "\<lambda>_. True" "\<lambda>_. True" "\<lambda>_. True"
  by unfold_locales (simp_all add: memory_defs completed_of_def Let_def split: option.splits)

section \<open>Lines\<close>

definition clean :: "string \<Rightarrow> bool" where
  "clean s \<longleftrightarrow> newline \<notin> set s \<and> (s \<noteq> [] \<longrightarrow> last s \<noteq> return)"

definition plain_name :: "string \<Rightarrow> bool" where
  "plain_name s \<longleftrightarrow> newline \<notin> set s \<and> colon \<notin> set s"

definition clean_line :: "string \<Rightarrow> bool" where
  "clean_line l \<longleftrightarrow> l \<noteq> [] \<and> clean l"

lemma before_separator:
  "c \<notin> set l \<Longrightarrow> takeWhile (\<lambda>x. x \<noteq> c) (l @ c # r) = l"
  "c \<notin> set l \<Longrightarrow> dropWhile (\<lambda>x. x \<noteq> c) (l @ c # r) = c # r"
  by (induction l) auto

lemma lines_join: "(\<And>l. l \<in> set ls \<Longrightarrow> clean_line l) \<Longrightarrow> lines_of (join_lines ls) = ls"
proof (induction ls rule: join_lines.induct)
  case (3 l l' ls)
  have l: "l \<noteq> []" "newline \<notin> set l" "last l \<noteq> return" using "3.prems" [of l] by (auto simp: clean_line_def clean_def)
  note before_separator [OF l(2)]
  then show ?case using 3 l by (subst lines_of.simps) (simp add: strip_cr_def)
qed (auto simp: lines_of.simps clean_line_def clean_def)

definition file_inv :: "FileCheckpointStore \<Rightarrow> bool" where
  "file_inv files \<longleftrightarrow> (\<forall>d c. files d = Some c \<longrightarrow> (\<exists>ls. c = join_lines ls \<and> (\<forall>l \<in> set ls. clean_line l)))"

definition stored_lines :: "string \<Rightarrow> FileCheckpointStore \<Rightarrow> string list" where
  "stored_lines d files = (case read_lines d files of None \<Rightarrow> [] | Some ls \<Rightarrow> ls)"

lemma stored_clean: "file_inv files \<Longrightarrow> l \<in> set (stored_lines d files) \<Longrightarrow> clean_line l"
  unfolding file_inv_def by (cases "files d") (fastforce simp: stored_lines_def read_lines_def lines_join)+

lemma append_line_inv: "file_inv files \<Longrightarrow> clean_line l \<Longrightarrow> file_inv (append_line d l files)"
  using stored_clean [of files _ d]
  by (auto simp: append_line_def write_lines_def file_inv_def stored_lines_def [symmetric]
      intro!: exI [of _ "stored_lines d files @ [l]"])

lemma append_line_read:
  assumes "file_inv files" and "clean_line l"
  shows "read_lines d (append_line d l files) = Some (stored_lines d files @ [l])"
    and "d' \<noteq> d \<Longrightarrow> read_lines d' (append_line d l files) = read_lines d' files"
proof -
  have "lines_of (join_lines (stored_lines d files @ [l])) = stored_lines d files @ [l]"
    by (rule lines_join) (use assms stored_clean [OF assms(1)] in auto)
  then show "read_lines d (append_line d l files) = Some (stored_lines d files @ [l])"
    unfolding append_line_def stored_lines_def [symmetric] by (simp add: read_lines_def write_lines_def)
  show "d' \<noteq> d \<Longrightarrow> read_lines d' (append_line d l files) = read_lines d' files"
    by (simp add: read_lines_def append_line_def write_lines_def)
qed

text \<open>What a file says, line by line.\<close>

definition parsed :: "string \<Rightarrow> string list \<Rightarrow> DagCheckpoint" where
  "parsed d ls = fold parse_line ls \<lparr>cp_dag_id = d, completed_nodes = [], failed_node = None, cp_error = None, status = Running\<rparr>"

lemma file_load_lines: "file_load d files = map_option (parsed d) (read_lines d files)"
  by (simp add: file_load_def parsed_def [abs_def])

lemma append_line_load:
  assumes "file_inv files" and "clean_line l"
  shows "file_load d (append_line d l files) = Some (parse_line l (parsed d (stored_lines d files)))"
    and "d' \<noteq> d \<Longrightarrow> file_load d' (append_line d l files) = file_load d' files"
  using append_line_read [OF assms] by (simp_all add: file_load_lines parsed_def)

lemma completed_stored: "completed_of (file_load d files) = completed_nodes (parsed d (stored_lines d files))"
  by (simp add: completed_of_def file_load_lines stored_lines_def parsed_def split: option.splits)

lemma strip_prefix_append [simp]: "strip_prefix p (p @ s) = Some s"
  by (induction p) auto

lemma parse_completed:
  "colon \<notin> set n \<Longrightarrow> parse_line (''COMPLETED:'' @ n @ '':'' @ t) cp = cp\<lparr>completed_nodes := completed_nodes cp @ [n]\<rparr>"
  unfolding parse_line_def strip_prefix_append by (simp add: before_separator)

lemma parse_failed:
  "colon \<notin> set n \<Longrightarrow> parse_line (''FAILED:'' @ n @ '':'' @ e) cp = cp\<lparr>failed_node := Some n, cp_error := Some e, status := Failed\<rparr>"
  by (simp add: parse_line_def before_separator)

lemma parse_status:
  "parse_line ''STATUS:COMPLETED'' cp = cp\<lparr>status := Completed\<rparr>"
  "parse_line (''STATUS:FAILED:'' @ e) cp = cp\<lparr>status := Failed, cp_error := Some e\<rparr>"
  by (simp_all add: parse_line_def)

lemma clean_lines:
  "newline \<notin> set n \<Longrightarrow> clean t \<Longrightarrow> clean_line (''COMPLETED:'' @ n @ '':'' @ t)"
  "newline \<notin> set n \<Longrightarrow> clean t \<Longrightarrow> clean_line (''FAILED:'' @ n @ '':'' @ t)"
  "clean_line ''STATUS:COMPLETED''" "clean t \<Longrightarrow> clean_line (''STATUS:FAILED:'' @ t)"
  by (auto simp: clean_line_def clean_def)

lemmas file_defs = file_store_def file_save_node_completed_def file_save_node_failed_def file_mark_completed_def
  file_mark_failed_def

interpretation fcs: checkpoint_store file_store file_inv plain_name clean
proof (unfold_locales, goal_cases)
  case (1 s n t d)
  then have "clean_line (''COMPLETED:'' @ n @ '':'' @ t)" by (intro clean_lines) (simp_all add: plain_name_def)
  with 1 show ?case
    using append_line_inv append_line_load parse_completed
    by (simp add: file_defs completed_stored plain_name_def del: append.simps append_Cons)
next
  case (2 s n e d)
  then have "clean_line (''FAILED:'' @ n @ '':'' @ e)" by (intro clean_lines) (simp_all add: plain_name_def)
  with 2 show ?case
    using append_line_inv append_line_load parse_failed
    by (simp add: file_defs completed_stored plain_name_def del: append.simps append_Cons)
next
  case (3 s d)
  then show ?case
    using append_line_inv [OF _ clean_lines(3)] append_line_load [OF _ clean_lines(3)] parse_status
    by (simp add: file_defs completed_stored)
next
  case (4 s e d)
  then have "clean_line (''STATUS:FAILED:'' @ e)" by (intro clean_lines)
  with 4 show ?case
    using append_line_inv append_line_load parse_status(2)
    by (simp add: file_defs completed_stored del: append.simps append_Cons)
qed

section \<open>The two stores agree\<close>

datatype cp_op = SaveCompleted string string string | SaveFailed string string string | MarkCompleted string | MarkFailed string string

fun apply_op :: "'s CheckpointStore \<Rightarrow> cp_op \<Rightarrow> 's \<Rightarrow> 's" where
  "apply_op st (SaveCompleted d n t) = save_node_completed st d n t"
| "apply_op st (SaveFailed d n e) = save_node_failed st d n e"
| "apply_op st (MarkCompleted d) = mark_completed st d"
| "apply_op st (MarkFailed d e) = mark_failed st d e"

text \<open>An operation on strings the file format can hold.\<close>

fun storable_op :: "cp_op \<Rightarrow> bool" where
  "storable_op (SaveCompleted d n t) = (plain_name n \<and> clean t)"
| "storable_op (SaveFailed d n e) = (plain_name n \<and> clean e)"
| "storable_op (MarkCompleted d) = True"
| "storable_op (MarkFailed d e) = clean e"

text \<open>A mark of a graph the in-memory store has an entry for, because a node of it was saved.\<close>

fun mark_saved :: "MemoryCheckpointStore \<Rightarrow> cp_op \<Rightarrow> bool" where
  "mark_saved data (MarkCompleted d) = (data d \<noteq> None)"
| "mark_saved data (MarkFailed d e) = (data d \<noteq> None)"
| "mark_saved data _ = True"

fun marks_saved :: "MemoryCheckpointStore \<Rightarrow> cp_op list \<Rightarrow> bool" where
  "marks_saved data [] = True"
| "marks_saved data (p # ps) = (mark_saved data p \<and> marks_saved (apply_op memory_store p data) ps)"

definition simulates :: "MemoryCheckpointStore \<Rightarrow> FileCheckpointStore \<Rightarrow> bool" where
  "simulates data files \<longleftrightarrow> file_inv files \<and> (\<forall>d. file_load d files = mem_load d data)"

lemma simulatesD:
  assumes "simulates data files"
  shows "parsed d (stored_lines d files)
    = \<lparr>cp_dag_id = d, completed_nodes = map fst (cd_completed (mem_entry data d)), failed_node = cd_failed_node (mem_entry data d),
       cp_error = cd_error (mem_entry data d), status = cd_status (mem_entry data d)\<rparr>"
proof -
  have "file_load d files = mem_load d data" using assms by (simp add: simulates_def)
  then show ?thesis
    by (cases "data d"; cases "read_lines d files")
      (auto simp: file_load_lines mem_load_def mem_entry_def stored_lines_def parsed_def)
qed

lemma simulates_line:
  assumes sim: "simulates data files" and l: "clean_line l"
    and entry: "parse_line l (parsed d (stored_lines d files))
      = \<lparr>cp_dag_id = d, completed_nodes = map fst (cd_completed entry), failed_node = cd_failed_node entry,
         cp_error = cd_error entry, status = cd_status entry\<rparr>"
  shows "simulates (data(d \<mapsto> entry)) (append_line d l files)"
proof -
  have inv: "file_inv files" using sim by (simp add: simulates_def)
  have "file_load d' (append_line d l files) = mem_load d' (data(d \<mapsto> entry))" for d'
  proof (cases "d' = d")
    case True
    then show ?thesis using append_line_load(1) [OF inv l] entry by (simp add: mem_load_def)
  next
    case False
    then show ?thesis using append_line_load(2) [OF inv l False] sim by (simp add: simulates_def mem_load_def)
  qed
  then show ?thesis using append_line_inv [OF inv l] by (simp add: simulates_def)
qed

lemma simulates_step:
  assumes sim: "simulates data files" and ok: "storable_op p" "mark_saved data p"
  shows "simulates (apply_op memory_store p data) (apply_op file_store p files)"
proof (cases p)
  case (SaveCompleted d n t)
  then have "simulates (data(d \<mapsto> (mem_entry data d)\<lparr>cd_completed := cd_completed (mem_entry data d) @ [(n, t)]\<rparr>))
      (append_line d (''COMPLETED:'' @ n @ '':'' @ t) files)"
    using ok clean_lines(1) [of n t]
    by (intro simulates_line [OF sim]) (auto simp: plain_name_def parse_completed simulatesD [OF sim] simp del: append_Cons)
  then show ?thesis using SaveCompleted by (simp add: file_defs memory_store_def mem_save_node_completed_def Let_def)
next
  case (SaveFailed d n e)
  then have "simulates (data(d \<mapsto> (mem_entry data d)\<lparr>cd_failed_node := Some n, cd_error := Some e, cd_status := Failed\<rparr>))
      (append_line d (''FAILED:'' @ n @ '':'' @ e) files)"
    using ok clean_lines(2) [of n e]
    by (intro simulates_line [OF sim]) (auto simp: plain_name_def parse_failed simulatesD [OF sim] simp del: append_Cons)
  then show ?thesis using SaveFailed by (simp add: file_defs memory_store_def mem_save_node_failed_def Let_def)
next
  case (MarkCompleted d)
  then obtain entry where e: "data d = Some entry" using ok by auto
  then have "simulates (data(d \<mapsto> entry\<lparr>cd_status := Completed\<rparr>)) (append_line d ''STATUS:COMPLETED'' files)"
    using simulatesD [OF sim, of d] by (intro simulates_line [OF sim clean_lines(3)]) (simp add: parse_status mem_entry_def)
  then show ?thesis using MarkCompleted e by (simp add: file_defs memory_store_def mem_mark_completed_def)
next
  case (MarkFailed d e)
  then obtain entry where d: "data d = Some entry" using ok by auto
  then have "simulates (data(d \<mapsto> entry\<lparr>cd_status := Failed, cd_error := Some e\<rparr>)) (append_line d (''STATUS:FAILED:'' @ e) files)"
    using simulatesD [OF sim, of d] ok MarkFailed clean_lines(4) [of e]
    by (intro simulates_line [OF sim]) (auto simp: parse_status(2) mem_entry_def simp del: append_Cons)
  then show ?thesis using MarkFailed d by (simp add: file_defs memory_store_def mem_mark_failed_def)
qed

lemma simulates_run:
  "simulates data files \<Longrightarrow> list_all storable_op ps \<Longrightarrow> marks_saved data ps \<Longrightarrow> simulates (fold (apply_op memory_store) ps data) (fold (apply_op file_store) ps files)"
proof (induction ps arbitrary: data files)
  case (Cons p ps)
  then show ?case using simulates_step [of data files p] by simp
qed simp

lemma simulates_empty: "simulates Map.empty Map.empty"
  by (simp add: simulates_def file_inv_def file_load_def read_lines_def mem_load_def)

text \<open>The list of completed nodes agrees whatever is marked: what an operation does to other graphs, then to its own.\<close>

definition agree :: "MemoryCheckpointStore \<Rightarrow> FileCheckpointStore \<Rightarrow> bool" where
  "agree data files \<longleftrightarrow> file_inv files \<and> (\<forall>d. completed_of (file_load d files) = completed_of (mem_load d data))"

fun op_graph :: "cp_op \<Rightarrow> string" where
  "op_graph (SaveCompleted d n t) = d"
| "op_graph (SaveFailed d n e) = d"
| "op_graph (MarkCompleted d) = d"
| "op_graph (MarkFailed d e) = d"

fun op_saves :: "cp_op \<Rightarrow> string list" where
  "op_saves (SaveCompleted d n t) = [n]"
| "op_saves _ = []"

lemma mem_op_completed:
  "completed_of (mem_load d (apply_op memory_store p data)) = completed_of (mem_load d data) @ (if op_graph p = d then op_saves p else [])"
  by (cases p) (auto simp: memory_defs completed_of_def Let_def split: option.splits)

lemma file_op_completed:
  assumes "file_inv files" and "storable_op p"
  shows "file_inv (apply_op file_store p files)
    \<and> completed_of (file_load d (apply_op file_store p files)) = completed_of (file_load d files) @ (if op_graph p = d then op_saves p else [])"
proof -
  have l: "load file_store = file_load" by (simp add: file_store_def)
  have other: "file_load d (append_line d' l files) = file_load d files" if "clean_line l" "d \<noteq> d'" for d' l
    using append_line_load(2) [OF assms(1)] that by blast
  show ?thesis
  proof (cases "op_graph p = d")
    case True
    then show ?thesis using assms fcs.saved [of files] fcs.failed [of files] fcs.completed [of files] fcs.aborted [of files]
      by (cases p) (simp_all add: l)
  next
    case False
    then show ?thesis using assms other clean_lines append_line_inv [OF assms(1)]
      by (cases p) (simp_all add: file_defs plain_name_def del: append.simps append_Cons)
  qed
qed

lemma agree_run:
  "agree data files \<Longrightarrow> list_all storable_op ps \<Longrightarrow> agree (fold (apply_op memory_store) ps data) (fold (apply_op file_store) ps files)"
proof (induction ps arbitrary: data files)
  case (Cons p ps)
  have "agree (apply_op memory_store p data) (apply_op file_store p files)"
    using Cons.prems file_op_completed [of files p] by (simp add: agree_def mem_op_completed)
  then show ?case using Cons by simp
qed simp

lemma agree_empty: "agree Map.empty Map.empty"
  using simulates_empty by (simp add: agree_def simulates_def)

section \<open>Properties\<close>

text \<open>
  C25.  The file store and the in-memory store. Take any history of operations whose node names have no colon
  and no newline and whose other texts have no newline and no carriage return at the end. Loading a graph from
  its file lists the nodes the in-memory store lists as completed, in the same order. If moreover every mark
  of a graph comes after a saved node of it, the whole checkpoint is the same: completed nodes, failed node,
  error and status.
\<close>

theorem file_store_refines_memory:
  assumes "list_all storable_op ps"
  shows "completed_of (file_load d (fold (apply_op file_store) ps Map.empty)) = completed_of (mem_load d (fold (apply_op memory_store) ps Map.empty))
    \<and> (marks_saved Map.empty ps \<longrightarrow>
        file_load d (fold (apply_op file_store) ps Map.empty) = mem_load d (fold (apply_op memory_store) ps Map.empty))"
  using agree_run [OF agree_empty assms] simulates_run [OF simulates_empty assms] by (simp add: agree_def simulates_def)

definition demo_history :: "cp_op list" where
  "demo_history = [SaveCompleted ''g'' ''a'' ''merge'', SaveFailed ''g'' ''b'' ''out of disk: 5'', MarkFailed ''g'' ''b'']"

theorem file_store_refines_memory_witness:
  "list_all storable_op demo_history \<and> marks_saved Map.empty demo_history
   \<and> file_load ''g'' (fold (apply_op file_store) demo_history Map.empty)
     = Some \<lparr>cp_dag_id = ''g'', completed_nodes = [''a''], failed_node = Some ''b'', cp_error = Some ''b'', status = Failed\<rparr>"
proof -
  have ok: "list_all storable_op demo_history" "marks_saved Map.empty demo_history"
    by (simp_all add: demo_history_def plain_name_def clean_def memory_defs Let_def)
  have "mem_load ''g'' (fold (apply_op memory_store) demo_history Map.empty)
      = Some \<lparr>cp_dag_id = ''g'', completed_nodes = [''a''], failed_node = Some ''b'', cp_error = Some ''b'', status = Failed\<rparr>"
    by (simp add: demo_history_def memory_defs Let_def)
  then show ?thesis using ok file_store_refines_memory [OF ok(1), of "''g''"] by simp
qed

text \<open>
  The condition on marks is needed: a mark of a graph without a saved node, as of a graph without nodes, is
  dropped by the in-memory store and recorded by the file store.
\<close>

lemma mark_unsaved_differs:
  "mem_load ''g'' (mem_mark_completed ''g'' Map.empty) = None
   \<and> map_option status (file_load ''g'' (file_mark_completed ''g'' Map.empty)) = Some Completed"
  by (simp add: memory_defs file_mark_completed_def append_line_def read_lines_def write_lines_def file_load_def lines_of.simps
      strip_cr_def parse_line_def)

text \<open>
  The restriction on texts is needed: an error message with a newline in it is read back as a line of
  its own, so the failure of one node can list another node, which never ran, as completed.
\<close>

theorem file_store_error_injection:
  "completed_of (file_load ''g'' (file_save_node_failed ''g'' ''a'' (''boom'' @ newline # ''COMPLETED:b:merge'') Map.empty)) = [''b'']
   \<and> completed_of (mem_load ''g'' (mem_save_node_failed ''g'' ''a'' (''boom'' @ newline # ''COMPLETED:b:merge'') Map.empty)) = []"
  by (simp add: file_save_node_failed_def append_line_def read_lines_def write_lines_def file_load_def lines_of.simps
      strip_cr_def parse_line_def completed_of_def memory_defs Let_def)

end
