(* ===== verification/DagRuntime.thy ===== *)
theory DagRuntime
  imports Dag Checkpoint
begin

text \<open>
  The runtime of the task graph, \<open>src/luciole/src/runtime.rs\<close>: \<open>execute_sequential\<close>, \<open>execute_dag\<close> with
  its inline and its parallel levels and its rollback, and \<open>execute_dag_with_checkpoint\<close>, over the shared
  port data with one consumer count per output port.

  A run is a record that every function passes on: the graph with the states of its nodes, the port data,
  the remaining consumer counts, the results, the undo stack and the events emitted so far. Durations and
  taps are not modelled. The decrement of a consumer count at zero is the outcome \<open>None\<close>. The task of a
  node in a parallel level owns the node until it is put back, and no other task reads its slot, so the
  tasks of a level are a map over the level; a node that panics there is a node that returns an error,
  and a panic of a node that runs inline, which leaves the executor, is not modelled.
\<close>

section \<open>Events, results, runs\<close>

datatype failure = GraphError dag_error | NodeError string string | Message string

datatype DagEvent =
    LevelStarted nat "string list"
  | NodeStarted string string nat
  | NodeCompleted string "(string \<times> real) list"
  | NodeLog string string LogLevel string
  | NodeFailed string string
  | LevelCompleted nat
  | DagCompleted nat
  | DagFailed failure

type_synonym 'v ports = "string \<times> string \<rightharpoonup> 'v"
type_synonym consumers = "string \<times> string \<rightharpoonup> nat"

record 'v DagResult =
  node_results :: "(string \<times> NodeResult) list"
  dr_outputs :: "'v ports"

record ('n, 'v, 'u) run =
  run_dag :: "('n, 'v) Dag"
  port_data :: "'v ports"
  consumer_counts :: consumers
  results :: "(string \<times> NodeResult) list"
  undo_stack :: "(nat \<times> 'u) list"
  emitted :: "DagEvent list"

abbreviation edge_key :: "DagEdge \<Rightarrow> string \<times> string" where
  "edge_key e \<equiv> (from_node e, from_port e)"

abbreviation node_name :: "('n, 'v) Dag \<Rightarrow> nat \<Rightarrow> string" where
  "node_name dag i \<equiv> ne_name (nodes dag ! i)"

abbreviation node_at :: "('n, 'v) Dag \<Rightarrow> nat \<Rightarrow> 'n" where
  "node_at dag i \<equiv> ne_node (nodes dag ! i)"

definition put_node :: "nat \<Rightarrow> 'n \<Rightarrow> ('n, 'v) Dag \<Rightarrow> ('n, 'v) Dag" where
  "put_node i node dag = dag\<lparr>nodes := (nodes dag)[i := (nodes dag ! i)\<lparr>ne_node := node\<rparr>]\<rparr>"

definition count_consumers :: "DagEdge list \<Rightarrow> consumers" where
  "count_consumers es =
     fold (\<lambda>e m. m(edge_key e \<mapsto> (case m (edge_key e) of None \<Rightarrow> 0 | Some c \<Rightarrow> c) + 1)) es Map.empty"

definition emit :: "DagEvent list \<Rightarrow> ('n, 'v, 'u) run \<Rightarrow> ('n, 'v, 'u) run" where
  "emit evs r = r\<lparr>emitted := emitted r @ evs\<rparr>"

section \<open>Inputs\<close>

definition has_edge :: "DagEdge list \<Rightarrow> string \<Rightarrow> string \<Rightarrow> bool" where
  "has_edge es name port = list_ex (\<lambda>e. to_node e = name \<and> to_port e = port) es"

fun take_edges :: "string \<Rightarrow> DagEdge list \<Rightarrow> (string \<rightharpoonup> 'v) \<Rightarrow> 'v ports \<Rightarrow> consumers
    \<Rightarrow> ((string \<rightharpoonup> 'v) \<times> 'v ports \<times> consumers) exec" where
  "take_edges name [] ins pd cc = Some (ins, pd, cc)"
| "take_edges name (e # es) ins pd cc =
     (if to_node e = name then
        (case cc (edge_key e) of
           None \<Rightarrow> take_edges name es ins pd cc
         | Some 0 \<Rightarrow> None
         | Some (Suc count) \<Rightarrow>
             (let cc' = cc(edge_key e \<mapsto> count) in
              case pd (edge_key e) of
                None \<Rightarrow> take_edges name es ins pd cc'
              | Some v \<Rightarrow>
                  take_edges name es (ins(to_port e \<mapsto> v)) (if count = 0 then pd(edge_key e := None) else pd) cc'))
      else take_edges name es ins pd cc)"

definition collect_inputs :: "string \<Rightarrow> DagEdge list \<Rightarrow> 'v ports \<Rightarrow> consumers
    \<Rightarrow> ((string \<rightharpoonup> 'v) \<times> 'v ports \<times> consumers) exec" where
  "collect_inputs name es pd cc =
     take_edges name es (\<lambda>port. if has_edge es name port then None else pd (name, port))
       (\<lambda>(n, port). if n = name \<and> \<not> has_edge es name port then None else pd (n, port)) cc"

definition insert_outputs :: "string \<Rightarrow> (string \<rightharpoonup> 'v) \<Rightarrow> 'v ports \<Rightarrow> 'v ports" where
  "insert_outputs name outs pd =
     (\<lambda>(n, port). if n = name then (case outs port of Some v \<Rightarrow> Some v | None \<Rightarrow> pd (n, port)) else pd (n, port))"

section \<open>One node\<close>

text \<open>The node runs on the collected inputs; its outputs go into the port data.\<close>

definition perform :: "('n, 'v, 'u) Node \<Rightarrow> nat \<Rightarrow> nat \<Rightarrow> (string \<rightharpoonup> 'v) \<Rightarrow> ('n, 'v, 'u) run
    \<Rightarrow> ('n, 'v, 'u) run \<times> (failure + NodeResult)" where
  "perform ops level i ins r =
     (let dag = run_dag r; name = node_name dag i; ty = node_type ops (node_at dag i) in
      case execute ops (node_at dag i) ins of (node, outcome) \<Rightarrow>
        (let r1 = emit [NodeStarted name ty level] (r\<lparr>run_dag := put_node i node dag\<rparr>) in
         case outcome of
           Inr (outs, nr) \<Rightarrow>
             (emit (map (\<lambda>(lvl, t). NodeLog name ty lvl t) (logs nr) @ [NodeCompleted name (metrics nr)])
                (r1\<lparr>port_data := insert_outputs name outs (port_data r1)\<rparr>), Inr nr)
         | Inl e \<Rightarrow> (emit [NodeFailed name e, DagFailed (Message e)] r1, Inl (NodeError name e))))"

definition execute_single_node :: "('n, 'v, 'u) Node \<Rightarrow> nat \<Rightarrow> nat \<Rightarrow> ('n, 'v, 'u) run
    \<Rightarrow> (('n, 'v, 'u) run \<times> (failure + NodeResult)) exec" where
  "execute_single_node ops level i r =
     (case collect_inputs (node_name (run_dag r) i) (edges (run_dag r)) (port_data r) (consumer_counts r) of
        None \<Rightarrow> None
      | Some (ins, pd, cc) \<Rightarrow> Some (perform ops level i ins (r\<lparr>port_data := pd, consumer_counts := cc\<rparr>)))"

section \<open>Sequential execution\<close>

definition start_run :: "('n, 'v) Dag \<Rightarrow> ('n, 'v, 'u) run" where
  "start_run dag = \<lparr>run_dag = dag\<lparr>initial_inputs := Map.empty\<rparr>, port_data = initial_inputs dag,
     consumer_counts = count_consumers (edges dag), results = [], undo_stack = [], emitted = []\<rparr>"

fun seq_nodes :: "('n, 'v, 'u) Node \<Rightarrow> nat \<Rightarrow> nat list \<Rightarrow> ('n, 'v, 'u) run \<Rightarrow> (('n, 'v, 'u) run \<times> (failure + unit)) exec" where
  "seq_nodes ops level [] r = Some (r, Inr ())"
| "seq_nodes ops level (i # is) r =
     (case execute_single_node ops level i r of
        None \<Rightarrow> None
      | Some (r', Inl e) \<Rightarrow> Some (r', Inl e)
      | Some (r', Inr nr) \<Rightarrow> seq_nodes ops level is (r'\<lparr>results := results r' @ [(node_name (run_dag r) i, nr)]\<rparr>))"

fun seq_levels :: "('n, 'v, 'u) Node \<Rightarrow> nat \<Rightarrow> nat list list \<Rightarrow> ('n, 'v, 'u) run \<Rightarrow> (('n, 'v, 'u) run \<times> (failure + unit)) exec" where
  "seq_levels ops k [] r = Some (r, Inr ())"
| "seq_levels ops k (level # levels) r =
     (case seq_nodes ops k level r of
        None \<Rightarrow> None
      | Some (r', Inl e) \<Rightarrow> Some (r', Inl e)
      | Some (r', Inr _) \<Rightarrow> seq_levels ops (k + 1) levels r')"

text \<open>A run returns the graph with its nodes, the events, and the error or the result.\<close>

type_synonym ('n, 'v) finished = "(('n, 'v) Dag \<times> DagEvent list) \<times> (failure + 'v DagResult)"

definition execute_sequential :: "('n, 'v, 'u) Node \<Rightarrow> ('n, 'v) Dag \<Rightarrow> ('n, 'v) finished exec" where
  "execute_sequential ops dag =
     (case topological_levels dag of
        None \<Rightarrow> None
      | Some (Inl e) \<Rightarrow> Some ((dag, []), Inl (GraphError e))
      | Some (Inr levels) \<Rightarrow>
          (case seq_levels ops 0 levels (start_run dag) of
             None \<Rightarrow> None
           | Some (r, Inl e) \<Rightarrow> Some ((run_dag r, emitted r), Inl e)
           | Some (r, Inr _) \<Rightarrow> Some ((run_dag r, emitted r @ [DagCompleted (length (nodes dag))]),
               Inr \<lparr>node_results = results r, dr_outputs = port_data r\<rparr>)))"

section \<open>Levels inline and in parallel\<close>

definition capture_undo :: "('n, 'v, 'u) Node \<Rightarrow> nat \<Rightarrow> ('n, 'v, 'u) run \<Rightarrow> ('n, 'v, 'u) run" where
  "capture_undo ops i r =
     (let node = node_at (run_dag r) i in
      if can_undo ops node then
        (case undo_context ops node of None \<Rightarrow> r | Some u \<Rightarrow> r\<lparr>undo_stack := undo_stack r @ [(i, u)]\<rparr>)
      else r)"

fun inline_nodes :: "('n, 'v, 'u) Node \<Rightarrow> nat \<Rightarrow> nat list \<Rightarrow> ('n, 'v, 'u) run \<Rightarrow> (('n, 'v, 'u) run \<times> (failure + unit)) exec" where
  "inline_nodes ops level [] r = Some (r, Inr ())"
| "inline_nodes ops level (i # is) r =
     (case execute_single_node ops level i r of
        None \<Rightarrow> None
      | Some (r', Inl e) \<Rightarrow> Some (r', Inl e)
      | Some (r', Inr nr) \<Rightarrow>
          (let r'' = capture_undo ops i r'
           in inline_nodes ops level is (r''\<lparr>results := results r'' @ [(node_name (run_dag r) i, nr)]\<rparr>)))"

definition trigger_unsatisfied :: "('n, 'v, 'u) Node \<Rightarrow> 'n \<Rightarrow> string \<Rightarrow> DagEdge list \<Rightarrow> 'v ports \<Rightarrow> bool" where
  "trigger_unsatisfied ops node name es pd =
     list_ex (\<lambda>p. required p \<and> port_type p = Trigger \<and>
         \<not> list_ex (\<lambda>e. to_node e = name \<and> to_port e = pd_name p \<and> pd (edge_key e) \<noteq> None) es)
       (inputs ops node)"

definition skipped :: NodeResult where
  "skipped = \<lparr>metrics = [(''skipped'', 1)], logs = []\<rparr>"

text \<open>The nodes of a parallel level whose triggers are satisfied, each taken out with its inputs.\<close>

fun take_tasks :: "('n, 'v, 'u) Node \<Rightarrow> nat list \<Rightarrow> ('n, 'v, 'u) run
    \<Rightarrow> (('n, 'v, 'u) run \<times> (nat \<times> string \<times> (string \<rightharpoonup> 'v) \<times> 'n) list \<times> (string \<times> NodeResult) list) exec" where
  "take_tasks ops [] r = Some (r, [], [])"
| "take_tasks ops (i # is) r =
     (let dag = run_dag r; name = node_name dag i in
      if trigger_unsatisfied ops (node_at dag i) name (edges dag) (port_data r) then
        (case take_tasks ops is (emit [NodeCompleted name (metrics skipped)] r) of
           None \<Rightarrow> None
         | Some (r', taken, skips) \<Rightarrow> Some (r', taken, (name, skipped) # skips))
      else
        (case collect_inputs name (edges dag) (port_data r) (consumer_counts r) of
           None \<Rightarrow> None
         | Some (ins, pd, cc) \<Rightarrow>
             (case take_tasks ops is (r\<lparr>port_data := pd, consumer_counts := cc\<rparr>) of
                None \<Rightarrow> None
              | Some (r', taken, skips) \<Rightarrow> Some (r', (i, name, ins, node_at dag i) # taken, skips))))"

fun run_task :: "('n, 'v, 'u) Node \<Rightarrow> nat \<times> string \<times> (string \<rightharpoonup> 'v) \<times> 'n
    \<Rightarrow> nat \<times> string \<times> 'n \<times> (string + (string \<rightharpoonup> 'v) \<times> NodeResult)" where
  "run_task ops (i, name, ins, node) = (i, name, execute ops node ins)"

text \<open>Every task is waited for and its node put back, also after a failure; only the first failure counts.\<close>

fun drain :: "(nat \<times> string \<times> 'n \<times> (string + (string \<rightharpoonup> 'v) \<times> NodeResult)) list \<Rightarrow> ('n, 'v, 'u) run
    \<Rightarrow> failure option \<Rightarrow> (string \<times> NodeResult) list \<Rightarrow> ('n, 'v, 'u) run \<times> failure option \<times> (string \<times> NodeResult) list" where
  "drain [] r err level_results = (r, err, level_results)"
| "drain ((i, name, node, outcome) # rest) r err level_results =
     (let r1 = r\<lparr>run_dag := put_node i node (run_dag r)\<rparr> in
      case outcome of
        Inr (outs, nr) \<Rightarrow>
          if err \<noteq> None then drain rest r1 err level_results
          else drain rest
            (emit (NodeCompleted name (metrics nr) # map (\<lambda>(lvl, t). NodeLog name [] lvl t) (logs nr))
              (r1\<lparr>port_data := insert_outputs name outs (port_data r1)\<rparr>))
            err (level_results @ [(name, nr)])
      | Inl e \<Rightarrow>
          if err = None then drain rest (emit [DagFailed (Message e)] r1) (Some (NodeError name e)) level_results
          else drain rest r1 err level_results)"

definition execute_level_parallel :: "('n, 'v, 'u) Node \<Rightarrow> nat list \<Rightarrow> ('n, 'v, 'u) run
    \<Rightarrow> (('n, 'v, 'u) run \<times> (failure + (string \<times> NodeResult) list)) exec" where
  "execute_level_parallel ops level r =
     (case take_tasks ops level r of
        None \<Rightarrow> None
      | Some (r1, taken, skips) \<Rightarrow>
          (case drain (map (run_task ops) taken) r1 None [] of
             (r2, Some e, _) \<Rightarrow> Some (r2, Inl e)
           | (r2, None, level_results) \<Rightarrow> Some (r2, Inr (level_results @ skips))))"

text \<open>\<open>on_scheduler k\<close>: whether level \<open>k\<close> starts on a scheduler thread, in a handler or in a cooperative wait.\<close>

fun dag_levels :: "('n, 'v, 'u) Node \<Rightarrow> (nat \<Rightarrow> bool) \<Rightarrow> nat \<Rightarrow> nat list list \<Rightarrow> ('n, 'v, 'u) run
    \<Rightarrow> (('n, 'v, 'u) run \<times> (failure + unit)) exec" where
  "dag_levels ops on_scheduler k [] r = Some (r, Inr ())"
| "dag_levels ops on_scheduler k (level # levels) r =
     (let r0 = emit [LevelStarted k (map (node_name (run_dag r)) level)] r in
      if on_scheduler k \<or> length level = 1 then
        (case inline_nodes ops k level r0 of
           None \<Rightarrow> None
         | Some (r1, Inl e) \<Rightarrow> Some (r1, Inl e)
         | Some (r1, Inr _) \<Rightarrow> dag_levels ops on_scheduler (k + 1) levels (emit [LevelCompleted k] r1))
      else
        (case execute_level_parallel ops level r0 of
           None \<Rightarrow> None
         | Some (r1, Inl e) \<Rightarrow> Some (r1, Inl e)
         | Some (r1, Inr level_results) \<Rightarrow>
             (let r2 = fold (capture_undo ops) level r1
              in dag_levels ops on_scheduler (k + 1) levels
                   (emit [LevelCompleted k] (r2\<lparr>results := results r2 @ level_results\<rparr>)))))"

fun undo_all :: "('n, 'v, 'u) Node \<Rightarrow> (nat \<times> 'u) list \<Rightarrow> ('n, 'v, 'u) run \<Rightarrow> ('n, 'v, 'u) run" where
  "undo_all ops [] r = r"
| "undo_all ops ((i, u) # us) r =
     (case undo ops (node_at (run_dag r) i) u of (node, outcome) \<Rightarrow>
        (let r1 = r\<lparr>run_dag := put_node i node (run_dag r)\<rparr> in
         undo_all ops us
           (case outcome of
              Inr _ \<Rightarrow> r1
            | Inl e \<Rightarrow> emit [NodeFailed (''undo:'' @ node_name (run_dag r) i) e] r1)))"

definition execute_dag :: "('n, 'v, 'u) Node \<Rightarrow> (nat \<Rightarrow> bool) \<Rightarrow> ('n, 'v) Dag \<Rightarrow> ('n, 'v) finished exec" where
  "execute_dag ops on_scheduler dag =
     (case topological_levels dag of
        None \<Rightarrow> None
      | Some (Inl e) \<Rightarrow> Some ((dag, []), Inl (GraphError e))
      | Some (Inr levels) \<Rightarrow>
          (case dag_levels ops on_scheduler 0 levels (start_run dag) of
             None \<Rightarrow> None
           | Some (r, Inl e) \<Rightarrow>
               (let r1 = undo_all ops (rev (undo_stack r)) r
                in Some ((run_dag r1, emitted r1 @ [DagFailed e]), Inl e))
           | Some (r, Inr _) \<Rightarrow> Some ((run_dag r, emitted r @ [DagCompleted (length (nodes dag))]),
               Inr \<lparr>node_results = results r, dr_outputs = port_data r\<rparr>)))"

section \<open>With checkpoints\<close>

text \<open>The rollback logs every undo instead of emitting only its failures; durations are left out of the text.\<close>

fun rollback_undo_stack_by_idx :: "('n, 'v, 'u) Node \<Rightarrow> (nat \<times> 'u) list \<Rightarrow> ('n, 'v, 'u) run \<Rightarrow> ('n, 'v, 'u) run" where
  "rollback_undo_stack_by_idx ops [] r = r"
| "rollback_undo_stack_by_idx ops ((i, u) # us) r =
     (case undo ops (node_at (run_dag r) i) u of (node, outcome) \<Rightarrow>
        rollback_undo_stack_by_idx ops us
          (emit [case outcome of
                   Inr _ \<Rightarrow> NodeLog (node_name (run_dag r) i) [] Info ''undo completed''
                 | Inl e \<Rightarrow> NodeLog (node_name (run_dag r) i) [] Error (''undo failed: '' @ e)]
            (r\<lparr>run_dag := put_node i node (run_dag r)\<rparr>)))"

text \<open>The text of an error of a run; the other graph errors belong to the construction of a graph.\<close>

definition failure_text :: "failure \<Rightarrow> string" where
  "failure_text f = (case f of
       NodeError name e \<Rightarrow> ''node '' @ CHR 0x27 # name @ CHR 0x27 # '' failed: '' @ e
     | Message e \<Rightarrow> e
     | GraphError (UnknownNode n) \<Rightarrow> ''edge references unknown node '' @ CHR 0x27 # n @ [CHR 0x27]
     | GraphError _ \<Rightarrow> ''cycle detected in DAG'')"

fun cp_nodes :: "('n, 'v, 'u) Node \<Rightarrow> 's CheckpointStore \<Rightarrow> string \<Rightarrow> string list \<Rightarrow> nat \<Rightarrow> nat list \<Rightarrow> ('n, 'v, 'u) run \<times> 's
    \<Rightarrow> ((('n, 'v, 'u) run \<times> 's) \<times> (failure + unit)) exec" where
  "cp_nodes ops store dag_id skip level [] rs = Some (rs, Inr ())"
| "cp_nodes ops store dag_id skip level (i # is) (r, s) =
     (let dag = run_dag r; name = node_name dag i in
      if name \<in> set skip \<or> trigger_unsatisfied ops (node_at dag i) name (edges dag) (port_data r) then
        cp_nodes ops store dag_id skip level is
          ((emit [NodeCompleted name (metrics skipped)] r)\<lparr>results := results r @ [(name, skipped)]\<rparr>, s)
      else
        (case execute_single_node ops level i r of
           None \<Rightarrow> None
         | Some (r1, Inr nr) \<Rightarrow>
             (let r2 = capture_undo ops i r1;
                  s1 = save_node_completed store dag_id name (node_type ops (node_at (run_dag r1) i)) s
              in cp_nodes ops store dag_id skip level is (r2\<lparr>results := results r2 @ [(name, nr)]\<rparr>, s1))
         | Some (r1, Inl e) \<Rightarrow>
             (let r2 = (rollback_undo_stack_by_idx ops (rev (undo_stack r1)) r1)\<lparr>undo_stack := []\<rparr>;
                  s1 = mark_failed store dag_id (failure_text e)
                         (save_node_failed store dag_id name (failure_text e) s)
              in Some ((emit [DagFailed e] r2, s1), Inl e))))"

fun cp_levels :: "('n, 'v, 'u) Node \<Rightarrow> 's CheckpointStore \<Rightarrow> string \<Rightarrow> string list \<Rightarrow> nat \<Rightarrow> nat list list \<Rightarrow> ('n, 'v, 'u) run \<times> 's
    \<Rightarrow> ((('n, 'v, 'u) run \<times> 's) \<times> (failure + unit)) exec" where
  "cp_levels ops store dag_id skip k [] rs = Some (rs, Inr ())"
| "cp_levels ops store dag_id skip k (level # levels) (r, s) =
     (case cp_nodes ops store dag_id skip k level (emit [LevelStarted k (map (node_name (run_dag r)) level)] r, s) of
        None \<Rightarrow> None
      | Some (rs, Inl e) \<Rightarrow> Some (rs, Inl e)
      | Some ((r1, s1), Inr _) \<Rightarrow> cp_levels ops store dag_id skip (k + 1) levels (emit [LevelCompleted k] r1, s1))"

definition execute_dag_with_checkpoint :: "('n, 'v, 'u) Node \<Rightarrow> 's CheckpointStore \<Rightarrow> string \<Rightarrow> ('n, 'v) Dag \<Rightarrow> 's
    \<Rightarrow> (('n, 'v) finished \<times> 's) exec" where
  "execute_dag_with_checkpoint ops store dag_id dag s =
     (case topological_levels dag of
        None \<Rightarrow> None
      | Some (Inl e) \<Rightarrow> Some (((dag, []), Inl (GraphError e)), s)
      | Some (Inr levels) \<Rightarrow>
          (let skip = completed_of (load store dag_id s);
               r0 = \<lparr>run_dag = dag, port_data = Map.empty, consumer_counts = count_consumers (edges dag),
                     results = [], undo_stack = [], emitted = []\<rparr> in
           case cp_levels ops store dag_id skip 0 levels (r0, s) of
             None \<Rightarrow> None
           | Some ((r, s1), Inl e) \<Rightarrow> Some (((run_dag r, emitted r), Inl e), s1)
           | Some ((r, s1), Inr _) \<Rightarrow>
               Some (((run_dag r, emitted r @ [DagCompleted (length (nodes dag))]),
                 Inr \<lparr>node_results = results r, dr_outputs = port_data r\<rparr>), mark_completed store dag_id s1)))"

end
