(* ===== verification/DagRefine.thy ===== *)
theory DagRefine
  imports DagRuntime
begin

text \<open>
  The runtime against a reference without consumer counts: sequential runs, and every placement of the
  levels inline or in parallel, deliver to each node the values the reference delivers and return its
  results and its unconsumed outputs.
\<close>

section \<open>The reference\<close>

text \<open>
  What the runtime means to do, without consumer counts: a store of every value produced, from which a
  node gets, for an input port with an incoming edge, the value of the last such edge that has one, and
  for a port without an edge the initial input, which is used up.
\<close>

fun gather :: "DagEdge list \<Rightarrow> string \<Rightarrow> 'v ports \<Rightarrow> (string \<rightharpoonup> 'v) \<Rightarrow> (string \<rightharpoonup> 'v)" where
  "gather [] name store ins = ins"
| "gather (e # es) name store ins =
     gather es name store
       (if to_node e = name then (case store (edge_key e) of None \<Rightarrow> ins | Some v \<Rightarrow> ins(to_port e \<mapsto> v)) else ins)"

definition ref_inputs :: "DagEdge list \<Rightarrow> string \<Rightarrow> 'v ports \<Rightarrow> (string \<rightharpoonup> 'v)" where
  "ref_inputs es name store = gather es name store (\<lambda>port. if has_edge es name port then None else store (name, port))"

definition settle :: "DagEdge list \<Rightarrow> string \<Rightarrow> 'v ports \<Rightarrow> 'v ports" where
  "settle es name store = (\<lambda>(n, port). if n = name \<and> \<not> has_edge es name port then None else store (n, port))"

definition ref_node :: "('n, 'v, 'u) Node \<Rightarrow> nat \<Rightarrow> nat \<Rightarrow> ('n, 'v, 'u) run \<Rightarrow> ('n, 'v, 'u) run \<times> (failure + NodeResult)" where
  "ref_node ops level i q =
     (let es = edges (run_dag q); name = node_name (run_dag q) i
      in perform ops level i (ref_inputs es name (port_data q)) (q\<lparr>port_data := settle es name (port_data q)\<rparr>))"

fun ref_run :: "('n, 'v, 'u) Node \<Rightarrow> nat \<Rightarrow> nat list \<Rightarrow> ('n, 'v, 'u) run \<Rightarrow> ('n, 'v, 'u) run \<times> (failure + unit)" where
  "ref_run ops level [] q = (q, Inr ())"
| "ref_run ops level (i # is) q =
     (case ref_node ops level i q of
        (q', Inl e) \<Rightarrow> (q', Inl e)
      | (q', Inr nr) \<Rightarrow> ref_run ops level is (q'\<lparr>results := results q' @ [(node_name (run_dag q) i, nr)]\<rparr>))"

fun ref_levels :: "('n, 'v, 'u) Node \<Rightarrow> nat \<Rightarrow> nat list list \<Rightarrow> ('n, 'v, 'u) run \<Rightarrow> ('n, 'v, 'u) run \<times> (failure + unit)" where
  "ref_levels ops k [] q = (q, Inr ())"
| "ref_levels ops k (level # levels) q =
     (case ref_run ops k level q of
        (q', Inl e) \<Rightarrow> (q', Inl e)
      | (q', Inr _) \<Rightarrow> ref_levels ops (k + 1) levels q')"

section \<open>Consumer counts\<close>

definition uses :: "DagEdge list \<Rightarrow> string \<times> string \<Rightarrow> nat" where
  "uses es k = length (filter (\<lambda>e. edge_key e = k) es)"

definition pending :: "DagEdge list \<Rightarrow> string set \<Rightarrow> string \<times> string \<Rightarrow> nat" where
  "pending es done k = length (filter (\<lambda>e. edge_key e = k \<and> to_node e \<notin> done) es)"

definition need :: "DagEdge list \<Rightarrow> string \<Rightarrow> string \<times> string \<Rightarrow> nat" where
  "need es name k = length (filter (\<lambda>e. edge_key e = k \<and> to_node e = name) es)"

abbreviation live :: "DagEdge list \<Rightarrow> string set \<Rightarrow> string \<times> string \<Rightarrow> bool" where
  "live es done k \<equiv> uses es k = 0 \<or> 0 < pending es done k"

lemma count_consumers_uses: "count_consumers es k = (if uses es k = 0 then None else Some (uses es k))"
proof -
  have "fold (\<lambda>e m. m(edge_key e \<mapsto> (case m (edge_key e) of None \<Rightarrow> 0 | Some c \<Rightarrow> c) + 1)) es m k
      = (if uses es k = 0 then m k else Some ((case m k of None \<Rightarrow> 0 | Some c \<Rightarrow> c) + uses es k))" for m :: consumers
    by (induction es arbitrary: m) (auto simp: uses_def split: option.splits)
  then show ?thesis by (simp add: count_consumers_def)
qed

lemma pending_insert: "name \<notin> done \<Longrightarrow> pending es done k = pending es (insert name done) k + need es name k"
  by (induction es) (auto simp: pending_def need_def)

lemma pending_uses: "pending es done k \<le> uses es k"
  by (induction es) (auto simp: pending_def uses_def)

lemma pending_all: "(\<And>e. e \<in> set es \<Longrightarrow> edge_key e = k \<Longrightarrow> to_node e \<notin> done) \<Longrightarrow> pending es done k = uses es k"
  by (induction es) (auto simp: pending_def uses_def)

lemma pending_empty: "pending es {} k = uses es k"
  by (simp add: pending_all)

lemma need_le: "name \<notin> done \<Longrightarrow> need es name k \<le> pending es done k"
  using pending_insert [of name "done" es k] by simp

lemma gather_cong:
  "(\<And>e. e \<in> set es \<Longrightarrow> to_node e = name \<Longrightarrow> s (edge_key e) = s' (edge_key e)) \<Longrightarrow> gather es name s ins = gather es name s' ins"
  by (induction es arbitrary: ins) auto

lemma need_0: "need es name k = 0 \<longleftrightarrow> (\<forall>e \<in> set es. \<not> (edge_key e = k \<and> to_node e = name))"
  by (simp add: need_def filter_empty_conv)

text \<open>Taking the values of the incoming edges: each is seen, and gone exactly when its last use is taken.\<close>

lemma take_edges_eq:
  assumes "\<And>k. 0 < need es name k \<Longrightarrow> \<exists>c. cc k = Some c \<and> need es name k \<le> c"
  shows "take_edges name es ins pd cc =
    Some (gather es name pd ins,
          \<lambda>k. if 0 < need es name k \<and> cc k = Some (need es name k) then None else pd k,
          \<lambda>k. if 0 < need es name k then map_option (\<lambda>c. c - need es name k) (cc k) else cc k)"
  using assms
proof (induction es arbitrary: ins pd cc)
  case Nil
  then show ?case by (simp add: need_def)
next
  case (Cons e es)
  show ?case
  proof (cases "to_node e = name")
    case False
    then have n: "need (e # es) name = need es name" by (simp add: need_def fun_eq_iff)
    show ?thesis using Cons.IH [of cc] Cons.prems False unfolding n by simp
  next
    case True
    let ?k = "edge_key e"
    have n: "need (e # es) name k = need es name k + (if k = ?k then 1 else 0)" for k
      using True by (auto simp: need_def)
    obtain count where c: "cc ?k = Some (Suc count)" "need es name ?k \<le> count"
    proof -
      obtain c0 where "cc ?k = Some c0" "Suc (need es name ?k) \<le> c0" using Cons.prems [of ?k] n [of ?k] by auto
      then show thesis using that [of "c0 - 1"] by simp
    qed
    define pd1 where "pd1 = (if count = 0 then pd(?k := None) else pd)"
    have IH: "take_edges name es ins' pd1 (cc(?k \<mapsto> count)) =
        Some (gather es name pd1 ins',
          \<lambda>k. if 0 < need es name k \<and> (cc(?k \<mapsto> count)) k = Some (need es name k) then None else pd1 k,
          \<lambda>k. if 0 < need es name k then map_option (\<lambda>c. c - need es name k) ((cc(?k \<mapsto> count)) k) else (cc(?k \<mapsto> count)) k)" for ins'
    proof (rule Cons.IH)
      fix k assume "0 < need es name k"
      then show "\<exists>c. (cc(?k \<mapsto> count)) k = Some c \<and> need es name k \<le> c"
        using c Cons.prems [of k] n [of k] by (cases "k = ?k") auto
    qed
    have g: "gather es name pd1 ins' = gather es name pd ins'" for ins'
    proof (rule gather_cong)
      fix e' assume "e' \<in> set es" "to_node e' = name"
      then have "count \<noteq> 0 \<or> edge_key e' \<noteq> ?k" using c(2) need_0 [of es name ?k] by auto
      then show "pd1 (edge_key e') = pd (edge_key e')" by (auto simp: pd1_def)
    qed
    have pd': "(\<lambda>k. if 0 < need es name k \<and> (cc(?k \<mapsto> count)) k = Some (need es name k) then None else pd1 k)
        = (\<lambda>k. if 0 < need (e # es) name k \<and> cc k = Some (need (e # es) name k) then None else pd k)"
      using c by (auto simp: n pd1_def fun_eq_iff)
    have cc': "(\<lambda>k. if 0 < need es name k then map_option (\<lambda>c. c - need es name k) ((cc(?k \<mapsto> count)) k) else (cc(?k \<mapsto> count)) k)
        = (\<lambda>k. if 0 < need (e # es) name k then map_option (\<lambda>c. c - need (e # es) name k) (cc k) else cc k)"
      using c by (auto simp: n fun_eq_iff)
    have "take_edges name (e # es) ins pd cc
        = take_edges name es (case pd ?k of None \<Rightarrow> ins | Some v \<Rightarrow> ins(to_port e \<mapsto> v)) pd1 (cc(?k \<mapsto> count))"
    proof (cases "pd ?k")
      case None
      then have "pd(?k := None) = pd" by auto
      then have "pd1 = pd" by (simp add: pd1_def)
      then show ?thesis using True c(1) None by (simp add: Let_def)
    qed (use True c(1) in \<open>simp add: Let_def pd1_def\<close>)
    then show ?thesis using True unfolding IH g pd' cc' by simp
  qed
qed

section \<open>The refinement relation\<close>

text \<open>
  A run stands for a reference run when their graphs and results agree, the port data holds exactly the
  stored values that still have a consumer to come or never had one, and the counts are the consumers to come.
\<close>

definition visible :: "DagEdge list \<Rightarrow> string set \<Rightarrow> 'v ports \<Rightarrow> 'v ports" where
  "visible es done store = (\<lambda>k. if live es done k then store k else None)"

definition to_come :: "DagEdge list \<Rightarrow> string set \<Rightarrow> consumers" where
  "to_come es done = (\<lambda>k. if uses es k = 0 then None else Some (pending es done k))"

definition stands_for :: "string set \<Rightarrow> ('n, 'v, 'u) run \<Rightarrow> ('n, 'v, 'u) run \<Rightarrow> bool" where
  "stands_for done r q \<longleftrightarrow> run_dag r = run_dag q \<and> results r = results q
     \<and> port_data r = visible (edges (run_dag q)) done (port_data q)
     \<and> consumer_counts r = to_come (edges (run_dag q)) done"

text \<open>A node may run next: it has not run, and no consumer of its outputs has, nor is it its own.\<close>

definition may_run :: "DagEdge list \<Rightarrow> string set \<Rightarrow> string \<Rightarrow> bool" where
  "may_run es done name \<longleftrightarrow> name \<notin> done \<and> (\<forall>e \<in> set es. from_node e = name \<longrightarrow> to_node e \<noteq> name \<and> to_node e \<notin> done)"

lemma may_run_live:
  assumes "may_run es done name"
  shows "live es done (name, port)" and "live es (insert name done) (name, port)"
proof -
  have "pending es done (name, port) = uses es (name, port)" "pending es (insert name done) (name, port) = uses es (name, port)"
    using assms by (intro pending_all; auto simp: may_run_def)+
  then show "live es done (name, port)" "live es (insert name done) (name, port)" by arith+
qed

lemma need_uses: "0 < need es name k \<Longrightarrow> 0 < uses es k"
  by (auto simp: need_def uses_def filter_empty_conv)

lemma collect_inputs_eq:
  assumes m: "may_run es done name"
  shows "collect_inputs name es (visible es done store) (to_come es done) =
    Some (ref_inputs es name store, visible es (insert name done) (settle es name store), to_come es (insert name done))"
proof -
  let ?vis = "visible es done store" and ?cc = "to_come es done"
  have out: "name \<notin> done" using m by (simp add: may_run_def)
  note split = pending_insert [OF out, of es]
  have enough: "\<exists>c. ?cc k = Some c \<and> need es name k \<le> c" if "0 < need es name k" for k
    using need_uses [OF that] need_le [OF out] by (simp add: to_come_def)
  let ?ins = "\<lambda>port. if has_edge es name port then None else ?vis (name, port)"
    and ?pd = "\<lambda>(n, port). if n = name \<and> \<not> has_edge es name port then None else ?vis (n, port)"
  have "gather es name ?pd ?ins = ref_inputs es name store"
  proof -
    have init: "?ins = (\<lambda>port. if has_edge es name port then None else store (name, port))"
      using may_run_live(1) [OF m] by (auto simp: visible_def fun_eq_iff)
    show ?thesis unfolding init ref_inputs_def
    proof (rule gather_cong)
      fix e assume e: "e \<in> set es" "to_node e = name"
      then have "from_node e \<noteq> name" using m by (auto simp: may_run_def)
      moreover have "0 < need es name (edge_key e)" using e need_0 [of es name "edge_key e"] by auto
      then have "0 < pending es done (edge_key e)" using need_le [OF out, of es "edge_key e"] by simp
      ultimately show "?pd (edge_key e) = store (edge_key e)" by (simp add: visible_def)
    qed
  qed
  moreover have "(\<lambda>k. if 0 < need es name k \<and> ?cc k = Some (need es name k) then None else ?pd k)
      = visible es (insert name done) (settle es name store)"
  proof
    fix k :: "string \<times> string"
    obtain n port where k: "k = (n, port)" by (cases k)
    show "(if 0 < need es name k \<and> ?cc k = Some (need es name k) then None else ?pd k)
        = visible es (insert name done) (settle es name store) k"
      using split [of k] need_uses [of es name k] by (auto simp: k visible_def to_come_def settle_def)
  qed
  moreover have "(\<lambda>k. if 0 < need es name k then map_option (\<lambda>c. c - need es name k) (?cc k) else ?cc k)
      = to_come es (insert name done)"
  proof
    fix k
    show "(if 0 < need es name k then map_option (\<lambda>c. c - need es name k) (?cc k) else ?cc k) = to_come es (insert name done) k"
      using split [of k] need_uses [of es name k] by (cases "need es name k") (auto simp: to_come_def)
  qed
  moreover have "take_edges name es ?ins ?pd ?cc = Some (gather es name ?pd ?ins,
      \<lambda>k. if 0 < need es name k \<and> ?cc k = Some (need es name k) then None else ?pd k,
      \<lambda>k. if 0 < need es name k then map_option (\<lambda>c. c - need es name k) (?cc k) else ?cc k)"
    by (rule take_edges_eq) (rule enough)
  ultimately show ?thesis unfolding collect_inputs_def by (simp only:)
qed

lemma put_node_simps [simp]:
  "edges (put_node i node dag) = edges dag" "initial_inputs (put_node i node dag) = initial_inputs dag"
  "length (nodes (put_node i node dag)) = length (nodes dag)"
  "map ne_name (nodes (put_node i node dag)) = map ne_name (nodes dag)"
proof -
  show "map ne_name (nodes (put_node i node dag)) = map ne_name (nodes dag)"
    by (cases "i < length (nodes dag)") (simp_all add: put_node_def map_update list_update_beyond list_update_same_conv)
qed (simp_all add: put_node_def)

lemma node_name_put [simp]: "node_name (put_node i node dag) j = node_name dag j"
  by (cases "i < length (nodes dag)") (auto simp: put_node_def nth_list_update list_update_beyond)

lemma emit_simps [simp]:
  "run_dag (emit evs r) = run_dag r" "port_data (emit evs r) = port_data r" "consumer_counts (emit evs r) = consumer_counts r"
  "results (emit evs r) = results r" "undo_stack (emit evs r) = undo_stack r" "emitted (emit evs r) = emitted r @ evs"
  by (simp_all add: emit_def)

lemma stands_for_cong:
  assumes "stands_for done r q" and "run_dag r' = run_dag r" "results r' = results r" "port_data r' = port_data r" "consumer_counts r' = consumer_counts r"
    and "run_dag q' = run_dag q" "results q' = results q" "port_data q' = port_data q"
  shows "stands_for done r' q'"
  using assms by (simp add: stands_for_def)

text \<open>What \<open>perform\<close> does, once for a run and for the reference it stands for.\<close>

lemma insert_visible:
  assumes "\<And>port. live es done (name, port)"
  shows "insert_outputs name outs (visible es done store) = visible es done (insert_outputs name outs store)"
proof
  fix k :: "string \<times> string"
  obtain n port where k: "k = (n, port)" by (cases k)
  show "insert_outputs name outs (visible es done store) k = visible es done (insert_outputs name outs store) k"
    using assms [of port] by (cases "n = name"; cases "outs port") (auto simp: k visible_def insert_outputs_def)
qed

lemma perform_stands_for:
  assumes s: "stands_for done r q" and lv: "\<And>port. live (edges (run_dag q)) done (node_name (run_dag q) i, port)"
  shows "stands_for done (fst (perform ops level i ins r)) (fst (perform ops level i ins q))"
    and "snd (perform ops level i ins r) = snd (perform ops level i ins q)"
proof -
  obtain node outcome where x: "execute ops (node_at (run_dag q) i) ins = (node, outcome)" by (cases "execute ops (node_at (run_dag q) i) ins")
  have dag: "run_dag r = run_dag q" using s by (simp add: stands_for_def)
  show "snd (perform ops level i ins r) = snd (perform ops level i ins q)"
    using x dag by (simp add: perform_def Let_def split: sum.splits)
  have "insert_outputs (node_name (run_dag q) i) outs (visible (edges (run_dag q)) done (port_data q))
      = visible (edges (run_dag q)) done (insert_outputs (node_name (run_dag q) i) outs (port_data q))" for outs
    by (rule insert_visible) (rule lv)
  then show "stands_for done (fst (perform ops level i ins r)) (fst (perform ops level i ins q))"
    using s x dag by (auto simp: perform_def Let_def stands_for_def split: sum.splits)
qed

lemma perform_emitted: "emitted (fst (perform ops level i ins r)) =
    emitted r @ (case execute ops (node_at (run_dag r) i) ins of
        (_, Inr (outs, nr)) \<Rightarrow> NodeStarted (node_name (run_dag r) i) (node_type ops (node_at (run_dag r) i)) level
          # map (\<lambda>(lvl, t). NodeLog (node_name (run_dag r) i) (node_type ops (node_at (run_dag r) i)) lvl t) (logs nr)
          @ [NodeCompleted (node_name (run_dag r) i) (metrics nr)]
      | (_, Inl e) \<Rightarrow> [NodeStarted (node_name (run_dag r) i) (node_type ops (node_at (run_dag r) i)) level,
          NodeFailed (node_name (run_dag r) i) e, DagFailed (Message e)])"
  by (simp add: perform_def Let_def split: prod.splits sum.splits)

lemma single_node_refines:
  assumes s: "stands_for done r q" and m: "may_run (edges (run_dag q)) done (node_name (run_dag q) i)"
  shows "\<exists>r'. execute_single_node ops level i r = Some (r', snd (ref_node ops level i q))
    \<and> stands_for (insert (node_name (run_dag q) i) done) r' (fst (ref_node ops level i q))
    \<and> (emitted r = emitted q \<longrightarrow> emitted r' = emitted (fst (ref_node ops level i q)))"
proof -
  let ?es = "edges (run_dag q)" and ?name = "node_name (run_dag q) i"
  let ?pd = "visible ?es (insert ?name done) (settle ?es ?name (port_data q))" and ?cc = "to_come ?es (insert ?name done)"
  have dag: "run_dag r = run_dag q" using s by (simp add: stands_for_def)
  have c: "collect_inputs ?name ?es (port_data r) (consumer_counts r) = Some (ref_inputs ?es ?name (port_data q), ?pd, ?cc)"
    using collect_inputs_eq [OF m, of "port_data q"] s by (simp add: stands_for_def)
  have s': "stands_for (insert ?name done) (r\<lparr>port_data := ?pd, consumer_counts := ?cc\<rparr>)
      (q\<lparr>port_data := settle ?es ?name (port_data q)\<rparr>)"
    using s by (simp add: stands_for_def)
  let ?r' = "perform ops level i (ref_inputs ?es ?name (port_data q)) (r\<lparr>port_data := ?pd, consumer_counts := ?cc\<rparr>)"
  have "execute_single_node ops level i r = Some ?r'"
    unfolding execute_single_node_def dag c by simp
  moreover note perform_stands_for [OF s', of i ops level "ref_inputs ?es ?name (port_data q)"]
  moreover have "emitted r = emitted q \<longrightarrow> emitted (fst ?r') = emitted (fst (ref_node ops level i q))"
    by (simp add: perform_emitted ref_node_def Let_def dag split: prod.splits sum.splits)
  ultimately show ?thesis
    using may_run_live(2) [OF m] by (cases ?r') (auto simp: ref_node_def Let_def)
qed

section \<open>Orders that respect the edges\<close>

fun ready :: "DagEdge list \<Rightarrow> string list \<Rightarrow> string set \<Rightarrow> nat list \<Rightarrow> bool" where
  "ready es N done [] = True"
| "ready es N done (i # is) = (may_run es done (N ! i) \<and> ready es N (insert (N ! i) done) is)"

lemma ready_append: "ready es N done (xs @ ys) \<longleftrightarrow> ready es N done xs \<and> ready es N (done \<union> (!) N ` set xs) ys"
  by (induction xs arbitrary: "done") auto

lemma ready_may_run: "ready es N done is \<Longrightarrow> j \<in> set is \<Longrightarrow> may_run es done (N ! j)"
  by (induction "is" arbitrary: "done") (auto simp: may_run_def)

lemma layered_prefix:
  assumes "layered E levels" and d: "distinct (concat levels)" and c: "concat levels = ys @ x # zs" and "(u, x) \<in> E"
  shows "u \<in> set ys"
proof -
  obtain k where k: "k < length levels" "x \<in> set (levels ! k)"
    using c concat_set_nth [of x levels] by auto
  let ?P = "concat (take k levels)" and ?Q = "concat (drop k levels)"
  have split: "?P @ ?Q = ys @ x # zs" using c by (metis append_take_drop_id concat_append)
  have "x \<in> set ?Q" using k by (auto simp: Cons_nth_drop_Suc [symmetric])
  then have "x \<notin> set ?P" using d by (metis append_take_drop_id concat_append disjoint_iff distinct_append)
  have u: "u \<in> set ?P" using assms(1,4) k unfolding layered_def by blast
  from split consider us where "?P = ys @ us" "us @ ?Q = x # zs" | us where "?P @ us = ys" "?Q = us @ x # zs"
    unfolding append_eq_append_conv2 by blast
  then show ?thesis
  proof cases
    case 1
    then have "us = []" using \<open>x \<notin> set ?P\<close> by (cases us) auto
    then show ?thesis using u 1(1) by simp
  next
    case 2
    then show ?thesis using u by auto
  qed
qed

lemma schedule_ready:
  assumes names: "distinct (map ne_name (nodes dag))" and s: "schedule dag levels"
  shows "ready (edges dag) (map ne_name (nodes dag)) {} (concat levels)"
proof -
  let ?N = "map ne_name (nodes dag)" and ?E = "edge_rel dag"
  have d: "distinct (concat levels)" "set (concat levels) = {..<length (nodes dag)}" "layered ?E levels"
    using s by (auto simp: schedule_def)
  have may: "may_run (edges dag) ((!) ?N ` set ys) (?N ! i)" if c: "concat levels = ys @ i # zs" for ys i zs
  proof -
    have i: "i < length (nodes dag)" and ys: "set ys \<subseteq> {..<length (nodes dag)}" "i \<notin> set ys" using c d(1,2) by auto
    have edge: "(i, j) \<in> ?E" if "e \<in> set (edges dag)" "from_node e = ?N ! i" "to_node e = ?N ! j" "j < length (nodes dag)" for e j
      using that name_to_idx_distinct [OF names] i unfolding edge_rel_def by (auto intro!: bexI [of _ e])
    have before: "i \<in> set as" if "ys @ [i] = as @ j # bs" "(i, j) \<in> ?E" for as j bs
      by (rule layered_prefix [OF d(3,1) _ that(2), of as "bs @ zs"]) (use c that(1) in simp)
    have "(i, j) \<notin> ?E" if j: "j \<in> set (ys @ [i])" for j
    proof
      assume e: "(i, j) \<in> ?E"
      obtain as bs where ab: "ys @ [i] = as @ j # bs" using split_list [OF j] by blast
      then have "i \<in> set as" by (rule before [OF _ e])
      moreover have "distinct (as @ j # bs)" unfolding ab [symmetric] using c d(1) by auto
      moreover have "last (as @ j # bs) = i" unfolding ab [symmetric] by simp
      then have "i \<in> set (j # bs)" by (metis last_appendR last_in_set list.distinct(1))
      ultimately show False by auto
    qed
    moreover have "?N ! i \<notin> (!) ?N ` set ys"
    proof
      assume "?N ! i \<in> (!) ?N ` set ys"
      then obtain y where y: "y \<in> set ys" "?N ! y = ?N ! i" by auto
      then have "y < length ?N" "i < length ?N" using ys(1) i by auto
      then have "y = i" using y(2) nth_eq_iff_index_eq [OF names] by blast
      then show False using y(1) ys(2) by simp
    qed
    ultimately show ?thesis using edge i ys(1) unfolding may_run_def by fastforce
  qed
  have "ready (edges dag) ?N ((!) ?N ` set ys) zs" if "concat levels = ys @ zs" for ys zs
    using that
  proof (induction zs arbitrary: ys)
    case (Cons i zs)
    have "ready (edges dag) ?N ((!) ?N ` set (ys @ [i])) zs" by (rule Cons.IH) (use Cons.prems in simp)
    then show ?case using may [OF Cons.prems] by simp
  qed simp
  from this [of "[]"] show ?thesis by simp
qed

section \<open>Sequential runs refine the reference\<close>

definition shape :: "('n, 'v, 'u) run \<Rightarrow> DagEdge list \<times> string list" where
  "shape q = (edges (run_dag q), map ne_name (nodes (run_dag q)))"

lemma shape_name: "shape q = (es, N) \<Longrightarrow> i < length N \<Longrightarrow> node_name (run_dag q) i = N ! i"
  by (auto simp: shape_def)

lemma perform_shape [simp]: "shape (fst (perform ops level i ins r)) = shape r"
  by (simp add: perform_def shape_def Let_def split: prod.splits sum.splits)

lemma ref_node_shape [simp]: "shape (fst (ref_node ops level i q)) = shape q"
  by (simp add: ref_node_def Let_def) (simp add: shape_def)

lemma shape_results [simp]: "shape (q\<lparr>results := x\<rparr>) = shape q" "shape (q\<lparr>port_data := y\<rparr>) = shape q"
    "shape (q\<lparr>consumer_counts := z\<rparr>) = shape q" "shape (emit evs q) = shape q" "shape (q\<lparr>undo_stack := w\<rparr>) = shape q"
  by (simp_all add: shape_def emit_def)

lemma seq_nodes_refines:
  assumes "stands_for done r q" and "emitted r = emitted q" and "shape q = (es, N)" and "ready es N done is" and "set is \<subseteq> {..<length N}"
  shows "\<exists>r' done'. seq_nodes ops level is r = Some (r', snd (ref_run ops level is q))
    \<and> stands_for done' r' (fst (ref_run ops level is q)) \<and> emitted r' = emitted (fst (ref_run ops level is q))
    \<and> shape (fst (ref_run ops level is q)) = (es, N)
    \<and> (snd (ref_run ops level is q) = Inr () \<longrightarrow> done' = done \<union> (!) N ` set is)"
  using assms
proof (induction "is" arbitrary: r q "done")
  case Nil
  then show ?case by auto
next
  case (Cons i "is")
  have name: "node_name (run_dag q) i = N ! i" using shape_name [OF Cons.prems(3), of i] Cons.prems(5) by simp
  have es: "edges (run_dag q) = es" using Cons.prems(3) by (simp add: shape_def)
  have dag: "run_dag r = run_dag q" using Cons.prems(1) by (simp add: stands_for_def)
  obtain r' where r': "execute_single_node ops level i r = Some (r', snd (ref_node ops level i q))"
    "stands_for (insert (N ! i) done) r' (fst (ref_node ops level i q))"
    "emitted r' = emitted (fst (ref_node ops level i q))"
    using single_node_refines [OF Cons.prems(1), of i ops level] Cons.prems(2,4) name es by auto
  obtain q' res where q: "ref_node ops level i q = (q', res)" by (cases "ref_node ops level i q")
  have shape: "shape q' = (es, N)" using ref_node_shape [of ops level i q] q Cons.prems(3) by simp
  show ?case
  proof (cases res)
    case (Inl e)
    then show ?thesis using r' q shape by auto
  next
    case (Inr nr)
    let ?r = "r'\<lparr>results := results r' @ [(node_name (run_dag r) i, nr)]\<rparr>"
      and ?q = "q'\<lparr>results := results q' @ [(node_name (run_dag q) i, nr)]\<rparr>"
    have "stands_for (insert (N ! i) done) ?r ?q" "emitted ?r = emitted ?q" "shape ?q = (es, N)"
      using r' q dag shape by (auto simp: stands_for_def)
    from Cons.IH [OF this] Cons.prems(4,5) show ?thesis using r'(1) q Inr by auto
  qed
qed

lemma seq_levels_refines:
  assumes "stands_for done r q" and "emitted r = emitted q" and "shape q = (es, N)" and "ready es N done (concat levels)"
    and "set (concat levels) \<subseteq> {..<length N}"
  shows "\<exists>r' done'. seq_levels ops k levels r = Some (r', snd (ref_levels ops k levels q))
    \<and> stands_for done' r' (fst (ref_levels ops k levels q)) \<and> emitted r' = emitted (fst (ref_levels ops k levels q))
    \<and> shape (fst (ref_levels ops k levels q)) = (es, N)
    \<and> (snd (ref_levels ops k levels q) = Inr () \<longrightarrow> done' = done \<union> (!) N ` set (concat levels))"
  using assms
proof (induction levels arbitrary: r q "done" k)
  case (Cons level levels)
  obtain r' done' where r': "seq_nodes ops k level r = Some (r', snd (ref_run ops k level q))"
    "stands_for done' r' (fst (ref_run ops k level q))" "emitted r' = emitted (fst (ref_run ops k level q))"
    "shape (fst (ref_run ops k level q)) = (es, N)"
    "snd (ref_run ops k level q) = Inr () \<longrightarrow> done' = done \<union> (!) N ` set level"
    using seq_nodes_refines [OF Cons.prems(1-3), of level ops k] Cons.prems(4,5) by (auto simp: ready_append)
  obtain q' res where q: "ref_run ops k level q = (q', res)" by (cases "ref_run ops k level q")
  show ?case
  proof (cases res)
    case (Inl e)
    then show ?thesis using r' q by auto
  next
    case (Inr u)
    then have "stands_for (done \<union> (!) N ` set level) r' q'" using r'(2,5) q by simp
    from Cons.IH [OF this, of "k + 1"] Cons.prems(4,5) r' q Inr show ?thesis by (auto simp: ready_append Un_assoc image_Un)
  qed
qed auto

lemma start_stands_for: "stands_for {} (start_run dag) (start_run dag)"
  by (auto simp: stands_for_def start_run_def visible_def to_come_def pending_empty count_consumers_uses fun_eq_iff)

lemma start_shape: "shape (start_run dag) = (edges dag, map ne_name (nodes dag))"
  by (simp add: shape_def start_run_def)

text \<open>At the end every consumer has run: what is left are the outputs nothing consumes.\<close>

definition unconsumed :: "DagEdge list \<Rightarrow> 'v ports \<Rightarrow> 'v ports" where
  "unconsumed es store = (\<lambda>k. if uses es k = 0 then store k else None)"

lemma visible_end:
  assumes "\<And>e. e \<in> set es \<Longrightarrow> to_node e \<in> done"
  shows "visible es done store = unconsumed es store"
proof -
  have "pending es done k = 0" for k using assms by (auto simp: pending_def filter_empty_conv)
  then show ?thesis by (simp add: visible_def unconsumed_def fun_eq_iff)
qed

definition ref_execute :: "('n, 'v, 'u) Node \<Rightarrow> ('n, 'v) Dag \<Rightarrow> nat list list \<Rightarrow> ('n, 'v) finished" where
  "ref_execute ops dag levels =
     (case ref_levels ops 0 levels (start_run dag) of
        (q, Inl e) \<Rightarrow> ((run_dag q, emitted q), Inl e)
      | (q, Inr _) \<Rightarrow> ((run_dag q, emitted q @ [DagCompleted (length (nodes dag))]),
          Inr \<lparr>node_results = results q, dr_outputs = unconsumed (edges dag) (port_data q)\<rparr>))"

text \<open>The graphs the runtime is specified for: distinct node names, known edges, no cycle.\<close>

definition runnable :: "('n, 'v) Dag \<Rightarrow> nat list list \<Rightarrow> bool" where
  "runnable dag levels \<longleftrightarrow> distinct (map ne_name (nodes dag)) \<and> edges_known dag \<and> topological_levels dag = Some (Inr levels)"

lemma runnable_schedule:
  assumes "runnable dag levels"
  shows "schedule dag levels" and "ready (edges dag) (map ne_name (nodes dag)) {} (concat levels)"
    and "set (concat levels) = {..<length (map ne_name (nodes dag))}"
proof -
  obtain levels' where l: "topological_levels dag = Some (if acyclic (edge_rel dag) then Inr levels' else Inl CycleDetected)"
    "acyclic (edge_rel dag) \<longrightarrow> schedule dag levels'"
    using levels_known [of dag] assms by (auto simp: runnable_def)
  then show s: "schedule dag levels" using assms by (auto simp: runnable_def split: if_splits)
  then show "ready (edges dag) (map ne_name (nodes dag)) {} (concat levels)"
    using schedule_ready assms by (auto simp: runnable_def)
  show "set (concat levels) = {..<length (map ne_name (nodes dag))}" using s by (simp add: schedule_def)
qed

lemma runnable_done:
  assumes "runnable dag levels" and "e \<in> set (edges dag)"
  shows "to_node e \<in> (!) (map ne_name (nodes dag)) ` set (concat levels)"
proof -
  have "to_node e \<in> set (map ne_name (nodes dag))" using assms by (auto simp: runnable_def edges_known_def)
  then obtain j where "j < length (map ne_name (nodes dag))" "to_node e = map ne_name (nodes dag) ! j"
    by (metis in_set_conv_nth)
  then show ?thesis unfolding runnable_schedule(3) [OF assms(1)] by blast
qed

lemma sequential_refines:
  assumes r: "runnable dag levels"
  shows "execute_sequential ops dag = Some (ref_execute ops dag levels)"
proof -
  let ?N = "map ne_name (nodes dag)" and ?q0 = "start_run dag"
  obtain r' done' where s: "seq_levels ops 0 levels ?q0 = Some (r', snd (ref_levels ops 0 levels ?q0))"
    "stands_for done' r' (fst (ref_levels ops 0 levels ?q0))" "emitted r' = emitted (fst (ref_levels ops 0 levels ?q0))"
    "shape (fst (ref_levels ops 0 levels ?q0)) = (edges dag, ?N)"
    "snd (ref_levels ops 0 levels ?q0) = Inr () \<longrightarrow> done' = (!) ?N ` set (concat levels)"
    using seq_levels_refines [OF start_stands_for refl start_shape runnable_schedule(2) [OF r], of ops 0]
      runnable_schedule(3) [OF r] by auto
  have t: "topological_levels dag = Some (Inr levels)" using r by (simp add: runnable_def)
  obtain q res where q: "ref_levels ops 0 levels ?q0 = (q, res)" by (cases "ref_levels ops 0 levels ?q0")
  show ?thesis
  proof (cases res)
    case (Inl e)
    then show ?thesis using s(1,2,3) t q by (simp add: execute_sequential_def ref_execute_def stands_for_def)
  next
    case (Inr u)
    then have "visible (edges dag) done' (port_data q) = unconsumed (edges dag) (port_data q)"
      using visible_end [of "edges dag" done'] runnable_done [OF r] s(5) q by simp
    moreover have "edges (run_dag q) = edges dag" using s(4) q by (simp add: shape_def)
    ultimately show ?thesis using Inr s(1,2,3) t q by (simp add: execute_sequential_def ref_execute_def stands_for_def)
  qed
qed

section \<open>Parallel levels\<close>

text \<open>No edge joins two nodes of a level, so what one of them does is invisible to the inputs of another.\<close>

definition indep :: "DagEdge list \<Rightarrow> string set \<Rightarrow> bool" where
  "indep es X \<longleftrightarrow> (\<forall>e \<in> set es. from_node e \<in> X \<longrightarrow> to_node e \<notin> X)"

definition settles :: "DagEdge list \<Rightarrow> string list \<Rightarrow> nat list \<Rightarrow> 'v ports \<Rightarrow> 'v ports" where
  "settles es N is store = fold (\<lambda>i. settle es (N ! i)) is store"

lemma settles_simps [simp]: "settles es N [] store = store"
    "settles es N (i # is) store = settles es N is (settle es (N ! i) store)"
  by (simp_all add: settles_def)

lemma settle_insert: "x \<noteq> y \<Longrightarrow> settle es y (insert_outputs x outs store) = insert_outputs x outs (settle es y store)"
  by (auto simp: settle_def insert_outputs_def fun_eq_iff split: option.splits)

lemma settles_insert:
  "x \<notin> (!) N ` set is \<Longrightarrow> settles es N is (insert_outputs x outs store) = insert_outputs x outs (settles es N is store)"
  by (induction "is" arbitrary: store) (auto simp: settle_insert)

lemma ref_inputs_cong:
  assumes "\<And>k. fst k \<notin> X \<Longrightarrow> s k = s' k" and "name \<notin> X" and "\<And>e. e \<in> set es \<Longrightarrow> to_node e = name \<Longrightarrow> from_node e \<notin> X"
  shows "ref_inputs es name s = ref_inputs es name s'"
proof -
  have "(\<lambda>port. if has_edge es name port then None else s (name, port)) = (\<lambda>port. if has_edge es name port then None else s' (name, port))"
    using assms(1,2) by (auto simp: fun_eq_iff)
  then show ?thesis
    unfolding ref_inputs_def using assms(1,3) gather_cong [of es name s s'] by simp
qed

lemma trigger_cong:
  assumes "\<And>e. e \<in> set es \<Longrightarrow> to_node e = name \<Longrightarrow> (s (edge_key e) = None) = (s' (edge_key e) = None)"
  shows "trigger_unsatisfied ops node name es s = trigger_unsatisfied ops node name es s'"
proof -
  have "list_ex (\<lambda>e. to_node e = name \<and> to_port e = port \<and> s (edge_key e) \<noteq> None) es
      = list_ex (\<lambda>e. to_node e = name \<and> to_port e = port \<and> s' (edge_key e) \<noteq> None) es" for port
    unfolding list_ex_iff by (intro bex_cong refl conj_cong) (simp add: assms)
  then show ?thesis by (simp add: trigger_unsatisfied_def)
qed

lemma settle_other: "fst k \<noteq> name \<Longrightarrow> settle es name store k = store k"
  by (auto simp: settle_def split: prod.splits)

lemma take_tasks_eq:
  assumes "stands_for done r q" and "shape q = (es, N)" and "ready es N done is" and "set is \<subseteq> {..<length N}"
    and "\<And>k. fst k \<notin> X \<Longrightarrow> port_data q k = store k" and "X \<inter> (!) N ` set is = {}" and "indep es (X \<union> (!) N ` set is)"
    and "list_all (\<lambda>i. \<not> trigger_unsatisfied ops (node_at (run_dag q) i) (N ! i) es store) is"
  shows "take_tasks ops is r =
    Some (r\<lparr>port_data := visible es (done \<union> (!) N ` set is) (settles es N is (port_data q)),
            consumer_counts := to_come es (done \<union> (!) N ` set is)\<rparr>,
          map (\<lambda>i. (i, N ! i, ref_inputs es (N ! i) store, node_at (run_dag q) i)) is, [])"
  using assms
proof (induction "is" arbitrary: r q "done" X)
  case Nil
  then show ?case by (simp add: stands_for_def shape_def)
next
  case (Cons i "is")
  let ?n = "N ! i"
  have name: "node_name (run_dag q) i = ?n" using shape_name [OF Cons.prems(2), of i] Cons.prems(4) by simp
  have es: "edges (run_dag q) = es" using Cons.prems(2) by (simp add: shape_def)
  have r: "run_dag r = run_dag q" "port_data r = visible es done (port_data q)" "consumer_counts r = to_come es done"
    using Cons.prems(1) es by (simp_all add: stands_for_def)
  have m: "may_run es done ?n" using Cons.prems(3) by simp
  have src: "from_node e \<notin> X \<and> from_node e \<noteq> ?n" if "e \<in> set es" "to_node e = ?n" for e
    using Cons.prems(7) that by (auto simp: indep_def)
  have "trigger_unsatisfied ops (node_at (run_dag q) i) ?n es (port_data r) = trigger_unsatisfied ops (node_at (run_dag q) i) ?n es store"
  proof (rule trigger_cong)
    fix e assume e: "e \<in> set es" "to_node e = ?n"
    have "0 < need es ?n (edge_key e)" using e need_0 [of es ?n "edge_key e"] by auto
    moreover have "?n \<notin> done" using m by (simp add: may_run_def)
    ultimately have "0 < pending es done (edge_key e)" using need_le [of ?n "done" es "edge_key e"] by simp
    then show "(port_data r (edge_key e) = None) = (store (edge_key e) = None)"
      using src [OF e] Cons.prems(5) [of "edge_key e"] by (simp add: r(2) visible_def)
  qed
  then have trig: "\<not> trigger_unsatisfied ops (node_at (run_dag r) i) ?n es (port_data r)"
    using Cons.prems(8) r(1) by simp
  have ins: "ref_inputs es ?n (port_data q) = ref_inputs es ?n store"
    by (rule ref_inputs_cong [of X]) (use Cons.prems(5,6) src in auto)
  have c: "collect_inputs ?n es (port_data r) (consumer_counts r)
      = Some (ref_inputs es ?n store, visible es (insert ?n done) (settle es ?n (port_data q)), to_come es (insert ?n done))"
    using collect_inputs_eq [OF m, of "port_data q"] by (simp add: r ins)
  let ?r = "r\<lparr>port_data := visible es (insert ?n done) (settle es ?n (port_data q)), consumer_counts := to_come es (insert ?n done)\<rparr>"
    and ?q = "q\<lparr>port_data := settle es ?n (port_data q)\<rparr>"
  have "stands_for (insert ?n done) ?r ?q" using Cons.prems(1) es by (simp add: stands_for_def)
  moreover have "?n \<notin> (!) N ` set is"
    using ready_may_run [of es N "insert ?n done" "is"] Cons.prems(3) by (fastforce simp: may_run_def)
  ultimately have "take_tasks ops is ?r =
    Some (?r\<lparr>port_data := visible es (insert ?n done \<union> (!) N ` set is) (settles es N is (port_data ?q)),
            consumer_counts := to_come es (insert ?n done \<union> (!) N ` set is)\<rparr>,
          map (\<lambda>i. (i, N ! i, ref_inputs es (N ! i) store, node_at (run_dag ?q) i)) is, [])"
    using Cons.prems(2-8) by (intro Cons.IH [where X = "insert ?n X"]) (auto simp: settle_other)
  then show ?case
    using trig c name es r(1) by (simp add: Let_def)
qed

lemma put_node_other: "i \<noteq> j \<Longrightarrow> node_at (put_node i node dag) j = node_at dag j"
  by (simp add: put_node_def)

lemma drain_refines:
  assumes "snd (ref_run ops level is q) = Inr ()" and "shape q = (es, N)" and "set is \<subseteq> {..<length N}" and "distinct is"
    and "distinct N" and "indep es ((!) N ` set is)"
    and "stands_for D (r\<lparr>results := results q\<rparr>) (q\<lparr>port_data := settles es N is (port_data q)\<rparr>)"
    and "\<And>i port. i \<in> set is \<Longrightarrow> live es D (N ! i, port)"
    and "\<And>i. i \<in> set is \<Longrightarrow> inp i = ref_inputs es (N ! i) (port_data q) \<and> nd i = node_at (run_dag q) i"
  shows "\<exists>r' new. drain (map (\<lambda>i. run_task ops (i, N ! i, inp i, nd i)) is) r None acc = (r', None, acc @ new)
    \<and> results r' = results r \<and> undo_stack r' = undo_stack r
    \<and> results (fst (ref_run ops level is q)) = results q @ new
    \<and> stands_for D (r'\<lparr>results := results q @ new\<rparr>) (fst (ref_run ops level is q))
    \<and> shape (fst (ref_run ops level is q)) = (es, N)"
  using assms
proof (induction "is" arbitrary: q r acc)
  case Nil
  then show ?case by (simp add: stands_for_def shape_def)
next
  case (Cons i "is")
  let ?n = "N ! i"
  have name: "node_name (run_dag q) i = ?n" using shape_name [OF Cons.prems(2), of i] Cons.prems(3) by simp
  have es: "edges (run_dag q) = es" using Cons.prems(2) by (simp add: shape_def)
  have inp: "inp i = ref_inputs es ?n (port_data q)" "nd i = node_at (run_dag q) i" using Cons.prems(9) [of i] by simp_all
  obtain node outcome where x: "execute ops (node_at (run_dag q) i) (inp i) = (node, outcome)"
    by (cases "execute ops (node_at (run_dag q) i) (inp i)")
  obtain outs nr where o: "outcome = Inr (outs, nr)"
  proof (cases outcome)
    case (Inl e)
    then have "snd (ref_run ops level (i # is) q) = Inl (NodeError ?n e)"
      using x name es inp by (simp add: ref_node_def perform_def Let_def)
    then show thesis using Cons.prems(1) by simp
  qed (metis surj_pair that)
  define q1 where "q1 = (fst (ref_node ops level i q))\<lparr>results := results q @ [(?n, nr)]\<rparr>"
  have node: "run_dag q1 = put_node i node (run_dag q)" "port_data q1 = insert_outputs ?n outs (settle es ?n (port_data q))"
    "results q1 = results q @ [(?n, nr)]" "results (fst (ref_node ops level i q)) = results q"
    using x o name es inp by (simp_all add: q1_def ref_node_def perform_def Let_def)
  have ref: "ref_run ops level (i # is) q = ref_run ops level is q1"
    using x o name es inp node(4) by (simp add: ref_node_def perform_def Let_def q1_def)
  have shape: "shape q1 = (es, N)" using ref_node_shape [of ops level i q] Cons.prems(2) by (simp add: q1_def)
  have fresh: "?n \<notin> (!) N ` set is"
  proof
    assume "?n \<in> (!) N ` set is"
    then obtain j where "j \<in> set is" "N ! j = ?n" by auto
    then have "j = i" using Cons.prems(3,5) nth_eq_iff_index_eq [of N j i] by auto
    then show False using \<open>j \<in> set is\<close> Cons.prems(4) by simp
  qed
  define r1 where "r1 = emit (NodeCompleted ?n (metrics nr) # map (\<lambda>(lvl, t). NodeLog ?n [] lvl t) (logs nr))
    (r\<lparr>run_dag := put_node i node (run_dag r), port_data := insert_outputs ?n outs (port_data r)\<rparr>)"
  have step: "drain (map (\<lambda>i. run_task ops (i, N ! i, inp i, nd i)) (i # is)) r None acc
      = drain (map (\<lambda>i. run_task ops (i, N ! i, inp i, nd i)) is) r1 None (acc @ [(?n, nr)])"
    using x o inp by (simp add: Let_def r1_def)
  have "insert_outputs ?n outs (visible es D (settles es N (i # is) (port_data q)))
      = visible es D (settles es N is (port_data q1))"
    using insert_visible [of es ?n D outs] Cons.prems(8) [of i] settles_insert [OF fresh, of es outs] by (simp add: node(2))
  then have s: "stands_for D (r1\<lparr>results := results q1\<rparr>) (q1\<lparr>port_data := settles es N is (port_data q1)\<rparr>)"
    using Cons.prems(7) es node(1,3) by (simp add: stands_for_def r1_def emit_def)
  have rest: "inp j = ref_inputs es (N ! j) (port_data q1) \<and> nd j = node_at (run_dag q1) j" if j: "j \<in> set is" for j
  proof
    have "ref_inputs es (N ! j) (port_data q1) = ref_inputs es (N ! j) (port_data q)"
    proof (rule ref_inputs_cong [of "{?n}"])
      show "port_data q1 k = port_data q k" if "fst k \<notin> {?n}" for k
        using that by (auto simp: node(2) insert_outputs_def settle_def split: prod.splits)
      have "N ! j \<in> (!) N ` set is" using j by (rule imageI)
      then show "N ! j \<notin> {?n}" using fresh by auto
      show "from_node e \<notin> {?n}" if "e \<in> set es" "to_node e = N ! j" for e
        using Cons.prems(6) that j by (auto simp: indep_def)
    qed
    then show "inp j = ref_inputs es (N ! j) (port_data q1)" using Cons.prems(9) [of j] j by simp
    have "i \<noteq> j" using j Cons.prems(4) by auto
    then show "nd j = node_at (run_dag q1) j" using Cons.prems(9) [of j] j by (simp add: node(1) put_node_other)
  qed
  have "indep es ((!) N ` set is)" using Cons.prems(6) by (auto simp: indep_def)
  then obtain r' new where IH: "drain (map (\<lambda>i. run_task ops (i, N ! i, inp i, nd i)) is) r1 None (acc @ [(?n, nr)]) = (r', None, (acc @ [(?n, nr)]) @ new)"
    "results r' = results r1" "undo_stack r' = undo_stack r1" "results (fst (ref_run ops level is q1)) = results q1 @ new"
    "stands_for D (r'\<lparr>results := results q1 @ new\<rparr>) (fst (ref_run ops level is q1))"
    "shape (fst (ref_run ops level is q1)) = (es, N)"
    using Cons.IH [OF _ shape _ _ Cons.prems(5) _ s, of "acc @ [(?n, nr)]"] Cons.prems(1,3,4,8) rest ref by auto
  then show ?case unfolding step ref using node(3) by (intro exI [of _ r'] exI [of _ "(?n, nr) # new"]) (simp add: r1_def)
qed

lemma level_parallel_refines:
  assumes s: "stands_for done r q" and sh: "shape q = (es, N)" and rd: "ready es N done level" and "set level \<subseteq> {..<length N}"
    and "distinct level" and "distinct N" and ind: "indep es ((!) N ` set level)"
    and trig: "list_all (\<lambda>i. \<not> trigger_unsatisfied ops (node_at (run_dag q) i) (N ! i) es (port_data q)) level"
    and ok: "snd (ref_run ops k level q) = Inr ()"
  shows "\<exists>r' new. execute_level_parallel ops level r = Some (r', Inr new)
    \<and> stands_for (done \<union> (!) N ` set level) (r'\<lparr>results := results r' @ new\<rparr>) (fst (ref_run ops k level q))
    \<and> shape (fst (ref_run ops k level q)) = (es, N)"
proof -
  let ?D = "done \<union> (!) N ` set level"
  let ?r1 = "r\<lparr>port_data := visible es ?D (settles es N level (port_data q)), consumer_counts := to_come es ?D\<rparr>"
  let ?inp = "\<lambda>i. ref_inputs es (N ! i) (port_data q)" and ?nd = "\<lambda>i. node_at (run_dag q) i"
  have t: "take_tasks ops level r = Some (?r1, map (\<lambda>i. (i, N ! i, ?inp i, ?nd i)) level, [])"
    by (rule take_tasks_eq [OF s sh rd assms(4), where X = "{}"]) (use ind trig in auto)
  have res: "results r = results q" using s by (simp add: stands_for_def)
  have "edges (run_dag q) = es" using sh by (simp add: shape_def)
  then have s1: "stands_for ?D (?r1\<lparr>results := results q\<rparr>) (q\<lparr>port_data := settles es N level (port_data q)\<rparr>)"
    using s by (simp add: stands_for_def)
  have lv: "live es ?D (N ! i, port)" if i: "i \<in> set level" for i port
  proof -
    have "pending es ?D (N ! i, port) = uses es (N ! i, port)"
    proof (rule pending_all)
      fix e assume e: "e \<in> set es" "edge_key e = (N ! i, port)"
      then have "to_node e \<notin> (!) N ` set level" using ind i by (auto simp: indep_def)
      then show "to_node e \<notin> ?D" using ready_may_run [OF rd i] e by (auto simp: may_run_def)
    qed
    then show ?thesis by arith
  qed
  obtain r' new where d: "drain (map (\<lambda>i. run_task ops (i, N ! i, ?inp i, ?nd i)) level) ?r1 None [] = (r', None, [] @ new)"
    "results r' = results ?r1" "stands_for ?D (r'\<lparr>results := results q @ new\<rparr>) (fst (ref_run ops k level q))"
    "shape (fst (ref_run ops k level q)) = (es, N)"
    using drain_refines [OF ok sh assms(4-6) ind s1 lv, of ?inp ?nd "[]"] by auto
  have "map (run_task ops) (map (\<lambda>i. (i, N ! i, ?inp i, ?nd i)) level) = map (\<lambda>i. run_task ops (i, N ! i, ?inp i, ?nd i)) level"
    by simp
  then have "execute_level_parallel ops level r = Some (r', Inr new)"
    unfolding execute_level_parallel_def t using d(1) by (simp only: option.case prod.case append_Nil append_Nil2)
  then show ?thesis using d(2-4) res by auto
qed

lemma stands_for_capture: "stands_for done r q \<Longrightarrow> stands_for done (capture_undo ops i r) q"
  by (simp add: capture_undo_def Let_def stands_for_def split: option.splits)

lemma stands_for_captures: "stands_for done (r\<lparr>results := rs\<rparr>) q \<Longrightarrow> stands_for done ((fold (capture_undo ops) is r)\<lparr>results := rs\<rparr>) q"
proof (induction "is" arbitrary: r)
  case (Cons i "is")
  have "stands_for done ((capture_undo ops i r)\<lparr>results := rs\<rparr>) q"
    using Cons.prems by (simp add: capture_undo_def Let_def stands_for_def split: option.splits)
  then show ?case using Cons.IH by simp
qed simp

lemma captures_results [simp]: "results (fold (capture_undo ops) is r) = results r"
  by (induction "is" arbitrary: r) (simp_all add: capture_undo_def Let_def split: option.splits)

lemma capture_simps [simp]: "results (capture_undo ops i r) = results r" "run_dag (capture_undo ops i r) = run_dag r"
  by (simp_all add: capture_undo_def Let_def split: option.splits)

lemma inline_nodes_refines:
  assumes "stands_for done r q" and "shape q = (es, N)" and "ready es N done is" and "set is \<subseteq> {..<length N}"
    and "snd (ref_run ops level is q) = Inr ()"
  shows "\<exists>r'. inline_nodes ops level is r = Some (r', Inr ())
    \<and> stands_for (done \<union> (!) N ` set is) r' (fst (ref_run ops level is q)) \<and> shape (fst (ref_run ops level is q)) = (es, N)"
  using assms
proof (induction "is" arbitrary: r q "done")
  case (Cons i "is")
  have name: "node_name (run_dag q) i = N ! i" using shape_name [OF Cons.prems(2), of i] Cons.prems(4) by simp
  have es: "edges (run_dag q) = es" using Cons.prems(2) by (simp add: shape_def)
  have dag: "run_dag r = run_dag q" using Cons.prems(1) by (simp add: stands_for_def)
  obtain q' res where q: "ref_node ops level i q = (q', res)" by (cases "ref_node ops level i q")
  then obtain nr where nr: "res = Inr nr" using Cons.prems(5) by (cases res) auto
  obtain r' where r': "execute_single_node ops level i r = Some (r', Inr nr)" "stands_for (insert (N ! i) done) r' q'"
    using single_node_refines [OF Cons.prems(1), of i ops level] Cons.prems(3) name es q nr by auto
  let ?r = "(capture_undo ops i r')\<lparr>results := results r' @ [(node_name (run_dag r) i, nr)]\<rparr>"
    and ?q = "q'\<lparr>results := results q' @ [(node_name (run_dag q) i, nr)]\<rparr>"
  have s: "stands_for (insert (N ! i) done) ?r ?q" and shape: "shape ?q = (es, N)"
    using stands_for_capture [OF r'(2), of ops i] dag ref_node_shape [of ops level i q] q Cons.prems(2) by (auto simp: stands_for_def)
  show ?case using Cons.IH [OF s shape] Cons.prems(3-5) r'(1) q nr by (auto simp: Let_def)
qed auto

section \<open>Every placement of the levels refines the reference\<close>

text \<open>All required triggers of a level are there when the level starts, along the reference run.\<close>

fun triggers_ok :: "('n, 'v, 'u) Node \<Rightarrow> nat \<Rightarrow> nat list list \<Rightarrow> ('n, 'v, 'u) run \<Rightarrow> bool" where
  "triggers_ok ops k [] q = True"
| "triggers_ok ops k (level # levels) q =
     (list_all (\<lambda>i. \<not> trigger_unsatisfied ops (node_at (run_dag q) i) (node_name (run_dag q) i) (edges (run_dag q)) (port_data q)) level
      \<and> triggers_ok ops (k + 1) levels (fst (ref_run ops k level q)))"

lemma dag_levels_refines:
  assumes "stands_for done r q" and "shape q = (es, N)" and "ready es N done (concat levels)" and "set (concat levels) \<subseteq> {..<length N}"
    and "distinct N" and "\<And>level. level \<in> set levels \<Longrightarrow> distinct level \<and> indep es ((!) N ` set level)"
    and "triggers_ok ops k levels q" and "snd (ref_levels ops k levels q) = Inr ()"
  shows "\<exists>r'. dag_levels ops on_scheduler k levels r = Some (r', Inr ())
    \<and> stands_for (done \<union> (!) N ` set (concat levels)) r' (fst (ref_levels ops k levels q))
    \<and> shape (fst (ref_levels ops k levels q)) = (es, N)"
  using assms
proof (induction levels arbitrary: r q "done" k)
  case (Cons level levels)
  let ?r0 = "emit [LevelStarted k (map (node_name (run_dag r)) level)] r"
  have s0: "stands_for done ?r0 q" using Cons.prems(1) by (simp add: stands_for_def)
  obtain q' res where q: "ref_run ops k level q = (q', res)" by (cases "ref_run ops k level q")
  then have ok: "res = Inr ()" using Cons.prems(8) by (cases res) auto
  have lv: "ready es N done level" "set level \<subseteq> {..<length N}" "distinct level" "indep es ((!) N ` set level)"
    using Cons.prems(3,4) Cons.prems(6) [of level] by (auto simp: ready_append)
  have es: "edges (run_dag q) = es" using Cons.prems(2) by (simp add: shape_def)
  have trig: "list_all (\<lambda>i. \<not> trigger_unsatisfied ops (node_at (run_dag q) i) (N ! i) es (port_data q)) level"
  proof -
    have "node_name (run_dag q) i = N ! i" if "i \<in> set level" for i using shape_name [OF Cons.prems(2), of i] lv(2) that by auto
    then show ?thesis using Cons.prems(7) es by (simp add: list_all_iff)
  qed
  have go: "\<exists>r'. dag_levels ops on_scheduler (k + 1) levels r1 = Some (r', Inr ())
    \<and> stands_for (done \<union> (!) N ` set (concat (level # levels))) r' (fst (ref_levels ops k (level # levels) q))
    \<and> shape (fst (ref_levels ops k (level # levels) q)) = (es, N)"
    if "stands_for (done \<union> (!) N ` set level) r1 q'" "shape q' = (es, N)" for r1
    using Cons.IH [OF that, of "k + 1"] Cons.prems(3-8) q ok by (auto simp: ready_append image_Un Un_assoc)
  show ?case
  proof (cases "on_scheduler k \<or> length level = 1")
    case True
    obtain r1 where r1: "inline_nodes ops k level ?r0 = Some (r1, Inr ())" "stands_for (done \<union> (!) N ` set level) r1 q'" "shape q' = (es, N)"
      using inline_nodes_refines [OF s0 Cons.prems(2) lv(1,2), of ops k] q ok by auto
    have "stands_for (done \<union> (!) N ` set level) (emit [LevelCompleted k] r1) q'" using r1(2) by (simp add: stands_for_def)
    from go [OF this r1(3)] show ?thesis using True r1(1) by (simp add: Let_def)
  next
    case False
    obtain r1 new where r1: "execute_level_parallel ops level ?r0 = Some (r1, Inr new)"
      "stands_for (done \<union> (!) N ` set level) (r1\<lparr>results := results r1 @ new\<rparr>) q'" "shape q' = (es, N)"
      using level_parallel_refines [OF s0 Cons.prems(2) lv(1-3) Cons.prems(5) lv(4) trig, of k] q ok by auto
    let ?r2 = "fold (capture_undo ops) level r1"
    have "stands_for (done \<union> (!) N ` set level) (?r2\<lparr>results := results ?r2 @ new\<rparr>) q'"
      using stands_for_captures [OF r1(2)] by simp
    then have "stands_for (done \<union> (!) N ` set level) (emit [LevelCompleted k] (?r2\<lparr>results := results ?r2 @ new\<rparr>)) q'"
      by (simp add: stands_for_def)
    from go [OF this r1(3)] show ?thesis using False r1(1) by (simp add: Let_def)
  qed
qed auto

lemma schedule_levels:
  assumes "distinct (map ne_name (nodes dag))" and "schedule dag levels" and "level \<in> set levels"
  shows "distinct level \<and> indep (edges dag) ((!) (map ne_name (nodes dag)) ` set level)"
proof
  have d: "distinct (concat levels)" "set (concat levels) = {..<length (nodes dag)}" "layered (edge_rel dag) levels"
    using assms(2) by (auto simp: schedule_def)
  show "distinct level" using d(1) assms(3) by (simp add: distinct_concat_iff)
  obtain k where k: "k < length levels" "levels ! k = level" using assms(3) by (metis in_set_conv_nth)
  have lt: "i < length (nodes dag)" if "i \<in> set level" for i using that assms(3) d(2) by auto
  have False if e: "e \<in> set (edges dag)" "from_node e = map ne_name (nodes dag) ! i" "to_node e = map ne_name (nodes dag) ! j"
      "i \<in> set level" "j \<in> set level" for e i j
  proof -
    have "(i, j) \<in> edge_rel dag"
      using e lt name_to_idx_distinct [OF assms(1)] unfolding edge_rel_def by (auto intro!: bexI [of _ e])
    then have "i \<in> set (concat (take k levels))" using d(3) k e(5) unfolding layered_def by blast
    moreover have "i \<in> set (concat (drop k levels))" using k e(4) by (auto simp: Cons_nth_drop_Suc [symmetric])
    ultimately show False using d(1) by (metis append_take_drop_id concat_append disjoint_iff distinct_append)
  qed
  then show "indep (edges dag) ((!) (map ne_name (nodes dag)) ` set level)"
    unfolding indep_def by (auto simp del: nth_map)
qed

lemma dag_refines:
  assumes r: "runnable dag levels" and t: "triggers_ok ops 0 levels (start_run dag)"
    and ok: "ref_execute ops dag levels = ((dag', evs), Inr res)"
  shows "\<exists>evs'. execute_dag ops on_scheduler dag = Some ((dag', evs'), Inr res)"
proof -
  let ?N = "map ne_name (nodes dag)" and ?q0 = "start_run dag"
  have names: "distinct ?N" "topological_levels dag = Some (Inr levels)" using r by (simp_all add: runnable_def)
  obtain q x where q: "ref_levels ops 0 levels ?q0 = (q, x)" by (cases "ref_levels ops 0 levels ?q0")
  have qx: "x = Inr ()" "dag' = run_dag q" "res = \<lparr>node_results = results q, dr_outputs = unconsumed (edges dag) (port_data q)\<rparr>"
    using ok q by (auto simp: ref_execute_def split: sum.splits)
  obtain r' where r': "dag_levels ops on_scheduler 0 levels ?q0 = Some (r', Inr ())"
    "stands_for ((!) ?N ` set (concat levels)) r' q" "shape q = (edges dag, ?N)"
  proof -
    note lv = schedule_levels [OF names(1) runnable_schedule(1) [OF r]]
    have "set (concat levels) \<subseteq> {..<length ?N}" using runnable_schedule(3) [OF r] by simp
    from dag_levels_refines [where on_scheduler = on_scheduler, OF start_stands_for start_shape runnable_schedule(2) [OF r] this names(1) lv t]
    show thesis using that q qx(1) by auto
  qed
  have "visible (edges dag) ((!) ?N ` set (concat levels)) (port_data q) = unconsumed (edges dag) (port_data q)"
    by (rule visible_end) (rule runnable_done [OF r])
  then show ?thesis
    using r' names(2) qx by (simp add: execute_dag_def stands_for_def shape_def)
qed

end
