(* ===== verification/DagRollback.thy ===== *)
theory DagRollback
  imports DagRefine
begin

text \<open>
  What a failed run leaves behind: inline levels are rolled back node by node, a parallel level is not.
\<close>

section \<open>Rollback\<close>

text \<open>The contract of \<open>undo\<close>: after a successful run a node hands out a context that takes it back.\<close>

definition restoring :: "('n, 'v, 'u) Node \<Rightarrow> bool" where
  "restoring ops \<longleftrightarrow> (\<forall>n ins n' x. execute ops n ins = (n', Inr x) \<longrightarrow>
     can_undo ops n' \<and> (\<exists>u. undo_context ops n' = Some u \<and> fst (undo ops n' u) = n))"

text \<open>Outside \<open>X\<close>, a node is untouched or on the undo stack with a context that restores it.\<close>

definition saved :: "('n, 'v, 'u) Node \<Rightarrow> nat set \<Rightarrow> ('n, 'v) Dag \<Rightarrow> ('n, 'v, 'u) run \<Rightarrow> bool" where
  "saved ops X orig r \<longleftrightarrow> length (nodes (run_dag r)) = length (nodes orig) \<and> map ne_name (nodes (run_dag r)) = map ne_name (nodes orig)
     \<and> distinct (map fst (undo_stack r))
     \<and> (\<forall>(i, u) \<in> set (undo_stack r). i < length (nodes orig) \<and> i \<notin> X \<and> fst (undo ops (node_at (run_dag r) i) u) = node_at orig i)
     \<and> (\<forall>i < length (nodes orig). i \<notin> X \<longrightarrow> i \<notin> fst ` set (undo_stack r) \<longrightarrow> node_at (run_dag r) i = node_at orig i)"

lemma savedD:
  assumes "saved ops X orig r"
  shows "length (nodes (run_dag r)) = length (nodes orig)" and "map ne_name (nodes (run_dag r)) = map ne_name (nodes orig)"
    and "distinct (map fst (undo_stack r))"
    and "(i, u) \<in> set (undo_stack r) \<Longrightarrow> i < length (nodes orig) \<and> i \<notin> X \<and> fst (undo ops (node_at (run_dag r) i) u) = node_at orig i"
    and "i < length (nodes orig) \<Longrightarrow> i \<notin> X \<Longrightarrow> i \<notin> fst ` set (undo_stack r) \<Longrightarrow> node_at (run_dag r) i = node_at orig i"
  using assms unfolding saved_def by auto

lemma put_node_same: "i < length (nodes dag) \<Longrightarrow> node_at (put_node i node dag) i = node"
  by (simp add: put_node_def)

lemma single_node_effect:
  assumes "execute_single_node ops level i r = Some (r', res)"
  obtains ins node outcome where "execute ops (node_at (run_dag r) i) ins = (node, outcome)"
    "run_dag r' = put_node i node (run_dag r)" "undo_stack r' = undo_stack r"
    "case outcome of Inr (outs, nr) \<Rightarrow> res = Inr nr | Inl e \<Rightarrow> res = Inl (NodeError (node_name (run_dag r) i) e)"
proof -
  obtain ins pd cc where c: "collect_inputs (node_name (run_dag r) i) (edges (run_dag r)) (port_data r) (consumer_counts r) = Some (ins, pd, cc)"
    and p: "perform ops level i ins (r\<lparr>port_data := pd, consumer_counts := cc\<rparr>) = (r', res)"
    using assms by (auto simp: execute_single_node_def split: option.splits)
  obtain node outcome where x: "execute ops (node_at (run_dag r) i) ins = (node, outcome)"
    by (cases "execute ops (node_at (run_dag r) i) ins")
  show thesis
    by (rule that [OF x]) (use p x in \<open>auto simp: perform_def Let_def split: sum.splits\<close>)
qed

lemma saved_failed:
  assumes s: "saved ops {} orig r" and i: "i \<notin> fst ` set (undo_stack r)"
    and r': "run_dag r' = put_node i node (run_dag r)" "undo_stack r' = undo_stack r"
  shows "saved ops {i} orig r'"
proof -
  have other: "node_at (put_node i node (run_dag r)) j = node_at (run_dag r) j" if "j \<noteq> i" for j using that by (simp add: put_node_other)
  have ne: "j \<noteq> i" if "(j, u) \<in> set (undo_stack r)" for j u using that i by force
  show ?thesis
    unfolding saved_def r' using savedD [OF s] other ne by fastforce
qed

lemma saved_step:
  assumes s: "saved ops {} orig r" and i: "i \<notin> fst ` set (undo_stack r)" "i < length (nodes orig)" and "restoring ops"
    and x: "execute ops (node_at (run_dag r) i) ins = (node, Inr y)"
    and r': "run_dag r' = put_node i node (run_dag r)" "undo_stack r' = undo_stack r"
  shows "saved ops {} orig (capture_undo ops i r')" and "fst ` set (undo_stack (capture_undo ops i r')) = insert i (fst ` set (undo_stack r))"
proof -
  obtain u where u: "can_undo ops node" "undo_context ops node = Some u" "fst (undo ops node u) = node_at (run_dag r) i"
    using assms(4) x unfolding restoring_def by blast
  have at: "node_at (run_dag r') i = node" using r'(1) i(2) savedD(1) [OF s] by (simp add: put_node_same)
  have c: "capture_undo ops i r' = r'\<lparr>undo_stack := undo_stack r @ [(i, u)]\<rparr>"
    using u at r'(2) by (simp add: capture_undo_def)
  have orig: "node_at (run_dag r) i = node_at orig i" using savedD(5) [OF s, of i] i by simp
  have other: "node_at (run_dag r') j = node_at (run_dag r) j" if "j \<noteq> i" for j using that r'(1) by (simp add: put_node_other)
  have ne: "j \<noteq> i" if "(j, u) \<in> set (undo_stack r)" for j u using that i(1) by force
  have same: "length (nodes (run_dag r')) = length (nodes orig)" "map ne_name (nodes (run_dag r')) = map ne_name (nodes orig)"
    using savedD(1,2) [OF s] by (simp_all add: r'(1))
  show "saved ops {} orig (capture_undo ops i r')"
    unfolding saved_def c using savedD(3-5) [OF s] same other ne i at orig u(3) by auto
  show "fst ` set (undo_stack (capture_undo ops i r')) = insert i (fst ` set (undo_stack r))" by (simp add: c)
qed

lemma inline_nodes_saved:
  assumes "inline_nodes ops level is r = Some (r', res)" and "restoring ops" and "saved ops {} orig r"
    and "set is \<subseteq> {..<length (nodes orig)}" and "distinct is" and "set is \<inter> fst ` set (undo_stack r) = {}"
  shows "case res of
      Inr _ \<Rightarrow> saved ops {} orig r' \<and> fst ` set (undo_stack r') = set is \<union> fst ` set (undo_stack r)
    | Inl e \<Rightarrow> \<exists>f < length (nodes orig). \<exists>m. e = NodeError (node_name orig f) m \<and> saved ops {f} orig r'"
  using assms
proof (induction "is" arbitrary: r)
  case (Cons i "is")
  have i: "i \<notin> fst ` set (undo_stack r)" "i < length (nodes orig)" using Cons.prems(4,6) by auto
  have name: "node_name (run_dag r) i = node_name orig i"
    using savedD(1,2) [OF Cons.prems(3)] i(2) by (metis nth_map)
  obtain r1 res1 where x: "execute_single_node ops level i r = Some (r1, res1)"
    using Cons.prems(1) by (cases "execute_single_node ops level i r") auto
  obtain ins node outcome where e: "execute ops (node_at (run_dag r) i) ins = (node, outcome)"
    "run_dag r1 = put_node i node (run_dag r)" "undo_stack r1 = undo_stack r"
    "case outcome of Inr (outs, nr) \<Rightarrow> res1 = Inr nr | Inl m \<Rightarrow> res1 = Inl (NodeError (node_name (run_dag r) i) m)"
    by (rule single_node_effect [OF x])
  show ?case
  proof (cases outcome)
    case (Inl m)
    then have "r' = r1" "res = Inl (NodeError (node_name orig i) m)" using Cons.prems(1) x e(4) name by auto
    then show ?thesis using saved_failed [OF Cons.prems(3) i(1) e(2,3)] i(2) by auto
  next
    case (Inr y)
    then obtain nr where nr: "res1 = Inr nr" using e(4) by (cases y) auto
    note st = saved_step [OF Cons.prems(3) i Cons.prems(2) e(1) [unfolded Inr] e(2,3)]
    let ?r2 = "(capture_undo ops i r1)\<lparr>results := results (capture_undo ops i r1) @ [(node_name (run_dag r) i, nr)]\<rparr>"
    have run: "inline_nodes ops level is ?r2 = Some (r', res)" using Cons.prems(1) x nr by (simp add: Let_def)
    have s2: "saved ops {} orig ?r2" "fst ` set (undo_stack ?r2) = insert i (fst ` set (undo_stack r))"
      using st by (simp_all add: saved_def)
    have "case res of
      Inr _ \<Rightarrow> saved ops {} orig r' \<and> fst ` set (undo_stack r') = set is \<union> fst ` set (undo_stack ?r2)
    | Inl e \<Rightarrow> \<exists>f < length (nodes orig). \<exists>m. e = NodeError (node_name orig f) m \<and> saved ops {f} orig r'"
      by (rule Cons.IH [OF run Cons.prems(2) s2(1)]) (use Cons.prems(4-6) s2(2) in auto)
    then show ?thesis using s2(2) by (auto split: sum.splits)
  qed
qed auto

lemma dag_levels_saved:
  assumes "dag_levels ops (\<lambda>_. True) k levels r = Some (r', Inl e)" and "restoring ops" and "saved ops {} orig r"
    and "set (concat levels) \<subseteq> {..<length (nodes orig)}" and "distinct (concat levels)" and "set (concat levels) \<inter> fst ` set (undo_stack r) = {}"
  shows "\<exists>f < length (nodes orig). \<exists>m. e = NodeError (node_name orig f) m \<and> saved ops {f} orig r'"
  using assms
proof (induction levels arbitrary: r k)
  case (Cons level levels)
  let ?r0 = "emit [LevelStarted k (map (node_name (run_dag r)) level)] r"
  obtain r1 res where x: "inline_nodes ops k level ?r0 = Some (r1, res)"
    using Cons.prems(1) by (cases "inline_nodes ops k level ?r0") (auto simp: Let_def)
  have "saved ops {} orig ?r0" using Cons.prems(3) by (simp add: saved_def)
  moreover have "set level \<subseteq> {..<length (nodes orig)}" "distinct level" "set level \<inter> fst ` set (undo_stack ?r0) = {}"
    using Cons.prems(4-6) by auto
  ultimately have step: "case res of
      Inr _ \<Rightarrow> saved ops {} orig r1 \<and> fst ` set (undo_stack r1) = set level \<union> fst ` set (undo_stack ?r0)
    | Inl e \<Rightarrow> \<exists>f < length (nodes orig). \<exists>m. e = NodeError (node_name orig f) m \<and> saved ops {f} orig r1"
    by (rule inline_nodes_saved [OF x Cons.prems(2)])
  show ?case
  proof (cases res)
    case (Inl e')
    then show ?thesis using step x Cons.prems(1) by (simp add: Let_def)
  next
    case (Inr u)
    then have s: "saved ops {} orig (emit [LevelCompleted k] r1)" "fst ` set (undo_stack (emit [LevelCompleted k] r1)) = set level \<union> fst ` set (undo_stack r)"
      using step by (auto simp: saved_def)
    have run: "dag_levels ops (\<lambda>_. True) (k + 1) levels (emit [LevelCompleted k] r1) = Some (r', Inl e)"
      using Cons.prems(1) x Inr by (simp add: Let_def)
    show ?thesis by (rule Cons.IH [OF run Cons.prems(2) s(1)]) (use Cons.prems(4-6) s(2) in auto)
  qed
qed simp

lemma undo_all_nodes:
  assumes "distinct (map fst us)" and "\<And>i u. (i, u) \<in> set us \<Longrightarrow> i < length (nodes (run_dag r))"
  shows "node_at (run_dag (undo_all ops us r)) j =
    (case map_of us j of None \<Rightarrow> node_at (run_dag r) j | Some u \<Rightarrow> fst (undo ops (node_at (run_dag r) j) u))"
  using assms
proof (induction us arbitrary: r)
  case (Cons iu us)
  obtain i u where iu: "iu = (i, u)" by (cases iu)
  obtain node outcome where x: "undo ops (node_at (run_dag r) i) u = (node, outcome)" by (cases "undo ops (node_at (run_dag r) i) u")
  let ?r1 = "r\<lparr>run_dag := put_node i node (run_dag r)\<rparr>"
  let ?r2 = "case outcome of Inr _ \<Rightarrow> ?r1 | Inl e \<Rightarrow> emit [NodeFailed (''undo:'' @ node_name (run_dag r) i) e] ?r1"
  have r2: "run_dag ?r2 = put_node i node (run_dag r)" by (cases outcome) auto
  have u: "undo_all ops (iu # us) r = undo_all ops us ?r2" using x by (simp add: iu Let_def)
  have i: "i < length (nodes (run_dag r))" "i \<notin> fst ` set us" using Cons.prems(1) Cons.prems(2) [of i u] iu by auto
  have "map_of us i = None" using i(2) by (simp add: map_of_eq_None_iff)
  moreover have "node_at (run_dag (undo_all ops us ?r2)) j =
    (case map_of us j of None \<Rightarrow> node_at (run_dag ?r2) j | Some u \<Rightarrow> fst (undo ops (node_at (run_dag ?r2) j) u))"
  proof (rule Cons.IH)
    show "i' < length (nodes (run_dag ?r2))" if "(i', u') \<in> set us" for i' u'
      using Cons.prems(2) [of i' u'] that by (simp add: r2)
  qed (use Cons.prems(1) in simp)
  ultimately show ?case
    unfolding u r2 using x i(1) by (cases "i = j") (simp_all add: iu put_node_same put_node_other cong: option.case_cong)
qed simp

lemma rollback_restores:
  assumes r: "runnable dag levels" and "restoring ops" and f: "execute_dag ops (\<lambda>_. True) dag = Some ((dag', evs), Inl e)"
  shows "\<exists>i < length (nodes dag). \<exists>m. e = NodeError (node_name dag i) m \<and> (\<forall>j < length (nodes dag). j \<noteq> i \<longrightarrow> node_at dag' j = node_at dag j)"
proof -
  let ?q0 = "start_run dag"
  have t: "topological_levels dag = Some (Inr levels)" using r by (simp add: runnable_def)
  obtain r' where run: "dag_levels ops (\<lambda>_. True) 0 levels ?q0 = Some (r', Inl e)"
    and dag': "dag' = run_dag (undo_all ops (rev (undo_stack r')) r')"
    using f t by (auto simp: execute_dag_def Let_def split: option.splits sum.splits)
  have d: "distinct (concat levels)" "set (concat levels) = {..<length (nodes dag)}"
    using runnable_schedule(1) [OF r] by (auto simp: schedule_def)
  have "saved ops {} dag ?q0" by (simp add: saved_def start_run_def)
  then obtain i m where i: "i < length (nodes dag)" "e = NodeError (node_name dag i) m" "saved ops {i} dag r'"
    using dag_levels_saved [OF run assms(2), of dag] d by (auto simp: start_run_def)
  note s = savedD [OF i(3)]
  have "node_at dag' j = node_at dag j" if j: "j < length (nodes dag)" "j \<noteq> i" for j
  proof -
    have "node_at dag' j = (case map_of (rev (undo_stack r')) j of None \<Rightarrow> node_at (run_dag r') j
        | Some u \<Rightarrow> fst (undo ops (node_at (run_dag r') j) u))"
      unfolding dag' by (rule undo_all_nodes) (use s(1,3,4) in \<open>auto simp: rev_map [symmetric]\<close>)
    also have "... = node_at dag j"
    proof (cases "map_of (rev (undo_stack r')) j")
      case None
      then have "j \<notin> fst ` set (undo_stack r')" by (simp add: map_of_eq_None_iff)
      then show ?thesis using None s(5) [OF j(1)] j(2) by simp
    next
      case (Some u)
      then have "(j, u) \<in> set (undo_stack r')" using map_of_SomeD by fastforce
      then show ?thesis using Some s(4) by simp
    qed
    finally show ?thesis .
  qed
  then show ?thesis using i(1,2) by blast
qed

end
