(* ===== verification/DagResume.thy ===== *)
theory DagResume
  imports DagRefine
begin

text \<open>
  Runs with a checkpoint store: they return whatever the checkpoint says, run no completed node again and
  record exactly the nodes that ran. Proved for every store that keeps the contract of \<open>checkpoint_store\<close>.
\<close>

section \<open>Resuming from a checkpoint\<close>

definition started :: "DagEvent list \<Rightarrow> string list" where
  "started evs = concat (map (\<lambda>ev. case ev of NodeStarted name _ _ \<Rightarrow> [name] | _ \<Rightarrow> []) evs)"

lemma started_append [simp]: "started (a @ b) = started a @ started b" "started [] = []"
  "started (NodeStarted n t k # evs) = n # started evs" "started (NodeCompleted n m # evs) = started evs"
  "started (NodeFailed n w # evs) = started evs" "started (DagFailed x # evs) = started evs" "started (NodeLog n t lvl txt1 # evs) = started evs"
  "started (LevelStarted k ns # evs) = started evs" "started (LevelCompleted k # evs) = started evs" "started (DagCompleted k # evs) = started evs"
  by (simp_all add: started_def)

lemma started_logs [simp]: "started (map (\<lambda>(lvl, t). NodeLog n ty lvl t) ls) = []"
  by (induction ls) (auto simp: started_def)

lemma started_rollback [simp]: "started (emitted (rollback_undo_stack_by_idx ops us r)) = started (emitted r)"
proof (induction us arbitrary: r)
  case (Cons iu us)
  then show ?case by (cases iu) (auto split: prod.splits sum.splits)
qed simp

text \<open>Enough uses are left for every node that has not run: a skipped node never takes its inputs.\<close>

definition enough :: "DagEdge list \<Rightarrow> string set \<Rightarrow> consumers \<Rightarrow> bool" where
  "enough es done cc \<longleftrightarrow> (\<forall>k. 0 < pending es done k \<longrightarrow> (\<exists>c. cc k = Some c \<and> pending es done k \<le> c))"

lemma pending_mono: "done \<subseteq> done' \<Longrightarrow> pending es done' k \<le> pending es done k"
  unfolding pending_def by (induction es) auto

lemma enough_mono: "enough es done cc \<Longrightarrow> done \<subseteq> done' \<Longrightarrow> enough es done' cc"
  unfolding enough_def using pending_mono [of "done" done' es] by (meson le_trans less_le_trans)

lemma collect_enough:
  assumes e: "enough es done cc" and out: "name \<notin> done"
  shows "\<exists>ins pd' cc'. collect_inputs name es pd cc = Some (ins, pd', cc') \<and> enough es (insert name done) cc'"
proof -
  note split = pending_insert [OF out, of es]
  have n: "\<exists>c. cc k = Some c \<and> need es name k \<le> c" if "0 < need es name k" for k
    using e that split [of k] unfolding enough_def by (metis add_leE le_add2 less_le_trans)
  let ?cc = "\<lambda>k. if 0 < need es name k then map_option (\<lambda>c. c - need es name k) (cc k) else cc k"
  have "\<exists>c. ?cc k = Some c \<and> pending es (insert name done) k \<le> c" if p: "0 < pending es (insert name done) k" for k
  proof -
    obtain c where "cc k = Some c" "pending es done k \<le> c" using e p split [of k] unfolding enough_def by (metis add_gr_0)
    then show ?thesis using split [of k] by auto
  qed
  then have "enough es (insert name done) ?cc" unfolding enough_def by blast
  moreover have "\<exists>ins pd'. take_edges name es i0 p0 cc = Some (ins, pd', ?cc)" for i0 and p0 :: "'a ports"
    by (intro exI) (rule take_edges_eq [OF n])
  ultimately show ?thesis unfolding collect_inputs_def by blast
qed

text \<open>Names, types and messages a store can hold.\<close>

definition recordable :: "(string \<Rightarrow> bool) \<Rightarrow> (string \<Rightarrow> bool) \<Rightarrow> ('n, 'v, 'u) Node \<Rightarrow> string list \<Rightarrow> bool" where
  "recordable ok_name ok_text nops N \<longleftrightarrow> (\<forall>name \<in> set N. ok_name name) \<and> (\<forall>n. ok_text (node_type nops n))
     \<and> (\<forall>n ins n' e. execute nops n ins = (n', Inl e) \<longrightarrow> (\<forall>name \<in> set N. ok_text (failure_text (NodeError name e))))"

lemma shape_put [simp]: "shape (r\<lparr>run_dag := put_node i node (run_dag r)\<rparr>) = shape r"
  by (simp add: shape_def)

lemma shape_capture [simp]: "shape (capture_undo ops i r) = shape r"
  by (simp add: shape_def)

lemma emitted_capture [simp]: "emitted (capture_undo ops i r) = emitted r" "consumer_counts (capture_undo ops i r) = consumer_counts r"
  by (simp_all add: capture_undo_def Let_def split: option.splits)

lemma single_node_total:
  assumes "enough es done (consumer_counts r)" and "N ! i \<notin> done" and "shape r = (es, N)" and "i < length N"
  shows "\<exists>r' res. execute_single_node nops level i r = Some (r', res) \<and> shape r' = (es, N)
    \<and> enough es (insert (N ! i) done) (consumer_counts r') \<and> started (emitted r') = started (emitted r) @ [N ! i]
    \<and> (\<forall>e. res = Inl e \<longrightarrow> (\<exists>n ins n' m. execute nops n ins = (n', Inl m) \<and> e = NodeError (N ! i) m))"
proof -
  have es: "edges (run_dag r) = es" using assms(3) by (simp add: shape_def)
  have name: "node_name (run_dag r) i = N ! i" using shape_name [OF assms(3,4)] .
  obtain ins pd' cc' where c: "collect_inputs (N ! i) es (port_data r) (consumer_counts r) = Some (ins, pd', cc')"
    "enough es (insert (N ! i) done) cc'"
    using collect_enough [OF assms(1,2), of "port_data r"] by blast
  let ?r = "r\<lparr>port_data := pd', consumer_counts := cc'\<rparr>"
  obtain node outcome where x: "execute nops (node_at (run_dag r) i) ins = (node, outcome)" by (cases "execute nops (node_at (run_dag r) i) ins")
  have "execute_single_node nops level i r = Some (perform nops level i ins ?r)"
    using c(1) by (simp add: execute_single_node_def es name)
  moreover have "shape (fst (perform nops level i ins ?r)) = (es, N)" using assms(3) by simp
  moreover have "consumer_counts (fst (perform nops level i ins ?r)) = cc'"
    by (simp add: perform_def Let_def split: prod.splits sum.splits)
  moreover have "started (emitted (fst (perform nops level i ins ?r))) = started (emitted r) @ [N ! i]"
    by (simp add: perform_emitted name split: prod.splits sum.splits)
  moreover have "\<forall>e. snd (perform nops level i ins ?r) = Inl e \<longrightarrow> (\<exists>n ins n' m. execute nops n ins = (n', Inl m) \<and> e = NodeError (N ! i) m)"
    using x name by (auto simp: perform_def Let_def split: sum.splits)
  ultimately show ?thesis using c(2) by (cases "perform nops level i ins ?r") auto
qed

text \<open>
  The trace of a resumed run: the nodes \<open>new\<close> completed in it, all from \<open>X\<close> and none from \<open>skip\<close>, are the
  nodes it started, except that a failing node is started last and not completed.
\<close>

definition resumed :: "string set \<Rightarrow> string list \<Rightarrow> string list \<Rightarrow> failure + unit \<Rightarrow> string list \<Rightarrow> string list \<Rightarrow> bool" where
  "resumed X skip new res before after \<longleftrightarrow> distinct new \<and> set new \<subseteq> X - set skip
     \<and> (case res of
          Inr _ \<Rightarrow> after = before @ new
        | Inl e \<Rightarrow> \<exists>f m. e = NodeError f m \<and> f \<in> X - set skip - set new \<and> after = before @ new @ [f])"

lemma resumed_mono: "resumed X skip new res before after \<Longrightarrow> X \<subseteq> Y \<Longrightarrow> resumed Y skip new res before after"
  unfolding resumed_def by (cases res) fastforce+

lemma resumed_trans:
  assumes "resumed X skip new1 (Inr ()) t0 t1" and "resumed Y skip new2 res t1 t2" and "X \<inter> Y = {}"
  shows "resumed (X \<union> Y) skip (new1 @ new2) res t0 t2"
proof (cases res)
  case (Inl e)
  then obtain f m where f: "e = NodeError f m" "f \<in> Y - set skip - set new2" "t2 = t1 @ new2 @ [f]"
    using assms(2) by (auto simp: resumed_def)
  have "f \<in> X \<union> Y - set skip - set (new1 @ new2)" using f(2) assms(1,3) by (auto simp: resumed_def)
  then show ?thesis using Inl f(1,3) assms by (auto simp: resumed_def)
qed (use assms in \<open>auto simp: resumed_def\<close>)

lemma resumed_node: "x \<notin> set skip \<Longrightarrow> resumed {x} skip [x] (Inr ()) t (t @ [x])"
  by (simp add: resumed_def)

lemma resumed_failed: "x \<notin> set skip \<Longrightarrow> resumed {x} skip [] (Inl (NodeError x m)) t (t @ [x])"
  by (simp add: resumed_def)

context checkpoint_store
begin

lemma cp_nodes_spec:
  assumes "inv s" and "recordable ok_name ok_text nops N" and "shape r = (es, N)" and "enough es done (consumer_counts r)"
    and "set is \<subseteq> {..<length N}" and "distinct (map ((!) N) is)" and "(!) N ` set is \<inter> done = {}"
  shows "\<exists>r' s' res new. cp_nodes nops ops d skip level is (r, s) = Some ((r', s'), res) \<and> inv s'
    \<and> completed_of (load ops d s') = completed_of (load ops d s) @ new
    \<and> resumed ((!) N ` set is) skip new res (started (emitted r)) (started (emitted r'))
    \<and> (res = Inr () \<longrightarrow> shape r' = (es, N) \<and> enough es (done \<union> (!) N ` set is) (consumer_counts r'))"
  using assms
proof (induction "is" arbitrary: r s "done")
  case (Cons i "is")
  have i: "i < length N" "N ! i \<notin> done" "N ! i \<notin> (!) N ` set is" using Cons.prems(5-7) by auto
  have name: "node_name (run_dag r) i = N ! i" using shape_name [OF Cons.prems(3) i(1)] .
  have rest: "set is \<subseteq> {..<length N}" "distinct (map ((!) N) is)" "(!) N ` set is \<inter> insert (N ! i) done = {}"
    using Cons.prems(5-7) i(3) by auto
  have un: "insert (N ! i) done \<union> (!) N ` set is = done \<union> (!) N ` set (i # is)" by auto
  have good: "ok_name (N ! i)" using Cons.prems(2) i(1) by (auto simp: recordable_def)
  show ?case
  proof (cases "N ! i \<in> set skip \<or> trigger_unsatisfied nops (node_at (run_dag r) i) (N ! i) (edges (run_dag r)) (port_data r)")
    case True
    let ?r = "(emit [NodeCompleted (N ! i) (metrics skipped)] r)\<lparr>results := results r @ [(N ! i, skipped)]\<rparr>"
    have e: "enough es (insert (N ! i) done) (consumer_counts ?r)" using enough_mono [OF Cons.prems(4)] by auto
    have "shape ?r = (es, N)" using Cons.prems(3) by simp
    from Cons.IH [OF Cons.prems(1,2) this e rest] obtain r' s' res new where
      IH: "cp_nodes nops ops d skip level is (?r, s) = Some ((r', s'), res)" "inv s'"
        "completed_of (load ops d s') = completed_of (load ops d s) @ new"
        "resumed ((!) N ` set is) skip new res (started (emitted ?r)) (started (emitted r'))"
        "res = Inr () \<longrightarrow> shape r' = (es, N) \<and> enough es (insert (N ! i) done \<union> (!) N ` set is) (consumer_counts r')"
      by blast
    have "resumed ((!) N ` set (i # is)) skip new res (started (emitted r)) (started (emitted r'))"
      by (rule resumed_mono [of "(!) N ` set is"]) (use IH(4) in auto)
    moreover have "cp_nodes nops ops d skip level (i # is) (r, s) = Some ((r', s'), res)"
      using True name IH(1) by (simp add: Let_def)
    ultimately show ?thesis using IH(2,3,5) unfolding un by blast
  next
    case False
    then have ns: "N ! i \<notin> set skip" by simp
    obtain r1 res1 where x: "execute_single_node nops level i r = Some (r1, res1)" "shape r1 = (es, N)"
      "enough es (insert (N ! i) done) (consumer_counts r1)" "started (emitted r1) = started (emitted r) @ [N ! i]"
      "\<forall>e. res1 = Inl e \<longrightarrow> (\<exists>n ins n' m. execute nops n ins = (n', Inl m) \<and> e = NodeError (N ! i) m)"
      using single_node_total [OF Cons.prems(4) i(2) Cons.prems(3) i(1)] by blast
    show ?thesis
    proof (cases res1)
      case (Inl e)
      then obtain n ins n' m where m: "execute nops n ins = (n', Inl m)" "e = NodeError (N ! i) m" using x(5) by blast
      let ?s = "mark_failed ops d (failure_text e) (save_node_failed ops d (N ! i) (failure_text e) s)"
      let ?r = "emit [DagFailed e] ((rollback_undo_stack_by_idx nops (rev (undo_stack r1)) r1)\<lparr>undo_stack := []\<rparr>)"
      have ok: "ok_text (failure_text e)" using Cons.prems(2) i(1) m unfolding recordable_def by (metis nth_mem)
      note st1 = failed [OF Cons.prems(1) good ok, of d]
      note st2 = aborted [OF conjunct1 [OF st1] ok, of d]
      have "cp_nodes nops ops d skip level (i # is) (r, s) = Some ((?r, ?s), Inl e)"
        using False x(1) Inl name by (simp add: Let_def)
      moreover have "resumed ((!) N ` set (i # is)) skip [] (Inl e) (started (emitted r)) (started (emitted ?r))"
        by (rule resumed_mono [of "{N ! i}"]) (use resumed_failed [OF ns] x(4) m(2) in auto)
      ultimately show ?thesis using st1 st2 by (intro exI [of _ ?r] exI [of _ ?s] exI [of _ "Inl e"] exI [of _ "[]"]) simp
    next
      case (Inr nr)
      let ?r = "(capture_undo nops i r1)\<lparr>results := results r1 @ [(N ! i, nr)]\<rparr>"
        and ?s = "save_node_completed ops d (N ! i) (node_type nops (node_at (run_dag r1) i)) s"
      have "ok_text (node_type nops (node_at (run_dag r1) i))" using Cons.prems(2) by (simp add: recordable_def)
      then have st: "inv ?s" "completed_of (load ops d ?s) = completed_of (load ops d s) @ [N ! i]"
        using saved [OF Cons.prems(1) good] by auto
      have "shape ?r = (es, N)" "enough es (insert (N ! i) done) (consumer_counts ?r)" using x(2,3) by simp_all
      from Cons.IH [OF st(1) Cons.prems(2) this rest] obtain r' s' res new where
        IH: "cp_nodes nops ops d skip level is (?r, ?s) = Some ((r', s'), res)" "inv s'"
          "completed_of (load ops d s') = completed_of (load ops d ?s) @ new"
          "resumed ((!) N ` set is) skip new res (started (emitted ?r)) (started (emitted r'))"
          "res = Inr () \<longrightarrow> shape r' = (es, N) \<and> enough es (insert (N ! i) done \<union> (!) N ` set is) (consumer_counts r')"
        by blast
      have "resumed ({N ! i} \<union> (!) N ` set is) skip ([N ! i] @ new) res (started (emitted r)) (started (emitted r'))"
        by (rule resumed_trans [OF resumed_node [OF ns]]) (use IH(4) x(4) i(3) in auto)
      moreover have "cp_nodes nops ops d skip level (i # is) (r, s) = Some ((r', s'), res)"
        using False name x(1) Inr IH(1) by (simp add: Let_def)
      moreover have "completed_of (load ops d s') = completed_of (load ops d s) @ [N ! i] @ new" using IH(3) st(2) by simp
      ultimately show ?thesis using IH(2,5) unfolding un by (intro exI [of _ r'] exI [of _ s'] exI [of _ res] exI [of _ "[N ! i] @ new"]) simp
    qed
  qed
qed (simp add: resumed_def)

lemma cp_levels_spec:
  assumes "inv s" and "recordable ok_name ok_text nops N" and "shape r = (es, N)" and "enough es done (consumer_counts r)"
    and "set (concat levels) \<subseteq> {..<length N}" and "distinct (map ((!) N) (concat levels))" and "(!) N ` set (concat levels) \<inter> done = {}"
  shows "\<exists>r' s' res new. cp_levels nops ops d skip k levels (r, s) = Some ((r', s'), res) \<and> inv s'
    \<and> completed_of (load ops d s') = completed_of (load ops d s) @ new
    \<and> resumed ((!) N ` set (concat levels)) skip new res (started (emitted r)) (started (emitted r'))"
  using assms
proof (induction levels arbitrary: r s "done" k)
  case (Cons level levels)
  let ?r0 = "emit [LevelStarted k (map (node_name (run_dag r)) level)] r" and ?X = "(!) N ` set level" and ?Y = "(!) N ` set (concat levels)"
  have sub: "set level \<subseteq> {..<length N}" "distinct (map ((!) N) level)" "?X \<inter> done = {}" "?X \<inter> ?Y = {}"
    using Cons.prems(5-7) by auto
  have un: "?X \<union> ?Y = (!) N ` set (concat (level # levels))" by auto
  have "shape ?r0 = (es, N)" "enough es done (consumer_counts ?r0)" using Cons.prems(3,4) by simp_all
  from cp_nodes_spec [OF Cons.prems(1,2) this sub(1-3)] obtain r1 s1 res1 new1 where
    c: "cp_nodes nops ops d skip k level (?r0, s) = Some ((r1, s1), res1)" "inv s1"
      "completed_of (load ops d s1) = completed_of (load ops d s) @ new1"
      "resumed ?X skip new1 res1 (started (emitted ?r0)) (started (emitted r1))"
      "res1 = Inr () \<longrightarrow> shape r1 = (es, N) \<and> enough es (done \<union> ?X) (consumer_counts r1)"
    by blast
  show ?case
  proof (cases res1)
    case (Inl e)
    have "resumed ((!) N ` set (concat (level # levels))) skip new1 res1 (started (emitted r)) (started (emitted r1))"
      by (rule resumed_mono [of ?X]) (use c(4) in auto)
    moreover have "cp_levels nops ops d skip k (level # levels) (r, s) = Some ((r1, s1), res1)" using c(1) Inl by simp
    ultimately show ?thesis using c(2,3) by blast
  next
    case (Inr u)
    let ?r1 = "emit [LevelCompleted k] r1"
    have "shape ?r1 = (es, N)" "enough es (done \<union> ?X) (consumer_counts ?r1)" using c(5) Inr by simp_all
    moreover have "set (concat levels) \<subseteq> {..<length N}" "distinct (map ((!) N) (concat levels))"
      using Cons.prems(5,6) by auto
    moreover have "?Y \<inter> (done \<union> ?X) = {}" using Cons.prems(7) sub(4) unfolding un [symmetric] by blast
    ultimately obtain r' s' res new where
      IH: "cp_levels nops ops d skip (k + 1) levels (?r1, s1) = Some ((r', s'), res)" "inv s'"
        "completed_of (load ops d s') = completed_of (load ops d s1) @ new"
        "resumed ?Y skip new res (started (emitted ?r1)) (started (emitted r'))"
      using Cons.IH [OF c(2) Cons.prems(2), of ?r1 "done \<union> ?X" "k + 1"] by blast
    have "resumed (?X \<union> ?Y) skip (new1 @ new) res (started (emitted r)) (started (emitted r'))"
      by (rule resumed_trans) (use c(4) Inr IH(4) sub(4) in auto)
    moreover have "cp_levels nops ops d skip k (level # levels) (r, s) = Some ((r', s'), res)" using c(1) Inr IH(1) by simp
    moreover have "completed_of (load ops d s') = completed_of (load ops d s) @ new1 @ new" using IH(3) c(3) by simp
    ultimately show ?thesis using IH(2) unfolding un by blast
  qed
qed (simp add: resumed_def)

lemma resume:
  assumes r: "runnable dag levels" and "recordable ok_name ok_text nops (map ne_name (nodes dag))" and "inv s"
  shows "\<exists>dag' evs res s' new. execute_dag_with_checkpoint nops ops d dag s = Some (((dag', evs), res), s') \<and> inv s'
    \<and> completed_of (load ops d s') = completed_of (load ops d s) @ new
    \<and> resumed (ne_name ` set (nodes dag)) (completed_of (load ops d s)) new (map_sum id (\<lambda>_. ()) res) [] (started evs)"
proof -
  let ?N = "map ne_name (nodes dag)" and ?skip = "completed_of (load ops d s)"
  let ?r0 = "\<lparr>run_dag = dag, port_data = Map.empty, consumer_counts = count_consumers (edges dag), results = [], undo_stack = [], emitted = []\<rparr>"
  have t: "topological_levels dag = Some (Inr levels)" "distinct ?N" using r by (simp_all add: runnable_def)
  have d: "distinct (concat levels)" "set (concat levels) = {..<length ?N}" using runnable_schedule [OF r] by (auto simp: schedule_def)
  have N: "(!) ?N ` set (concat levels) = ne_name ` set (nodes dag)"
    unfolding d(2) by (auto simp: in_set_conv_nth image_iff) (metis nth_mem)
  have "inj_on ((!) ?N) (set (concat levels))" unfolding d(2) using t(2) by (intro inj_on_nth) auto
  then have "distinct (map ((!) ?N) (concat levels))" using d(1) by (simp add: distinct_map)
  moreover have "enough (edges dag) {} (consumer_counts ?r0)" by (auto simp: enough_def count_consumers_uses pending_empty)
  moreover have "shape ?r0 = (edges dag, ?N)" by (simp add: shape_def)
  moreover have "set (concat levels) \<subseteq> {..<length ?N}" "(!) ?N ` set (concat levels) \<inter> {} = {}" using d(2) by auto
  ultimately obtain r' s' res new where c: "cp_levels nops ops d ?skip 0 levels (?r0, s) = Some ((r', s'), res)" "inv s'"
      "completed_of (load ops d s') = ?skip @ new" "resumed (ne_name ` set (nodes dag)) ?skip new res [] (started (emitted r'))"
    using cp_levels_spec [OF assms(3,2), of ?r0 "edges dag" "{}" levels d ?skip 0] unfolding N by fastforce
  show ?thesis
  proof (cases res)
    case (Inl e)
    then have "execute_dag_with_checkpoint nops ops d dag s = Some (((run_dag r', emitted r'), Inl e), s')"
      using c(1) t(1) by (simp add: execute_dag_with_checkpoint_def Let_def)
    then show ?thesis using c(2-4) Inl by (intro exI conjI) auto
  next
    case (Inr u)
    have "execute_dag_with_checkpoint nops ops d dag s = Some (((run_dag r', emitted r' @ [DagCompleted (length (nodes dag))]),
                 Inr \<lparr>node_results = results r', dr_outputs = port_data r'\<rparr>), mark_completed ops d s')"
      using c(1) t(1) Inr by (simp add: execute_dag_with_checkpoint_def Let_def)
    moreover have "inv (mark_completed ops d s')" "completed_of (load ops d (mark_completed ops d s')) = ?skip @ new"
      using completed [OF c(2)] c(3) by simp_all
    ultimately show ?thesis using c(4) Inr by (intro exI conjI) auto
  qed
qed

end

end
