(* ===== verification/DagProps.thy ===== *)
theory DagProps
  imports DagRollback DagResume
begin

text \<open>
  What the runtime of the task graph guarantees: the properties of its executors, and the graphs on which
  the inline, the parallel and the checkpointed runs differ.
\<close>

section \<open>Sample graphs\<close>

lemma pair_dag_levels: "topological_levels pair_dag = Some (Inr [[0], [1]])"
  by code_simp

lemma pair_dag_runnable: "runnable pair_dag [[0], [1]]"
  using pair_dag_levels by (simp add: runnable_def pair_dag_def edges_known_def)

text \<open>A source that feeds two nodes, which share a level.\<close>

definition fork_dag :: "(nat, nat) Dag" where
  "fork_dag = \<lparr>nodes = [\<lparr>ne_name = ''a'', ne_node = 0\<rparr>, \<lparr>ne_name = ''b'', ne_node = 1\<rparr>, \<lparr>ne_name = ''c'', ne_node = 2\<rparr>],
     edges = [\<lparr>from_node = ''a'', from_port = ''out'', to_node = ''b'', to_port = ''in''\<rparr>,
              \<lparr>from_node = ''a'', from_port = ''out'', to_node = ''c'', to_port = ''in''\<rparr>],
     initial_inputs = Map.empty\<rparr>"

lemma fork_dag_levels: "topological_levels fork_dag = Some (Inr [[0], [1, 2]])"
  by code_simp

lemma fork_dag_known: "distinct (map ne_name (nodes fork_dag))" "edges_known fork_dag"
  by (simp_all add: fork_dag_def edges_known_def)

text \<open>Nodes that add ten to their state, except that the node in state 1 fails; undoing restores the state.\<close>

definition tens_ops :: "(nat, nat, nat) Node" where
  "tens_ops = \<lparr>node_type = \<lambda>_. ''tens'', inputs = \<lambda>_. [], outputs = \<lambda>_. [],
     execute = \<lambda>n ins. if n = 1 then (n, Inl ''boom'') else (n + 10, Inr (Map.empty, \<lparr>metrics = [], logs = []\<rparr>)),
     can_undo = \<lambda>n. 10 \<le> n, undo_context = \<lambda>n. Some (n - 10), undo = \<lambda>_ u. (u, Inr ())\<rparr>"

definition tens_dag :: "(nat, nat) Dag" where
  "tens_dag = \<lparr>nodes = [\<lparr>ne_name = ''a'', ne_node = 0\<rparr>, \<lparr>ne_name = ''b'', ne_node = 1\<rparr>], edges = [], initial_inputs = Map.empty\<rparr>"

lemma tens_dag_levels: "topological_levels tens_dag = Some (Inr [[0, 1]])"
  by code_simp

lemma tens_dag_runnable: "runnable tens_dag [[0, 1]]"
  using tens_dag_levels by (simp add: runnable_def tens_dag_def edges_known_def)

lemma tens_restoring: "restoring tens_ops"
  by (auto simp: restoring_def tens_ops_def)

text \<open>A branch: node \<open>if\<close> delivers the trigger of \<open>then\<close> and not the one of \<open>else\<close>; running a node adds one to its state.\<close>

definition branch_ops :: "(nat, nat, unit) Node" where
  "branch_ops = \<lparr>node_type = \<lambda>_. ''branch'',
     inputs = \<lambda>n. if n = 0 then [] else [\<lparr>pd_name = ''trigger'', port_type = Trigger, required = True\<rparr>],
     outputs = \<lambda>n. if n = 0 then [\<lparr>pd_name = ''then'', port_type = Trigger, required = False\<rparr>, \<lparr>pd_name = ''else'', port_type = Trigger, required = False\<rparr>] else [],
     execute = \<lambda>n ins. (n + 1, Inr (if n = 0 then [''then'' \<mapsto> 0] else Map.empty, \<lparr>metrics = [], logs = []\<rparr>)),
     can_undo = \<lambda>_. False, undo_context = \<lambda>_. None, undo = \<lambda>n _. (n, Inl ''undo not supported'')\<rparr>"

definition branch_dag :: "(nat, nat) Dag" where
  "branch_dag = \<lparr>nodes = [\<lparr>ne_name = ''if'', ne_node = 0\<rparr>, \<lparr>ne_name = ''then'', ne_node = 10\<rparr>, \<lparr>ne_name = ''else'', ne_node = 20\<rparr>],
     edges = [\<lparr>from_node = ''if'', from_port = ''then'', to_node = ''then'', to_port = ''trigger''\<rparr>,
              \<lparr>from_node = ''if'', from_port = ''else'', to_node = ''else'', to_port = ''trigger''\<rparr>],
     initial_inputs = Map.empty\<rparr>"

abbreviation node_states :: "('n, 'v) finished exec \<Rightarrow> 'n list option" where
  "node_states \<equiv> map_option (\<lambda>x. map ne_node (nodes (fst (fst x))))"

abbreviation error_of :: "('n, 'v) finished exec \<Rightarrow> failure option option" where
  "error_of \<equiv> map_option (\<lambda>x. case snd x of Inl e \<Rightarrow> Some e | Inr _ \<Rightarrow> None)"

lemma error_ofD:
  assumes "error_of x = Some y"
  obtains dag' evs res where "x = Some ((dag', evs), res)" and "y = None \<longleftrightarrow> (\<exists>r. res = Inr r)" and "\<And>e. y = Some e \<Longrightarrow> res = Inl e"
proof -
  obtain z where "x = Some z" using assms by (cases x) auto
  then show thesis using that [of "fst (fst z)" "snd (fst z)" "snd z"] assms by (cases "snd z") (auto simp: prod_eq_iff)
qed

section \<open>Properties\<close>

text \<open>
  C27.  Running a graph sequentially refines the reference executor. On every graph with distinct node names,
  edges between its nodes and no cycle, \<open>execute_sequential\<close> returns (no consumer count runs below zero), and it
  returns what the reference executor computes along a schedule, an executor that keeps every port value until
  the end: the same node states, the same events, the same error or results, and as outputs exactly the port
  values that no edge consumes.
\<close>

theorem execute_sequential_refines:
  assumes "distinct (map ne_name (nodes dag))" and "edges_known dag" and "acyclic (edge_rel dag)"
  shows "\<exists>levels. schedule dag levels \<and> execute_sequential ops dag = Some (ref_execute ops dag levels)"
proof -
  obtain levels where "topological_levels dag = Some (Inr levels)" using levels_known [OF assms(2)] assms(3) by auto
  then have r: "runnable dag levels" using assms by (simp add: runnable_def)
  show ?thesis using runnable_schedule(1) [OF r] sequential_refines [OF r] by blast
qed

theorem execute_sequential_refines_witness:
  "distinct (map ne_name (nodes pair_dag)) \<and> edges_known pair_dag \<and> acyclic (edge_rel pair_dag)
   \<and> (\<exists>levels. schedule pair_dag levels \<and> execute_sequential pair_ops pair_dag = Some (ref_execute pair_ops pair_dag levels))"
proof -
  have ok: "distinct (map ne_name (nodes pair_dag))" "edges_known pair_dag" using pair_dag_runnable by (simp_all add: runnable_def)
  have ac: "acyclic (edge_rel pair_dag)" using levels_known [OF ok(2)] pair_dag_levels by (auto split: if_splits)
  show ?thesis using ok ac execute_sequential_refines [OF ok ac] by blast
qed

text \<open>
  C28.  The executors agree on successful runs. When \<open>execute_sequential\<close> succeeds on a graph with distinct names
  and known edges in which every required trigger is delivered, \<open>execute_dag\<close> succeeds with the same node
  states and the same result, whichever levels it runs inline and whichever as parallel tasks. A failing run is
  not covered: there the executors differ in what they undo (\<open>parallel_level_not_rolled_back\<close>). Nor is a node that
  observes whether a value is still shared (\<open>PortValue::take\<close>), since nodes are functions of their state and inputs.
\<close>

theorem execute_dag_agrees:
  assumes "distinct (map ne_name (nodes dag))" and "edges_known dag"
    and "topological_levels dag = Some (Inr levels)" and "triggers_ok ops 0 levels (start_run dag)"
    and "execute_sequential ops dag = Some ((dag', evs), Inr res)"
  shows "\<exists>evs'. execute_dag ops on_scheduler dag = Some ((dag', evs'), Inr res)"
proof -
  have r: "runnable dag levels" using assms(1-3) by (simp add: runnable_def)
  have "ref_execute ops dag levels = ((dag', evs), Inr res)" using sequential_refines [OF r, of ops] assms(5) by simp
  then show ?thesis by (rule dag_refines [OF r assms(4)])
qed

theorem execute_dag_agrees_witness:
  "\<exists>dag' evs res evs'. topological_levels fork_dag = Some (Inr [[0], [1, 2]])
     \<and> execute_sequential pair_ops fork_dag = Some ((dag', evs), Inr res)
     \<and> execute_dag pair_ops (\<lambda>_. False) fork_dag = Some ((dag', evs'), Inr res)"
proof -
  have t: "triggers_ok pair_ops 0 [[0], [1, 2]] (start_run fork_dag)" by code_simp
  have "error_of (execute_sequential pair_ops fork_dag) = Some None" by code_simp
  then obtain dag' evs res where s: "execute_sequential pair_ops fork_dag = Some ((dag', evs), Inr res)"
    by (elim error_ofD) auto
  show ?thesis using s fork_dag_levels execute_dag_agrees [OF fork_dag_known fork_dag_levels t s, of "\<lambda>_. False"] by blast
qed

text \<open>
  C29.  Rollback restores the graph. When the nodes can undo what they do and a run whose levels are inline
  fails, the error names the one node that failed, and every other node is back in the state it had before
  the run.
\<close>

theorem execute_dag_rolls_back:
  assumes "runnable dag levels" and "restoring ops" and "execute_dag ops (\<lambda>_. True) dag = Some ((dag', evs), Inl e)"
  shows "\<exists>i < length (nodes dag). \<exists>m. e = NodeError (node_name dag i) m \<and> (\<forall>j < length (nodes dag). j \<noteq> i \<longrightarrow> node_at dag' j = node_at dag j)"
  by (rule rollback_restores [OF assms])

lemma tens_fails: "\<exists>dag' evs. execute_dag tens_ops (\<lambda>_. True) tens_dag = Some ((dag', evs), Inl (NodeError ''b'' ''boom''))"
proof -
  have "error_of (execute_dag tens_ops (\<lambda>_. True) tens_dag) = Some (Some (NodeError ''b'' ''boom''))"
    by code_simp
  then show ?thesis by (elim error_ofD) auto
qed

theorem execute_dag_rolls_back_witness:
  "\<exists>dag' evs. execute_dag tens_ops (\<lambda>_. True) tens_dag = Some ((dag', evs), Inl (NodeError ''b'' ''boom'')) \<and> node_at dag' 0 = 0"
proof -
  obtain dag' evs where f: "execute_dag tens_ops (\<lambda>_. True) tens_dag = Some ((dag', evs), Inl (NodeError ''b'' ''boom''))"
    using tens_fails by blast
  have two: "length (nodes tens_dag) = 2" by (simp add: tens_dag_def)
  obtain i where i: "node_name tens_dag i = ''b''" "\<forall>j < 2. j \<noteq> i \<longrightarrow> node_at dag' j = node_at tens_dag j"
    using execute_dag_rolls_back [OF tens_dag_runnable tens_restoring f] unfolding two by auto
  have "i \<noteq> 0" using i(1) by (cases i) (auto simp: tens_dag_def)
  then have "node_at dag' 0 = node_at tens_dag 0" using i(2) by simp
  then show ?thesis using f by (auto simp: tens_dag_def)
qed

text \<open>
  A parallel level is not rolled back. Of two independent nodes, the first one done and undoable and
  the second one failing, the inline run undoes the first and the parallel run leaves it as it is: the undo
  contexts of a parallel level are captured only once the whole level has succeeded.
\<close>

theorem parallel_level_not_rolled_back:
  "node_states (execute_dag tens_ops (\<lambda>_. True) tens_dag) = Some [0, 1]
   \<and> node_states (execute_dag tens_ops (\<lambda>_. False) tens_dag) = Some [10, 1]"
  by code_simp

text \<open>
  An inactive branch is skipped only in a parallel level: the node whose required trigger was not
  delivered keeps its state there, and is executed by the inline run of the same graph and by
  \<open>execute_sequential\<close>.
\<close>

theorem inactive_branch_runs_inline:
  "node_states (execute_dag branch_ops (\<lambda>_. False) branch_dag) = Some [1, 11, 20]
   \<and> node_states (execute_dag branch_ops (\<lambda>_. True) branch_dag) = Some [1, 11, 21]
   \<and> node_states (execute_sequential branch_ops branch_dag) = Some [1, 11, 21]"
  by code_simp

text \<open>
  C32.  Resuming from a file checkpoint. Take a graph with distinct names, known edges and no cycle, whose names
  have no colon and no newline and whose node types and error messages have no newline and no carriage return
  at the end, and a store as its operations leave it. Then \<open>execute_dag_with_checkpoint\<close> returns whichever nodes
  the checkpoint lists. The nodes
  it starts are new ones, each started once and none of them recorded as completed before; those that
  complete are appended to the checkpoint in the order they ran, and a failing node is the last one
  started and is not recorded as completed.
\<close>

theorem checkpoint_resume:
  assumes "runnable dag levels" and "recordable plain_name clean ops (map ne_name (nodes dag))" and "file_inv files"
  shows "\<exists>dag' evs res files' new. execute_dag_with_checkpoint ops file_store d dag files = Some (((dag', evs), res), files')
    \<and> file_inv files' \<and> completed_of (file_load d files') = completed_of (file_load d files) @ new
    \<and> distinct new \<and> set new \<subseteq> ne_name ` set (nodes dag) - set (completed_of (file_load d files))
    \<and> (case res of
         Inr _ \<Rightarrow> started evs = new
       | Inl e \<Rightarrow> \<exists>f m. e = NodeError f m \<and> f \<in> ne_name ` set (nodes dag) - set (completed_of (file_load d files)) - set new
                     \<and> started evs = new @ [f])"
proof -
  have l: "load file_store = file_load" by (simp add: file_store_def)
  show ?thesis using fcs.resume [OF assms, of d] unfolding resumed_def l by (fastforce split: sum.splits)
qed

theorem checkpoint_resume_witness:
  "\<exists>dag' evs res files'. execute_dag_with_checkpoint pair_ops file_store ''g'' pair_dag
      (file_save_node_completed ''g'' ''a'' ''pair'' Map.empty) = Some (((dag', evs), res), files')
    \<and> ''a'' \<notin> set (started evs) \<and> started evs = [''b''] \<and> completed_of (file_load ''g'' files') = [''a'', ''b'']"
proof -
  let ?files = "file_save_node_completed ''g'' ''a'' ''pair'' Map.empty"
  have rec: "recordable plain_name clean pair_ops (map ne_name (nodes pair_dag))"
    by (auto simp: recordable_def pair_ops_def pair_dag_def plain_name_def clean_def)
  have inv: "file_inv ?files" and old: "completed_of (file_load ''g'' ?files) = [''a'']"
    using fcs.saved [of Map.empty "''a''" "''pair''" "''g''"]
    by (simp_all add: file_inv_def file_store_def plain_name_def clean_def file_load_def read_lines_def completed_of_def)
  obtain dag' evs res files' new where run: "execute_dag_with_checkpoint pair_ops file_store ''g'' pair_dag ?files = Some (((dag', evs), res), files')"
    "completed_of (file_load ''g'' files') = [''a''] @ new" "distinct new" "set new \<subseteq> ne_name ` set (nodes pair_dag) - set [''a'']"
    "case res of Inr _ \<Rightarrow> started evs = new
       | Inl e \<Rightarrow> \<exists>f m. e = NodeError f m \<and> f \<in> ne_name ` set (nodes pair_dag) - set [''a''] - set new \<and> started evs = new @ [f]"
    using checkpoint_resume [OF pair_dag_runnable rec inv, of "''g''"] unfolding old by blast
  have "map_option (\<lambda>x. case snd (fst x) of Inl _ \<Rightarrow> None | Inr _ \<Rightarrow> Some (started (snd (fst (fst x)))))
      (execute_dag_with_checkpoint pair_ops file_store ''g'' pair_dag ?files) = Some (Some [''b''])" by code_simp
  then obtain r where "res = Inr r" "started evs = [''b'']" using run(1) by (cases res) auto
  then show ?thesis using run by auto
qed

text \<open>
  A resumed run can report success without doing the remaining work. The outputs of checkpointed nodes
  are not kept, so a node triggered by one of them counts as untriggered: with only the branching node
  recorded, the resumed run of the branch starts nothing, returns its result and marks the graph
  completed, although the active branch never ran.
\<close>

theorem resume_skips_triggered:
  "(case execute_dag_with_checkpoint branch_ops file_store ''g'' branch_dag
       (file_save_node_completed ''g'' ''if'' ''branch'' Map.empty) of
      Some (((dag', evs), Inr res), files) \<Rightarrow>
        started evs = [] \<and> map ne_node (nodes dag') = [0, 10, 20] \<and> completed_of (file_load ''g'' files) = [''if'']
        \<and> map_option status (file_load ''g'' files) = Some Completed
    | _ \<Rightarrow> False)"
  by code_simp

end
