(* ===== verification/ShardRouter.thy ===== *)
theory ShardRouter
  imports Codec "HOL-Library.AList"
begin

text \<open>
  The token-aware shard router, \<open>src/lucistore/src/shard_router.rs\<close>: counters per shard and token, routing by
  a full scan and by the power of two choices, the node id map, \<open>resync\<close> from the term dictionaries, and the
  statistics file with its three versions.

  A \<open>HashMap\<close> is an association list with distinct keys; its order is the iteration order, which the code does
  not rely on, and every theorem holds for every order. An \<open>f64\<close> is its 64-bit pattern, the way it is stored;
  its arithmetic is the argument \<open>F\<close>, and the theorems hold for every arithmetic unless they say otherwise.
\<close>

section \<open>Floats and maps\<close>

type_synonym f64 = u64

record F64 =
  f_of :: "u64 \<Rightarrow> f64"
  f_add :: "f64 \<Rightarrow> f64 \<Rightarrow> f64"
  f_sub :: "f64 \<Rightarrow> f64 \<Rightarrow> f64"
  f_mul :: "f64 \<Rightarrow> f64 \<Rightarrow> f64"
  f_div :: "f64 \<Rightarrow> f64 \<Rightarrow> f64"
  f_sqrt :: "f64 \<Rightarrow> f64"
  f_sum :: "f64 list \<Rightarrow> f64"
  f_lt :: "f64 \<Rightarrow> f64 \<Rightarrow> bool"
  f_le :: "f64 \<Rightarrow> f64 \<Rightarrow> bool"

abbreviation f_zero :: f64 where "f_zero \<equiv> 0"
abbreviation f_one :: f64 where "f_one \<equiv> 0x3FF0000000000000"
abbreviation f_max :: f64 where "f_max \<equiv> 0x7FEFFFFFFFFFFFFF"

definition f_clamp :: "F64 \<Rightarrow> f64 \<Rightarrow> f64 \<Rightarrow> f64 \<Rightarrow> f64" where
  "f_clamp F lo hi x = (let x' = (if f_lt F x lo then lo else x) in if f_lt F hi x' then hi else x')"

type_synonym ('k, 'v) hmap = "('k \<times> 'v) list"

text \<open>\<open>*map.entry(h).or_default()\<close> and \<open>... += k\<close>.\<close>

definition count_of :: "(u64, u32) hmap \<Rightarrow> u64 \<Rightarrow> u32" where
  "count_of m h = (case map_of m h of None \<Rightarrow> 0 | Some c \<Rightarrow> c)"

definition bump :: "u64 \<Rightarrow> u32 \<Rightarrow> (u64, u32) hmap \<Rightarrow> (u64, u32) hmap" where
  "bump h k m = AList.update h (count_of m h + k) m"

section \<open>The router\<close>

definition DEFAULT_DF_THRESHOLD :: u32 where "DEFAULT_DF_THRESHOLD = 5000"
definition DEFAULT_BALANCE_WEIGHT :: f64 where "DEFAULT_BALANCE_WEIGHT = f_one"

record ShardRouter =
  num_shards :: nat
  shard_token_counts :: "(u64, u32) hmap list"
  global_token_counts :: "(u64, u32) hmap"
  shard_doc_counts :: "u64 list"
  df_threshold :: u32
  balance_weight :: f64
  node_id_to_shard :: "(u64, nat) hmap"

definition with_options :: "F64 \<Rightarrow> nat \<Rightarrow> u32 \<Rightarrow> f64 \<Rightarrow> ShardRouter" where
  "with_options F n threshold weight = \<lparr>num_shards = n, shard_token_counts = replicate n [], global_token_counts = [],
     shard_doc_counts = replicate n 0, df_threshold = threshold, balance_weight = f_clamp F f_zero f_one weight,
     node_id_to_shard = []\<rparr>"

definition with_threshold :: "F64 \<Rightarrow> nat \<Rightarrow> u32 \<Rightarrow> ShardRouter" where
  "with_threshold F n threshold = with_options F n threshold DEFAULT_BALANCE_WEIGHT"

definition router_new :: "F64 \<Rightarrow> nat \<Rightarrow> ShardRouter" where
  "router_new F n = with_options F n DEFAULT_DF_THRESHOLD DEFAULT_BALANCE_WEIGHT"

definition total_docs :: "ShardRouter \<Rightarrow> u64" where
  "total_docs r = sum_list (shard_doc_counts r)"

definition update_counters_for_token :: "nat \<Rightarrow> u64 \<Rightarrow> ShardRouter \<Rightarrow> ShardRouter exec" where
  "update_counters_for_token s h r =
     (let r' = r\<lparr>global_token_counts := bump h 1 (global_token_counts r)\<rparr> in
      if count_of (global_token_counts r') h < df_threshold r then do {
        counts \<leftarrow> idx (shard_token_counts r') s;
        Some (r'\<lparr>shard_token_counts := (shard_token_counts r')[s := bump h 1 counts]\<rparr>) }
      else Some r')"

fun update_counters :: "nat \<Rightarrow> u64 list \<Rightarrow> ShardRouter \<Rightarrow> ShardRouter exec" where
  "update_counters s [] r = Some r"
| "update_counters s (h # hs) r = do { r' \<leftarrow> update_counters_for_token s h r; update_counters s hs r' }"

definition apply_route :: "nat \<Rightarrow> u64 list \<Rightarrow> ShardRouter \<Rightarrow> ShardRouter exec" where
  "apply_route s doc_tokens r = do {
     c \<leftarrow> idx (shard_doc_counts r) s;
     update_counters s doc_tokens (r\<lparr>shard_doc_counts := (shard_doc_counts r)[s := c + 1]\<rparr>) }"

section \<open>Scores\<close>

definition token_term :: "F64 \<Rightarrow> ShardRouter \<Rightarrow> (u64, u32) hmap \<Rightarrow> u64 \<Rightarrow> f64 option" where
  "token_term F r counts h = do {
     global \<leftarrow> map_of (global_token_counts r) h;
     if df_threshold r \<le> global then None
     else Some (f_div F (f_of F (ucast (count_of counts h))) (f_sqrt F (f_of F (ucast global)))) }"

definition score_shard :: "F64 \<Rightarrow> ShardRouter \<Rightarrow> u64 list \<Rightarrow> f64 \<Rightarrow> nat \<Rightarrow> f64 exec" where
  "score_shard F r doc_tokens total_d s = do {
     counts \<leftarrow> idx (shard_token_counts r) s;
     docs \<leftarrow> idx (shard_doc_counts r) s;
     let token_score = f_sum F (List.map_filter (token_term F r counts) doc_tokens);
         shard_ratio = f_div F (f_of F docs) total_d
     in Some (f_add F (f_mul F (f_sub F f_one (balance_weight r)) token_score) (f_mul F (balance_weight r) shard_ratio)) }"

fun best_shard :: "F64 \<Rightarrow> (nat \<Rightarrow> f64 exec) \<Rightarrow> nat list \<Rightarrow> nat \<Rightarrow> f64 \<Rightarrow> nat exec" where
  "best_shard F score [] best best_score = Some best"
| "best_shard F score (s # ss) best best_score = do {
     x \<leftarrow> score s;
     if f_lt F x best_score then best_shard F score ss s x else best_shard F score ss best best_score }"

definition total_weight :: "F64 \<Rightarrow> ShardRouter \<Rightarrow> f64" where
  "total_weight F r = f_of F (max (total_docs r) 1)"

definition route :: "F64 \<Rightarrow> u64 list \<Rightarrow> ShardRouter \<Rightarrow> (ShardRouter \<times> nat) exec" where
  "route F doc_tokens r =
     (if num_shards r = 1 then do { r' \<leftarrow> apply_route 0 doc_tokens r; Some (r', 0) }
      else do {
        best \<leftarrow> best_shard F (score_shard F r doc_tokens (total_weight F r)) [0..<num_shards r] 0 f_max;
        r' \<leftarrow> apply_route best doc_tokens r;
        Some (r', best) })"

definition p2c_shards :: "nat \<Rightarrow> u64 \<Rightarrow> nat \<times> nat" where
  "p2c_shards n doc_id =
     (let a = unat (drop_bit 32 (doc_id * 0x9E3779B97F4A7C15)) mod n;
          b = unat (drop_bit 32 (doc_id * 0x517CC1B727220A95)) mod n
      in (a, if a = b then (b + 1) mod n else b))"

definition route_p2c :: "F64 \<Rightarrow> u64 list \<Rightarrow> u64 \<Rightarrow> ShardRouter \<Rightarrow> (ShardRouter \<times> nat) exec" where
  "route_p2c F doc_tokens doc_id r =
     (if num_shards r \<le> 2 then route F doc_tokens r
      else case p2c_shards (num_shards r) doc_id of (a, b) \<Rightarrow> do {
        score_a \<leftarrow> score_shard F r doc_tokens (total_weight F r) a;
        score_b \<leftarrow> score_shard F r doc_tokens (total_weight F r) b;
        let best = (if f_le F score_a score_b then a else b) in do {
        r' \<leftarrow> apply_route best doc_tokens r;
        Some (r', best) } })"

section \<open>Hashes, node ids\<close>

text \<open>\<open>FxHasher::write\<close>; \<open>str::hash\<close> writes the bytes of the string and then the byte 0xff.\<close>

definition fx_write :: "u64 \<Rightarrow> bytes \<Rightarrow> u64" where
  "fx_write hash bs = foldl (\<lambda>hash b. hash * 0x100000001b3 + ucast b) hash bs"

definition hash_bytes :: "bytes \<Rightarrow> u64" where
  "hash_bytes bs = fx_write 0 bs"

definition hash_token :: "bytes \<Rightarrow> u64" where
  "hash_token token = hash_bytes (token @ [0xff])"

definition record_node_id :: "u64 \<Rightarrow> nat \<Rightarrow> ShardRouter \<Rightarrow> ShardRouter" where
  "record_node_id node_id s r = r\<lparr>node_id_to_shard := AList.update node_id s (node_id_to_shard r)\<rparr>"

definition shard_for_node_id :: "u64 \<Rightarrow> ShardRouter \<Rightarrow> nat option" where
  "shard_for_node_id node_id r = map_of (node_id_to_shard r) node_id"

definition remove_node_id :: "u64 \<Rightarrow> ShardRouter \<Rightarrow> ShardRouter \<times> nat option" where
  "remove_node_id node_id r =
     (r\<lparr>node_id_to_shard := AList.delete node_id (node_id_to_shard r)\<rparr>, map_of (node_id_to_shard r) node_id)"

section \<open>Resync\<close>

text \<open>The walk over the term dictionaries is the sequence of its calls: per shard, its terms with their frequencies.\<close>

fun resync_terms :: "nat \<Rightarrow> (bytes \<times> u32) list \<Rightarrow> ShardRouter \<Rightarrow> ShardRouter exec" where
  "resync_terms s [] r = Some r"
| "resync_terms s ((term_bytes, doc_freq) # ts) r =
     (if doc_freq = 0 then resync_terms s ts r
      else do {
        counts \<leftarrow> idx (shard_token_counts r) s;
        let h = hash_bytes term_bytes in
        resync_terms s ts
          (r\<lparr>global_token_counts := bump h doc_freq (global_token_counts r),
             shard_token_counts := (shard_token_counts r)[s := bump h doc_freq counts]\<rparr>) })"

fun resync_shards :: "(nat \<times> (bytes \<times> u32) list) list \<Rightarrow> ShardRouter \<Rightarrow> ShardRouter exec" where
  "resync_shards [] r = Some r"
| "resync_shards ((s, ts) # rest) r = do { r' \<leftarrow> resync_terms s ts r; resync_shards rest r' }"

definition resync_prune :: "ShardRouter \<Rightarrow> ShardRouter" where
  "resync_prune r =
     (let above_threshold = map fst (filter (\<lambda>(_, count). df_threshold r \<le> count) (global_token_counts r)) in
      r\<lparr>global_token_counts := fold AList.delete above_threshold (global_token_counts r),
        shard_token_counts := map (fold AList.delete above_threshold) (shard_token_counts r)\<rparr>)"

definition resync :: "(nat \<times> (bytes \<times> u32) list) list \<Rightarrow> ShardRouter \<Rightarrow> ShardRouter exec" where
  "resync shards r = do {
     r' \<leftarrow> resync_shards shards
       (r\<lparr>shard_token_counts := map (\<lambda>_. []) (shard_token_counts r), global_token_counts := []\<rparr>);
     Some (resync_prune r') }"

section \<open>The statistics file\<close>

datatype stats_error = TooShort | InvalidMagic | UnsupportedVersion u8 | Truncated

definition enc_counts :: "(u64, u32) hmap \<Rightarrow> bytes" where
  "enc_counts m = le32 (u32_of (length m)) @ concat (map (enc_pair le64 le32) m)"

definition to_bytes :: "ShardRouter \<Rightarrow> bytes" where
  "to_bytes r = bstr ''SHRD'' @ [3]
     @ le32 (u32_of (num_shards r)) @ le32 (df_threshold r) @ le64 (balance_weight r)
     @ concat (map le64 (shard_doc_counts r))
     @ enc_counts (global_token_counts r)
     @ concat (map enc_counts (shard_token_counts r))
     @ enc_counts (map (\<lambda>(node_id, s). (node_id, u32_of s)) (node_id_to_shard r))"

text \<open>The closures that read at a position and advance it; \<open>None\<close> is the error of a truncated file.\<close>

definition rd32 :: "bytes \<Rightarrow> nat \<Rightarrow> (u32 \<times> nat) option" where
  "rd32 data pos = (if length data < pos + 4 then None else map_option (\<lambda>v. (v, pos + 4)) (read_u32 data pos))"

definition rd64 :: "bytes \<Rightarrow> nat \<Rightarrow> (u64 \<times> nat) option" where
  "rd64 data pos = (if length data < pos + 8 then None else map_option (\<lambda>v. (v, pos + 8)) (read_u64 data pos))"

text \<open>A count and that many entries, each inserted into the map.\<close>

definition dec_counts :: "bytes \<Rightarrow> nat \<Rightarrow> ((u64, u32) hmap \<times> nat) option" where
  "dec_counts data pos = do {
     (n, pos) \<leftarrow> rd32 data pos;
     (entries, pos) \<leftarrow> dec_many (dec_pair rd64 rd32) (unat n) data pos;
     Some (fold (\<lambda>(k, v). AList.update k v) entries [], pos) }"

definition dec_router :: "u8 \<Rightarrow> bytes \<Rightarrow> ShardRouter option" where
  "dec_router version data = do {
     (n, pos) \<leftarrow> rd32 data 5;
     (threshold, pos) \<leftarrow> rd32 data pos;
     (weight, pos) \<leftarrow> (if 3 \<le> version then rd64 data pos else Some (DEFAULT_BALANCE_WEIGHT, pos));
     (docs, pos) \<leftarrow> dec_many rd64 (unat n) data pos;
     (global, pos) \<leftarrow> dec_counts data pos;
     (shard_counts, pos) \<leftarrow> dec_many dec_counts (unat n) data pos;
     (nodes, pos) \<leftarrow> (if 2 \<le> version \<and> pos < length data then dec_counts data pos else Some ([], pos));
     Some \<lparr>num_shards = unat n, shard_token_counts = shard_counts, global_token_counts = global, shard_doc_counts = docs,
       df_threshold = threshold, balance_weight = weight, node_id_to_shard = map (\<lambda>(node_id, s). (node_id, unat s)) nodes\<rparr> }"

definition from_bytes :: "bytes \<Rightarrow> stats_error + ShardRouter" where
  "from_bytes data =
     (if length data < 5 then Inl TooShort
      else if take 4 data \<noteq> bstr ''SHRD'' then Inl InvalidMagic
      else let version = data ! 4 in
        if \<not> (1 \<le> version \<and> version \<le> 3) then Inl (UnsupportedVersion version)
        else case dec_router version data of None \<Rightarrow> Inl Truncated | Some r \<Rightarrow> Inr r)"

section \<open>Counters\<close>

lemma count_of_simps [simp]: "count_of [] h = 0"
  by (simp add: count_of_def)

lemma count_of_bump: "count_of (bump h k m) x = (if x = h then count_of m h + k else count_of m x)"
  by (simp add: bump_def count_of_def update_conv')

lemma bump_distinct: "distinct (map fst m) \<Longrightarrow> distinct (map fst (bump h k m))"
  by (simp add: bump_def distinct_update)

lemma count_of_deletes: "count_of (fold AList.delete ks m) h = (if h \<in> set ks then 0 else count_of m h)"
  by (induction ks arbitrary: m) (auto simp: count_of_def delete_conv')

lemma deletes_distinct: "distinct (map fst m) \<Longrightarrow> distinct (map fst (fold AList.delete ks m))"
  by (induction ks arbitrary: m) (auto simp: distinct_delete)

text \<open>The total of the shard counters of a token.\<close>

definition shard_sum :: "ShardRouter \<Rightarrow> u64 \<Rightarrow> u32" where
  "shard_sum r h = sum_list (map (\<lambda>counts. count_of counts h) (shard_token_counts r))"

lemma sum_list_upd: "s < length xs \<Longrightarrow> sum_list (map f (xs[s := y])) = sum_list (map f xs) - f (xs ! s) + (f y :: 'a::ab_group_add)"
proof (induction xs arbitrary: s)
  case (Cons x xs)
  then show ?case by (cases s) auto
qed simp

definition router_wf :: "ShardRouter \<Rightarrow> bool" where
  "router_wf r \<longleftrightarrow> length (shard_token_counts r) = num_shards r \<and> length (shard_doc_counts r) = num_shards r
     \<and> distinct (map fst (global_token_counts r)) \<and> list_all (\<lambda>m. distinct (map fst m)) (shard_token_counts r)
     \<and> distinct (map fst (node_id_to_shard r))"

definition tracked :: "ShardRouter \<Rightarrow> bool" where
  "tracked r \<longleftrightarrow> (\<forall>h. count_of (global_token_counts r) h < df_threshold r \<longrightarrow> shard_sum r h = count_of (global_token_counts r) h)"

lemma list_all_upd: "list_all P xs \<Longrightarrow> P y \<Longrightarrow> list_all P (xs[s := y])"
  by (simp add: list_all_iff) (metis insert_iff set_update_subset_insert subsetD)

text \<open>What an update of the token counters leaves alone.\<close>

definition same_frame :: "ShardRouter \<Rightarrow> ShardRouter \<Rightarrow> bool" where
  "same_frame r r' \<longleftrightarrow> num_shards r' = num_shards r \<and> df_threshold r' = df_threshold r \<and> balance_weight r' = balance_weight r
     \<and> shard_doc_counts r' = shard_doc_counts r \<and> node_id_to_shard r' = node_id_to_shard r"

lemma same_frame_trans: "same_frame a b \<Longrightarrow> same_frame b c \<Longrightarrow> same_frame a c"
  by (simp add: same_frame_def)

lemma update_token:
  assumes w: "router_wf r" and s: "s < num_shards r"
  shows "\<exists>r'. update_counters_for_token s h r = Some r' \<and> router_wf r' \<and> same_frame r r'
    \<and> (\<forall>x. count_of (global_token_counts r') x = (if x = h then count_of (global_token_counts r) h + 1 else count_of (global_token_counts r) x))
    \<and> (tracked r \<longrightarrow> unat (count_of (global_token_counts r) h) + 1 < 2 ^ 32 \<longrightarrow> tracked r')"
proof -
  let ?g = "bump h 1 (global_token_counts r)" and ?c = "shard_token_counts r ! s"
  have s': "s < length (shard_token_counts r)" "idx (shard_token_counts r) s = Some ?c"
    using w s by (simp_all add: router_wf_def idx_def)
  have c: "distinct (map fst ?c)" using w s'(1) by (auto simp: router_wf_def list_all_iff)
  show ?thesis
  proof (cases "count_of ?g h < df_threshold r")
    case True
    let ?r = "r\<lparr>global_token_counts := ?g, shard_token_counts := (shard_token_counts r)[s := bump h 1 ?c]\<rparr>"
    have "update_counters_for_token s h r = Some ?r" using True s'(2) by (simp add: update_counters_for_token_def Let_def)
    moreover have "router_wf ?r" using w c by (auto simp: router_wf_def bump_distinct intro: list_all_upd)
    moreover have "tracked ?r" if t: "tracked r" and small: "unat (count_of (global_token_counts r) h) + 1 < 2 ^ 32"
      unfolding tracked_def
    proof (intro allI impI)
      fix x assume x: "count_of (global_token_counts ?r) x < df_threshold ?r"
      have sum: "shard_sum ?r x = shard_sum r x + (if x = h then 1 else 0)"
        using s'(1) by (simp add: shard_sum_def sum_list_upd count_of_bump)
      have "count_of (global_token_counts r) x < df_threshold r"
      proof (cases "x = h")
        case True
        have "count_of (global_token_counts r) h < count_of (global_token_counts r) h + 1"
          using small by (simp add: word_less_nat_alt unat_word_ariths)
        then show ?thesis using x True by (simp add: count_of_bump)
      qed (use x in \<open>simp add: count_of_bump\<close>)
      then have "shard_sum r x = count_of (global_token_counts r) x" using t by (simp add: tracked_def)
      then show "shard_sum ?r x = count_of (global_token_counts ?r) x" using sum by (simp add: count_of_bump)
    qed
    ultimately show ?thesis by (intro exI [of _ ?r]) (auto simp: same_frame_def count_of_bump)
  next
    case False
    let ?r = "r\<lparr>global_token_counts := ?g\<rparr>"
    have "update_counters_for_token s h r = Some ?r" using False by (simp add: update_counters_for_token_def Let_def)
    moreover have "tracked r \<Longrightarrow> tracked ?r" using False by (auto simp: tracked_def shard_sum_def count_of_bump)
    ultimately show ?thesis using w by (intro exI [of _ ?r]) (auto simp: same_frame_def count_of_bump router_wf_def bump_distinct)
  qed
qed

text \<open>No global counter reaches \<open>2 ^ 32\<close> while the tokens are counted.\<close>

definition room :: "u64 list \<Rightarrow> ShardRouter \<Rightarrow> bool" where
  "room ts r \<longleftrightarrow> (\<forall>h. unat (count_of (global_token_counts r) h) + count_list ts h < 2 ^ 32)"

lemma update_counters_ok:
  assumes "router_wf r" and "s < num_shards r"
  shows "\<exists>r'. update_counters s ts r = Some r' \<and> router_wf r' \<and> same_frame r r' \<and> (tracked r \<longrightarrow> room ts r \<longrightarrow> tracked r')"
  using assms
proof (induction ts arbitrary: r)
  case (Cons h ts)
  obtain r1 where r1: "update_counters_for_token s h r = Some r1" "router_wf r1" "same_frame r r1"
    "\<forall>x. count_of (global_token_counts r1) x = (if x = h then count_of (global_token_counts r) h + 1 else count_of (global_token_counts r) x)"
    "tracked r \<longrightarrow> unat (count_of (global_token_counts r) h) + 1 < 2 ^ 32 \<longrightarrow> tracked r1"
    using update_token [OF Cons.prems] by blast
  have room: "room ts r1 \<and> unat (count_of (global_token_counts r) h) + 1 < 2 ^ 32" if "room (h # ts) r"
  proof -
    have *: "unat (count_of (global_token_counts r) x) + count_list (h # ts) x < 2 ^ 32" for x using that by (simp add: room_def)
    have small: "unat (count_of (global_token_counts r) h) + 1 < 2 ^ 32" using * [of h] by simp
    then have "unat (count_of (global_token_counts r) h + 1) = unat (count_of (global_token_counts r) h) + 1"
      by (simp add: unat_word_ariths)
    then have "unat (count_of (global_token_counts r1) x) + count_list ts x < 2 ^ 32" for x
      using * [of x] r1(4) by (cases "x = h") auto
    then show ?thesis using small unfolding room_def by blast
  qed
  obtain r' where "update_counters s ts r1 = Some r'" "router_wf r'" "same_frame r1 r'" "tracked r1 \<longrightarrow> room ts r1 \<longrightarrow> tracked r'"
    using Cons.IH [OF r1(2)] Cons.prems(2) r1(3) by (auto simp: same_frame_def)
  then show ?case using r1 room same_frame_trans by auto
qed (simp add: same_frame_def)

lemma apply_route_ok:
  assumes "router_wf r" and "s < num_shards r"
  shows "\<exists>r'. apply_route s ts r = Some r' \<and> router_wf r' \<and> num_shards r' = num_shards r
    \<and> shard_doc_counts r' = (shard_doc_counts r)[s := shard_doc_counts r ! s + 1]
    \<and> node_id_to_shard r' = node_id_to_shard r \<and> (tracked r \<longrightarrow> room ts r \<longrightarrow> tracked r')"
proof -
  let ?r = "r\<lparr>shard_doc_counts := (shard_doc_counts r)[s := shard_doc_counts r ! s + 1]\<rparr>"
  have "router_wf ?r" "s < num_shards ?r" using assms by (simp_all add: router_wf_def)
  from update_counters_ok [OF this, of ts] obtain r' where
    "update_counters s ts ?r = Some r'" "router_wf r'" "same_frame ?r r'" "tracked ?r \<longrightarrow> room ts ?r \<longrightarrow> tracked r'" by blast
  moreover have "tracked ?r = tracked r" "room ts ?r = room ts r" by (simp_all add: tracked_def shard_sum_def room_def)
  moreover have "idx (shard_doc_counts r) s = Some (shard_doc_counts r ! s)" using assms by (simp add: idx_def router_wf_def)
  ultimately show ?thesis by (simp add: apply_route_def same_frame_def)
qed

section \<open>The choice of a shard\<close>

lemma score_shard_defined: "router_wf r \<Longrightarrow> s < num_shards r \<Longrightarrow> score_shard F r ts w s \<noteq> None"
  by (simp add: score_shard_def idx_def router_wf_def Let_def)

lemma best_shard_in:
  "(\<And>s. s \<in> set ss \<Longrightarrow> score s \<noteq> None) \<Longrightarrow> \<exists>b. best_shard F score ss best x = Some b \<and> b \<in> insert best (set ss)"
proof (induction ss arbitrary: best x)
  case (Cons s ss)
  obtain y where "score s = Some y" using Cons.prems [of s] by auto
  then show ?case using Cons.IH [of best x] Cons.IH [of s y] Cons.prems by (auto simp: Let_def)
qed simp

lemma route_ok:
  assumes "router_wf r" and "0 < num_shards r"
  shows "\<exists>r' s. route F ts r = Some (r', s) \<and> s < num_shards r \<and> apply_route s ts r = Some r'"
proof (cases "num_shards r = 1")
  case True
  then show ?thesis using apply_route_ok [OF assms, of ts] by (auto simp: route_def)
next
  case False
  obtain b where b: "best_shard F (score_shard F r ts (total_weight F r)) [0..<num_shards r] 0 f_max = Some b" "b < num_shards r"
    using best_shard_in [of "[0..<num_shards r]" "score_shard F r ts (total_weight F r)" F 0 f_max]
      score_shard_defined [OF assms(1)] assms(2) by auto
  then show ?thesis using False apply_route_ok [OF assms(1) b(2), of ts] by (auto simp: route_def)
qed

lemma route_p2c_ok:
  assumes "router_wf r" and "0 < num_shards r"
  shows "\<exists>r' s. route_p2c F ts i r = Some (r', s) \<and> s < num_shards r \<and> apply_route s ts r = Some r'"
proof (cases "num_shards r \<le> 2")
  case True
  then show ?thesis using route_ok [OF assms, of F ts] by (simp add: route_p2c_def)
next
  case False
  obtain a b where ab: "p2c_shards (num_shards r) i = (a, b)" "a < num_shards r" "b < num_shards r"
    using assms(2) by (auto simp: p2c_shards_def Let_def)
  obtain x y where "score_shard F r ts (total_weight F r) a = Some x" "score_shard F r ts (total_weight F r) b = Some y"
    using score_shard_defined [OF assms(1)] ab(2,3) by blast
  then show ?thesis using False ab apply_route_ok [OF assms(1) ab(2), of ts] apply_route_ok [OF assms(1) ab(3), of ts]
    by (auto simp: route_p2c_def Let_def)
qed

lemma upt_split:
  assumes "[0..<n] = us @ b # ws"
  shows "us = [0..<b]"
proof -
  have len: "length us < n" using arg_cong [OF assms, of length] by simp
  then have "us = [0..<length us]" using arg_cong [OF assms, of "take (length us)"] by (simp add: take_upt)
  moreover have "b = length us" using arg_cong [OF assms, of "\<lambda>xs. xs ! length us"] len by simp
  ultimately show ?thesis by simp
qed

text \<open>What \<open><\<close> is on floats that are not NaN: asymmetric, and incomparability is transitive.\<close>

definition comparable :: "F64 \<Rightarrow> f64 set \<Rightarrow> bool" where
  "comparable F X \<longleftrightarrow> (\<forall>x \<in> X. \<forall>y \<in> X. f_lt F x y \<longrightarrow> \<not> f_lt F y x)
     \<and> (\<forall>x \<in> X. \<forall>y \<in> X. \<forall>z \<in> X. \<not> f_lt F x y \<longrightarrow> \<not> f_lt F y z \<longrightarrow> \<not> f_lt F x z)"

lemma comparable_subset: "comparable F X \<Longrightarrow> Y \<subseteq> X \<Longrightarrow> comparable F Y"
  unfolding comparable_def by blast

lemma best_shard_first:
  assumes "comparable F (insert x (f ` set ss))" and "\<And>s. s \<in> set ss \<Longrightarrow> score s = Some (f s)"
    and "\<exists>s \<in> set ss. f_lt F (f s) x"
  shows "\<exists>us b ws. ss = us @ b # ws \<and> best_shard F score ss best x = Some b \<and> f_lt F (f b) x
    \<and> (\<forall>u \<in> set us. f_lt F (f b) (f u)) \<and> (\<forall>w \<in> set ws. \<not> f_lt F (f w) (f b))"
  using assms
proof (induction ss arbitrary: best x)
  case (Cons s ss)
  have sc: "score s = Some (f s)" and rest: "\<And>t. t \<in> set ss \<Longrightarrow> score t = Some (f t)" using Cons.prems(2) by auto
  show ?case
  proof (cases "f_lt F (f s) x")
    case lt: True
    have c: "comparable F (insert (f s) (f ` set ss))" using Cons.prems(1) by (rule comparable_subset) auto
    show ?thesis
    proof (cases "\<exists>t \<in> set ss. f_lt F (f t) (f s)")
      case True
      from Cons.IH [OF c rest True, of s] obtain us b ws where b: "ss = us @ b # ws" "best_shard F score ss s (f s) = Some b"
        "f_lt F (f b) (f s)" "\<forall>u \<in> set us. f_lt F (f b) (f u)" "\<forall>w \<in> set ws. \<not> f_lt F (f w) (f b)" by blast
      have in_x: "x \<in> insert x (f ` set (s # ss))" "f s \<in> insert x (f ` set (s # ss))" "f b \<in> insert x (f ` set (s # ss))"
        using b(1) by auto
      have "\<not> f_lt F x (f s)" using Cons.prems(1) lt in_x unfolding comparable_def by blast
      then have "f_lt F (f b) x" using Cons.prems(1) b(3) in_x unfolding comparable_def by blast
      then show ?thesis using b lt sc by (intro exI [of _ "s # us"] exI [of _ b] exI [of _ ws]) auto
    next
      case False
      have "best_shard F score ss s (f s) = Some s" using False rest
      proof (induction ss)
        case (Cons t ts)
        then show ?case by (simp add: Let_def)
      qed simp
      then show ?thesis using False lt sc by (intro exI [of _ "[]"] exI [of _ s] exI [of _ ss]) auto
    qed
  next
    case nlt: False
    have c: "comparable F (insert x (f ` set ss))" using Cons.prems(1) by (rule comparable_subset) auto
    have "\<exists>t \<in> set ss. f_lt F (f t) x" using Cons.prems(3) nlt by auto
    from Cons.IH [OF c rest this, of best] obtain us b ws where b: "ss = us @ b # ws" "best_shard F score ss best x = Some b"
      "f_lt F (f b) x" "\<forall>u \<in> set us. f_lt F (f b) (f u)" "\<forall>w \<in> set ws. \<not> f_lt F (f w) (f b)" by blast
    have "f_lt F (f b) (f s)" using Cons.prems(1) b(1,3) nlt unfolding comparable_def by auto
    then show ?thesis using b nlt sc by (intro exI [of _ "s # us"] exI [of _ b] exI [of _ ws]) auto
  qed
qed simp

section \<open>Resync\<close>

lemma resync_terms_ok:
  assumes "resync_terms s ts r = Some r'" and "router_wf r" and "\<forall>h. shard_sum r h = count_of (global_token_counts r) h"
  shows "router_wf r' \<and> same_frame r r' \<and> (\<forall>h. shard_sum r' h = count_of (global_token_counts r') h)"
  using assms
proof (induction ts arbitrary: r)
  case (Cons t ts)
  obtain bs df where t: "t = (bs, df)" by (cases t)
  show ?case
  proof (cases "df = 0")
    case True
    then show ?thesis using Cons t by simp
  next
    case False
    then obtain counts where c: "idx (shard_token_counts r) s = Some counts" using Cons.prems(1) t by (cases "idx (shard_token_counts r) s") auto
    let ?h = "hash_bytes bs"
    let ?r = "r\<lparr>global_token_counts := bump ?h df (global_token_counts r), shard_token_counts := (shard_token_counts r)[s := bump ?h df counts]\<rparr>"
    have s: "s < length (shard_token_counts r)" "counts = shard_token_counts r ! s" using c by (auto simp: idx_def split: if_splits)
    have d: "distinct (map fst counts)" using Cons.prems(2) s by (auto simp: router_wf_def list_all_iff)
    have wf: "router_wf ?r" using Cons.prems(2) d by (auto simp: router_wf_def bump_distinct intro: list_all_upd)
    have sum: "\<forall>h. shard_sum ?r h = count_of (global_token_counts ?r) h"
      using Cons.prems(3) s by (simp add: shard_sum_def sum_list_upd count_of_bump)
    have run: "resync_terms s ts ?r = Some r'" using Cons.prems(1) t False c by (simp add: Let_def)
    show ?thesis using Cons.IH [OF run wf sum] by (simp add: same_frame_def)
  qed
qed (simp add: same_frame_def)

lemma resync_shards_ok:
  assumes "resync_shards shards r = Some r'" and "router_wf r" and "\<forall>h. shard_sum r h = count_of (global_token_counts r) h"
  shows "router_wf r' \<and> same_frame r r' \<and> (\<forall>h. shard_sum r' h = count_of (global_token_counts r') h)"
  using assms
proof (induction shards r rule: resync_shards.induct)
  case (2 s ts rest r)
  then obtain r1 where r1: "resync_terms s ts r = Some r1" "resync_shards rest r1 = Some r'" by (cases "resync_terms s ts r") auto
  note ok = resync_terms_ok [OF r1(1) 2(3,4)]
  show ?case using 2(1) [OF r1] ok same_frame_trans by blast
qed (simp add: same_frame_def)

lemma resync_ok:
  assumes "resync shards r = Some r'" and "router_wf r"
  shows "router_wf r' \<and> same_frame r r' \<and> tracked r'"
proof -
  let ?r0 = "r\<lparr>shard_token_counts := map (\<lambda>_. []) (shard_token_counts r), global_token_counts := []\<rparr>"
  obtain r1 where r1: "resync_shards shards ?r0 = Some r1" "r' = resync_prune r1"
    using assms(1) by (cases "resync_shards shards ?r0") (auto simp: resync_def)
  have "router_wf ?r0" using assms(2) by (auto simp: router_wf_def list_all_iff)
  moreover have "\<forall>h. shard_sum ?r0 h = count_of (global_token_counts ?r0) h" by (simp add: shard_sum_def comp_def)
  ultimately have ok: "router_wf r1" "same_frame ?r0 r1" "\<forall>h. shard_sum r1 h = count_of (global_token_counts r1) h"
    using resync_shards_ok [OF r1(1)] by blast+
  define ks where "ks = map fst (filter (\<lambda>(_, count). df_threshold r1 \<le> count) (global_token_counts r1))"
  have p: "resync_prune r1 = r1\<lparr>global_token_counts := fold AList.delete ks (global_token_counts r1),
      shard_token_counts := map (fold AList.delete ks) (shard_token_counts r1)\<rparr>" by (simp add: resync_prune_def Let_def ks_def)
  have "shard_sum r' h = (if h \<in> set ks then 0 else shard_sum r1 h)" for h
    unfolding r1(2) p shard_sum_def by (simp add: comp_def count_of_deletes)
  then have "tracked r'" using ok(3) unfolding tracked_def r1(2) p by (simp add: count_of_deletes)
  moreover have "router_wf r'" using ok(1) unfolding r1(2) p by (auto simp: router_wf_def deletes_distinct list_all_iff)
  moreover have "same_frame r r'" using ok(2) unfolding r1(2) p by (simp add: same_frame_def)
  ultimately show ?thesis by blast
qed











lemma count_of_map_of: "count_of m h \<noteq> 0 \<Longrightarrow> map_of m h = Some (count_of m h)"
  by (auto simp: count_of_def split: option.splits)




section \<open>Round trip\<close>

interpretation i32: codec le32 rd32 "\<lambda>_. True"
proof (unfold_locales, goal_cases)
  case (1 v pre post)
  then show ?case using read_le_middle [of "length pre" pre 4 "le32 v" post, where ?'a = 32] by (simp add: rd32_def)
qed (metis length_to_le list.size(3) zero_neq_numeral)

interpretation i64: codec le64 rd64 "\<lambda>_. True"
proof (unfold_locales, goal_cases)
  case (1 v pre post)
  then show ?case using read_le_middle [of "length pre" pre 8 "le64 v" post, where ?'a = 64] by (simp add: rd64_def)
qed (metis length_to_le list.size(3) zero_neq_numeral)

interpretation entry: codec_pair le64 rd64 "\<lambda>_. True" le32 rd32 "\<lambda>_. True" ..

lemma update_new: "k \<notin> fst ` set m \<Longrightarrow> AList.update k v m = m @ [(k, v)]"
  by (induction m) auto

lemma fold_update_distinct: "distinct (map fst (m @ es)) \<Longrightarrow> fold (\<lambda>(k, v). AList.update k v) es m = m @ es"
proof (induction es arbitrary: m)
  case (Cons e es)
  obtain k v where e: "e = (k, v)" by (cases e)
  then have "k \<notin> fst ` set m" using Cons.prems by auto
  then show ?case using Cons.IH [of "m @ [e]"] Cons.prems e by (simp add: update_new)
qed simp

interpretation counts: codec enc_counts dec_counts "\<lambda>m. length m < 2 ^ 32 \<and> distinct (map fst m)"
proof (unfold_locales, goal_cases)
  case (1 m pre post)
  let ?data = "pre @ enc_counts m @ post" and ?body = "concat (map (enc_pair le64 le32) m)"
  have "drop (length pre) ?data = le32 (u32_of (length m)) @ ?body @ post" by (simp add: enc_counts_def)
  from i32.dec_at [OF _ this] have n: "rd32 ?data (length pre) = Some (u32_of (length m), length pre + 4)"
    "drop (length pre + 4) ?data = ?body @ post" by simp_all
  have "dec_many (dec_pair rd64 rd32) (length m) ?data (length pre + 4) = Some (m, length pre + 4 + length ?body)"
    using entry.pair.dec_many_at(1) [OF _ n(2)] by auto
  then show ?case using 1 n(1) fold_update_distinct [of "[]" m] by (simp add: dec_counts_def enc_counts_def)
next
  case (2 m)
  then show ?case by (simp add: enc_counts_def) (metis length_to_le list.size(3) zero_neq_numeral)
qed

text \<open>What fits the statistics file: 32-bit counts and shard ids.\<close>

definition storable :: "ShardRouter \<Rightarrow> bool" where
  "storable r \<longleftrightarrow> num_shards r < 2 ^ 32 \<and> length (global_token_counts r) < 2 ^ 32 \<and> list_all (\<lambda>m. length m < 2 ^ 32) (shard_token_counts r)
     \<and> length (node_id_to_shard r) < 2 ^ 32 \<and> list_all (\<lambda>(_, s). s < 2 ^ 32) (node_id_to_shard r)"

lemma router_round_trip:
  assumes w: "router_wf r" and st: "storable r"
  shows "from_bytes (to_bytes r) = Inr r"
proof -
  let ?ids = "map (\<lambda>(node_id, s). (node_id, u32_of s)) (node_id_to_shard r)"
  let ?docs = "concat (map le64 (shard_doc_counts r))" and ?shards = "concat (map enc_counts (shard_token_counts r))"
  let ?data = "to_bytes r" and ?n = "u32_of (num_shards r)"
  have n: "unat ?n = num_shards r" "length (shard_doc_counts r) = num_shards r" "length (shard_token_counts r) = num_shards r"
    using w st by (simp_all add: router_wf_def storable_def)
  have d5: "drop 5 ?data = le32 ?n @ le32 (df_threshold r) @ le64 (balance_weight r) @ ?docs
      @ enc_counts (global_token_counts r) @ ?shards @ enc_counts ?ids" by (simp add: to_bytes_def)
  note a = i32.dec_at [OF TrueI d5]
  note b = i32.dec_at [OF TrueI a(2)]
  note c = i64.dec_at [OF TrueI b(2)]
  note d = i64.dec_many_at [OF _ c(2), simplified n(2)]
  have ok_g: "length (global_token_counts r) < 2 ^ 32 \<and> distinct (map fst (global_token_counts r))"
    and ok_s: "\<forall>m \<in> set (shard_token_counts r). length m < 2 ^ 32 \<and> distinct (map fst m)"
    and ok_i: "length ?ids < 2 ^ 32 \<and> distinct (map fst ?ids)"
    using w st by (auto simp: router_wf_def storable_def list_all_iff comp_def case_prod_beta)
  have d2: "drop (5 + 4 + 4 + 8 + length ?docs) ?data = enc_counts (global_token_counts r) @ ?shards @ enc_counts ?ids" using d(2) by simp
  note e = counts.dec_at [OF ok_g d2]
  note f = counts.dec_many_at [OF ok_s e(2), simplified n(3)]
  have f2: "drop (5 + 4 + 4 + 8 + length ?docs + length (enc_counts (global_token_counts r)) + length ?shards) ?data = enc_counts ?ids @ []"
    using f(2) by simp
  note g = counts.dec_at [OF ok_i f2]
  have ids: "map (\<lambda>(node_id, s). (node_id, unat s)) ?ids = node_id_to_shard r"
    using st by (induction "node_id_to_shard r") (auto simp: storable_def list_all_iff comp_def case_prod_beta intro!: map_idI)
  have "dec_router 3 ?data = Some r"
    unfolding dec_router_def using a(1) b(1) c(1) d(1) e(1) f(1) g(1,3) ids n(1) by simp
  then show ?thesis by (simp add: from_bytes_def to_bytes_def Let_def nth_append)
qed

section \<open>Histories\<close>

text \<open>The routers a program can hold: every operation, and reopening from the statistics file.\<close>

inductive router_reachable :: "F64 \<Rightarrow> ShardRouter \<Rightarrow> bool" for F where
  reach_new: "router_reachable F (with_options F n threshold weight)"
| reach_route: "router_reachable F r \<Longrightarrow> room ts r \<Longrightarrow> route F ts r = Some (r', s) \<Longrightarrow> router_reachable F r'"
| reach_p2c: "router_reachable F r \<Longrightarrow> room ts r \<Longrightarrow> route_p2c F ts i r = Some (r', s) \<Longrightarrow> router_reachable F r'"
| reach_record: "router_reachable F r \<Longrightarrow> router_reachable F (record_node_id i s r)"
| reach_remove: "router_reachable F r \<Longrightarrow> router_reachable F (fst (remove_node_id i r))"
| reach_docs: "router_reachable F r \<Longrightarrow> length docs = num_shards r \<Longrightarrow> router_reachable F (r\<lparr>shard_doc_counts := docs\<rparr>)"
| reach_resync: "router_reachable F r \<Longrightarrow> resync shards r = Some r' \<Longrightarrow> router_reachable F r'"
| reach_reopen: "router_reachable F r \<Longrightarrow> storable r \<Longrightarrow> from_bytes (to_bytes r) = Inr r' \<Longrightarrow> router_reachable F r'"

lemma tracked_new: "router_wf (with_options F n threshold weight) \<and> tracked (with_options F n threshold weight)"
  by (simp add: router_wf_def tracked_def with_options_def shard_sum_def list_all_iff map_replicate sum_list_replicate)

lemma routed_tracked:
  assumes "router_wf r" and "tracked r" and "room ts r" and "apply_route s ts r = Some r'" and "s < num_shards r"
  shows "router_wf r' \<and> tracked r'"
  using apply_route_ok [OF assms(1,5), of ts] assms by auto

lemma routed_some:
  assumes "router_wf r" and "route F ts r = Some (r', s) \<or> route_p2c F ts i r = Some (r', s)"
  shows "s < num_shards r \<and> apply_route s ts r = Some r'"
proof (cases "0 < num_shards r")
  case True
  then show ?thesis using route_ok [OF assms(1), of F ts] route_p2c_ok [OF assms(1), of F ts i] assms(2) by auto
next
  case False
  then have "shard_doc_counts r = []" using assms(1) by (simp add: router_wf_def)
  then have "apply_route b ts r = None" for b by (simp add: apply_route_def idx_def)
  then have "route F ts r = None" by (auto simp: route_def)
  then show ?thesis using False assms(2) by (simp add: route_p2c_def)
qed

lemma reachable_tracked: "router_reachable F r \<Longrightarrow> router_wf r \<and> tracked r"
proof (induction rule: router_reachable.induct)
  case (reach_new n threshold weight)
  then show ?case by (rule tracked_new)
next
  case (reach_route r ts r' s)
  then show ?case using routed_some [of r F ts r' s] routed_tracked by blast
next
  case (reach_p2c r ts i r' s)
  then show ?case using routed_some [of r F ts r' s i] routed_tracked by blast
next
  case (reach_resync r shards r')
  then show ?case using resync_ok by blast
next
  case (reach_reopen r r')
  then show ?case using router_round_trip [of r] by simp
qed (auto simp: router_wf_def tracked_def shard_sum_def record_node_id_def remove_node_id_def distinct_update distinct_delete)

lemma hash_token_step: "hash_token t = hash_bytes t * 0x100000001b3 + 0xff"
  by (simp add: hash_token_def hash_bytes_def fx_write_def)

lemma hash_token_other: "hash_token t \<noteq> hash_bytes t"
proof
  assume "hash_token t = hash_bytes t"
  then have "bit (hash_token t) 0 = bit (hash_bytes t) 0" by (rule arg_cong)
  then show False unfolding hash_token_step by (simp add: bit_0)
qed

section \<open>Properties\<close>

text \<open>An arithmetic to evaluate examples with.\<close>

definition word_f64 :: F64 where
  "word_f64 = \<lparr>f_of = id, f_add = (+), f_sub = (-), f_mul = (*), f_div = (\<lambda>a b. if b = 0 then 0 else a div b), f_sqrt = id, f_sum = sum_list, f_lt = (<), f_le = (\<le>)\<rparr>"

text \<open>
  C34.  The counters of the router are consistent in every state it can reach: by routing documents with either
  strategy, recording and removing node ids, setting document counts, resyncing from the term
  dictionaries and reopening from its file, as long as routing takes no global counter to \<open>2 ^ 32\<close>. There are
  counters for every shard, no map has a key twice, and for every token whose global count is below the
  threshold the counts of the shards add up to the global count, as 32-bit numbers.
\<close>

theorem router_counters_consistent:
  assumes "router_reachable F r"
  shows "router_wf r \<and> (\<forall>h. count_of (global_token_counts r) h < df_threshold r \<longrightarrow>
    sum_list (map (\<lambda>counts. count_of counts h) (shard_token_counts r)) = count_of (global_token_counts r) h)"
  using reachable_tracked [OF assms] by (simp add: tracked_def shard_sum_def)

theorem router_counters_consistent_witness:
  "\<exists>r s. route word_f64 [7] (router_new word_f64 2) = Some (r, s) \<and> router_wf r
     \<and> sum_list (map (\<lambda>counts. count_of counts 7) (shard_token_counts r)) = 1"
proof -
  have "room [7] (router_new word_f64 2)" by (simp add: room_def router_new_def with_options_def)
  moreover have "router_reachable word_f64 (router_new word_f64 2)" unfolding router_new_def by (rule reach_new)
  moreover have "map_option (\<lambda>x. (count_of (global_token_counts (fst x)) 7, df_threshold (fst x))) (route word_f64 [7] (router_new word_f64 2)) = Some (1, 5000)"
    by code_simp
  ultimately obtain r s where r: "route word_f64 [7] (router_new word_f64 2) = Some (r, s)" "router_reachable word_f64 r"
    "count_of (global_token_counts r) 7 = 1" "df_threshold r = 5000"
    using reach_route by fastforce
  have "router_wf r \<and> sum_list (map (\<lambda>counts. count_of counts 7) (shard_token_counts r)) = 1"
    using router_counters_consistent [OF r(2)] r(3,4) by auto
  then show ?thesis using r(1) by blast
qed

text \<open>
  C35.  Routing. With at least two shards and scores that compare like floats that are not NaN and lie below
  \<open>f64::MAX\<close>, \<open>route\<close> returns the first shard of minimal score, counts the document there and changes no other
  document count.
\<close>

theorem route_picks_best:
  assumes "router_wf r" and "2 \<le> num_shards r" and "\<And>s. s < num_shards r \<Longrightarrow> score_shard F r ts (total_weight F r) s = Some (f s)"
    and "comparable F (insert f_max (f ` {..<num_shards r}))" and "\<And>s. s < num_shards r \<Longrightarrow> f_lt F (f s) f_max"
  shows "\<exists>r' b. route F ts r = Some (r', b) \<and> b < num_shards r \<and> (\<forall>s < b. f_lt F (f b) (f s)) \<and> (\<forall>s < num_shards r. \<not> f_lt F (f s) (f b))
    \<and> shard_doc_counts r' = (shard_doc_counts r)[b := shard_doc_counts r ! b + 1]"
proof -
  let ?n = "num_shards r" and ?score = "score_shard F r ts (total_weight F r)"
  have set: "set [0..<?n] = {..<?n}" by auto
  have asym: "\<not> f_lt F (f t) (f s)" if "f_lt F (f s) (f t)" "s < ?n" "t < ?n" for s t
  proof -
    have "f s \<in> insert f_max (f ` {..<?n})" "f t \<in> insert f_max (f ` {..<?n})" using that(2,3) by auto
    then show ?thesis using assms(4) that(1) unfolding comparable_def by blast
  qed
  have cmp: "comparable F (insert f_max (f ` set [0..<?n]))" unfolding set by (rule assms(4))
  have ex: "\<exists>s \<in> set [0..<?n]. f_lt F (f s) f_max" using assms(2,5) by (intro bexI [of _ 0]) auto
  have sc: "?score s = Some (f s)" if "s \<in> set [0..<?n]" for s using assms(3) that unfolding set by simp
  obtain us b ws where b: "[0..<?n] = us @ b # ws" "best_shard F ?score [0..<?n] 0 f_max = Some b"
    "\<forall>u \<in> set us. f_lt F (f b) (f u)" "\<forall>w \<in> set ws. \<not> f_lt F (f w) (f b)"
    using best_shard_first [OF cmp sc ex, of 0] by blast
  have bn: "b < ?n" using arg_cong [OF b(1), of set] by auto
  have us: "set us = {..<b}" using upt_split [OF b(1)] by auto
  have c: "\<not> f_lt F (f s) (f b)" if "s < ?n" for s
  proof (cases "s < b")
    case True
    then show ?thesis using b(3) us asym [of b s] that bn by auto
  next
    case False
    have "s \<in> set (us @ b # ws)" using that unfolding b(1) [symmetric] set by simp
    then consider "s = b" | "s \<in> set ws" using False us by auto
    then show ?thesis using asym [of b b] bn b(4) by cases auto
  qed
  obtain r' where "apply_route b ts r = Some r'" "shard_doc_counts r' = (shard_doc_counts r)[b := shard_doc_counts r ! b + 1]"
    using apply_route_ok [OF assms(1) bn] by blast
  moreover have "\<forall>s < b. f_lt F (f b) (f s)" using b(3) us by auto
  ultimately show ?thesis using b(2) bn c assms(2) by (simp add: route_def)
qed

theorem route_picks_best_witness:
  "\<exists>r' b. route word_f64 [7] (router_new word_f64 2) = Some (r', b) \<and> shard_doc_counts r' = [0, 0][b := 1]"
proof -
  let ?r = "router_new word_f64 2"
  have two: "num_shards ?r = 2" "router_wf ?r" "shard_doc_counts ?r = [0, 0]"
    by (simp_all add: router_new_def with_options_def router_wf_def numeral_2_eq_2)
  have score: "score_shard word_f64 ?r [7] (total_weight word_f64 ?r) s = Some 0" if "s < num_shards ?r" for s
    using that by (simp add: score_shard_def router_new_def with_options_def idx_def word_f64_def List.map_filter_def token_term_def Let_def)
  have cmp: "comparable word_f64 (insert f_max ((\<lambda>_. 0) ` {..<num_shards ?r}))" by (auto simp: comparable_def word_f64_def)
  obtain r' b where "route word_f64 [7] ?r = Some (r', b)" "b < 2" "shard_doc_counts r' = [0, 0][b := [0, 0] ! b + 1]"
    using route_picks_best [OF two(2) _ score cmp] two by (auto simp: word_f64_def)
  then show ?thesis by (auto simp: less_2_cases_iff)
qed

text \<open>
  C36.  The statistics file round-trips: a well-formed router whose counts and shard ids fit 32 bits is read
  back from its bytes exactly as it was, with the counters of every shard, the node ids, the threshold and
  the balance weight.
\<close>

theorem from_bytes_to_bytes:
  assumes "router_wf r" and "storable r"
  shows "from_bytes (to_bytes r) = Inr r"
  by (rule router_round_trip [OF assms])

theorem from_bytes_to_bytes_witness:
  "from_bytes (to_bytes (record_node_id 42 1 (router_new word_f64 2))) = Inr (record_node_id 42 1 (router_new word_f64 2))"
  by (rule from_bytes_to_bytes)
    (simp_all add: router_wf_def storable_def record_node_id_def router_new_def with_options_def list_all_iff)




end
