(* ===== verification/WordSfxPost.thy ===== *)
theory WordSfxPost
  imports Varint BlockOffsets Gmap "HOL-Library.Product_Lexorder"
begin

text \<open>
  Word-level postings, \<open>src/src/suffix_fst/word_sfxpost.rs\<close>: the writer of the delta-coded blocks with
  checkpoints (\<open>WSP4\<close>, \<open>WSP5\<close>) and of the documents-only blocks (\<open>WSP6\<close>), the reader of the five layouts with
  its walk, its lookup over the checkpoints and its document counts, and the conversion to \<open>WSP6\<close>.

  The callbacks of \<open>walk_v3\<close>, \<open>for_each_entry\<close> and \<open>for_each_doc\<close> always continue in the callers; the model returns
  the list of their arguments.
\<close>

section \<open>Entries\<close>

record WordPostingEntry =
  we_doc :: u32
  we_first :: u32
  we_last :: u32
  we_from :: u32
  we_to :: u32
  we_tail :: u16

text \<open>The derived order compares the fields in this order.\<close>

definition entry_key :: "WordPostingEntry \<Rightarrow> u32 \<times> u32 \<times> u32 \<times> u32 \<times> u32 \<times> u16" where
  "entry_key e = (we_doc e, we_first e, we_last e, we_from e, we_to e, we_tail e)"

definition WSP_ENTRY_SIZE :: nat where "WSP_ENTRY_SIZE = 20"
definition WSP_CHECKPOINT_EVERY :: nat where "WSP_CHECKPOINT_EVERY = 32"
definition CHECKPOINT_SIZE :: nat where "CHECKPOINT_SIZE = 16"
definition CHECKPOINT_SIZE_V5 :: nat where "CHECKPOINT_SIZE_V5 = 12"

definition checkpoints_for :: "nat \<Rightarrow> nat" where
  "checkpoints_for n = (if n = 0 then 0 else (n - 1) div WSP_CHECKPOINT_EVERY)"

record DeltaState =
  ds_doc :: u32
  ds_first :: u32
  ds_from :: u32

definition ds_default :: DeltaState where
  "ds_default = \<lparr>ds_doc = 0, ds_first = 0, ds_from = 0\<rparr>"

definition decode_entry :: "bytes \<Rightarrow> nat \<Rightarrow> DeltaState \<Rightarrow> bool \<Rightarrow> (WordPostingEntry \<times> nat \<times> DeltaState) option" where
  "decode_entry data pos st spans = do {
     (d_doc, pos) \<leftarrow> read_varint_u32 data pos;
     (d_first, pos) \<leftarrow> read_varint_u32 data pos;
     let doc = ds_doc st + d_doc;
     let same_doc = (d_doc = 0);
     let first1 = (if same_doc then ds_first st + d_first else d_first);
     if \<not> spans then do {
       (last_flag, pos) \<leftarrow> read_varint_u32 data pos;
       (tail_off, pos) \<leftarrow> (if last_flag AND 1 \<noteq> 0 then read_varint_u32 data pos else Some (0, pos));
       Some (\<lparr>we_doc = doc, we_first = first1, we_last = first1 + drop_bit 1 last_flag, we_from = 0, we_to = 0,
              we_tail = ucast (min tail_off 0xFFFF)\<rparr>, pos, st\<lparr>ds_doc := doc, ds_first := first1\<rparr>) }
     else do {
       (d_last, pos) \<leftarrow> read_varint_u32 data pos;
       (d_from, pos) \<leftarrow> read_varint_u32 data pos;
       (len, pos) \<leftarrow> read_varint_u32 data pos;
       let byte_from = (if same_doc then ds_from st + d_from else d_from);
       Some (\<lparr>we_doc = doc, we_first = first1, we_last = first1 + d_last, we_from = byte_from, we_to = byte_from + len,
              we_tail = 0\<rparr>, pos, \<lparr>ds_doc = doc, ds_first = first1, ds_from = byte_from\<rparr>) } }"

section \<open>Writer\<close>

record WordSfxPostWriter =
  wsw_entries :: "WordPostingEntry list list"
  wsw_spans :: bool
  wsw_docs_only :: bool

definition wsw_new :: "nat \<Rightarrow> WordSfxPostWriter" where
  "wsw_new n = \<lparr>wsw_entries = replicate n [], wsw_spans = False, wsw_docs_only = False\<rparr>"

definition wsw_new_docs_only :: "nat \<Rightarrow> WordSfxPostWriter" where
  "wsw_new_docs_only n = \<lparr>wsw_entries = replicate n [], wsw_spans = False, wsw_docs_only = True\<rparr>"

definition wsw_with_byte_spans :: "nat \<Rightarrow> WordSfxPostWriter" where
  "wsw_with_byte_spans n = \<lparr>wsw_entries = replicate n [], wsw_spans = True, wsw_docs_only = False\<rparr>"

definition wsw_add :: "WordSfxPostWriter \<Rightarrow> u32 \<Rightarrow> WordPostingEntry \<Rightarrow> WordSfxPostWriter" where
  "wsw_add w ordinal e =
     (if unat ordinal < length (wsw_entries w)
      then w\<lparr>wsw_entries := (wsw_entries w)[unat ordinal := wsw_entries w ! unat ordinal @ [e]]\<rparr> else w)"

definition write_entry :: "bool \<Rightarrow> bytes \<Rightarrow> DeltaState \<Rightarrow> WordPostingEntry \<Rightarrow> bytes" where
  "write_entry spans body st e = (
     let same_doc = (we_doc e = ds_doc st);
         body = write_varint body (ucast (we_doc e - ds_doc st));
         body = write_varint body (ucast (if same_doc then we_first e - ds_first st else we_first e));
         d_last = we_last e - we_first e
     in if spans then
          (let body = write_varint body (ucast d_last);
               body = write_varint body (ucast (if same_doc then we_from e - ds_from st else we_from e))
           in write_varint body (ucast (we_to e - we_from e)))
        else
          (let body = write_varint body (push_bit 1 (ucast d_last) OR (if we_tail e \<noteq> 0 then 1 else 0))
           in if we_tail e \<noteq> 0 then write_varint body (ucast (we_tail e)) else body))"

abbreviation ds_of :: "WordPostingEntry \<Rightarrow> DeltaState" where
  "ds_of e \<equiv> \<lparr>ds_doc = we_doc e, ds_first = we_first e, ds_from = we_from e\<rparr>"

fun encode_entries :: "bool \<Rightarrow> nat \<Rightarrow> WordPostingEntry list \<Rightarrow> DeltaState \<Rightarrow> bytes \<Rightarrow> (DeltaState \<times> u32) list
    \<Rightarrow> bytes \<times> (DeltaState \<times> u32) list" where
  "encode_entries spans i [] st body checkpoints = (body, checkpoints)"
| "encode_entries spans i (e # es) st body checkpoints =
     (let checkpoints = (if 0 < i \<and> i mod WSP_CHECKPOINT_EVERY = 0 then checkpoints @ [(st, u32_of (length body))] else checkpoints)
      in encode_entries spans (i + 1) es (ds_of e) (write_entry spans body st e) checkpoints)"

definition write_checkpoint :: "bool \<Rightarrow> DeltaState \<times> u32 \<Rightarrow> bytes" where
  "write_checkpoint spans = (\<lambda>(st, off). le32 (ds_doc st) @ le32 (ds_first st) @ (if spans then le32 (ds_from st) else []) @ le32 off)"

definition encode_block_into :: "bool \<Rightarrow> bytes \<Rightarrow> WordPostingEntry list \<Rightarrow> bytes" where
  "encode_block_into spans out es =
     (if es = [] then out
      else case encode_entries spans 0 es ds_default [] [] of (body, checkpoints) \<Rightarrow>
        write_varint out (u64_of (length es)) @ concat (map (write_checkpoint spans) checkpoints) @ body)"

text \<open>The pairs of a \<open>WSP6\<close> block: one per document, with the length of its run.\<close>

function docs_loop :: "WordPostingEntry list \<Rightarrow> u64 \<Rightarrow> u32 \<Rightarrow> bytes \<Rightarrow> u64 \<times> bytes" where
  "docs_loop es n_docs prev_doc body =
     (case es of
        [] \<Rightarrow> (n_docs, body)
      | e # _ \<Rightarrow>
          (let doc = we_doc e;
               tf = u32_of (length (takeWhile (\<lambda>x. we_doc x = doc) es));
               body = write_varint (write_varint body (ucast (doc - prev_doc))) (ucast tf)
           in docs_loop (dropWhile (\<lambda>x. we_doc x = doc) es) (n_docs + 1) doc body))"
  by pat_completeness auto
termination
  by (relation "measure (\<lambda>(es, _). length es)") (auto simp: le_imp_less_Suc length_dropWhile_le)

declare docs_loop.simps [simp del]

definition encode_docs_block_into :: "bytes \<Rightarrow> WordPostingEntry list \<Rightarrow> bytes" where
  "encode_docs_block_into out es =
     (if es = [] then out
      else case docs_loop es 0 0 [] of (n_docs, body) \<Rightarrow> write_varint out n_docs @ body)"

definition encode_ordinal :: "WordSfxPostWriter \<Rightarrow> bytes \<Rightarrow> WordPostingEntry list \<Rightarrow> bytes" where
  "encode_ordinal w out es = (if wsw_docs_only w then encode_docs_block_into out es else encode_block_into (wsw_spans w) out es)"

fun encode_ordinals :: "(bytes \<Rightarrow> 'a \<Rightarrow> bytes) \<Rightarrow> 'a list \<Rightarrow> u32 list \<Rightarrow> bytes \<Rightarrow> u32 list \<times> bytes" where
  "encode_ordinals enc [] offsets data = (offsets, data)"
| "encode_ordinals enc (es # ess) offsets data = encode_ordinals enc ess (offsets @ [u32_of (length data)]) (enc data es)"

text \<open>The end of \<open>finish\<close> and of \<open>to_docs_only\<close>: the assertion on the size, the sentinel, the table, the file.\<close>

definition assemble :: "bytes \<Rightarrow> u32 \<Rightarrow> u32 list \<times> bytes \<Rightarrow> bytes exec" where
  "assemble magic num_ords = (\<lambda>(offsets, entries_data).
     if length entries_data \<le> 2 ^ 32 - 1
     then Some (magic @ le32 num_ords @ encode (offsets @ [u32_of (length entries_data)]) @ entries_data)
     else None)"

definition wsw_finish :: "WordSfxPostWriter \<Rightarrow> bytes exec" where
  "wsw_finish w = (
     let entries = map (\<lambda>es. remdups_adj (sort_key entry_key es)) (wsw_entries w);
         magic = bstr (if wsw_docs_only w then ''WSP6'' else if wsw_spans w then ''WSP4'' else ''WSP5'')
     in assemble magic (u32_of (length (wsw_entries w))) (encode_ordinals (encode_ordinal w) entries [] []))"

section \<open>Reader\<close>

record WordSfxPostReader =
  wr_data :: bytes
  wr_num_ordinals :: u32
  wr_v3 :: bool
  wr_spans :: bool
  wr_docs_only :: bool
  wr_table :: OffsetTable
  wr_entries_start :: nat
  wr_gmap :: "GmapReader option"

definition wr_open :: "bytes \<Rightarrow> WordSfxPostReader option" where
  "wr_open data =
     (if length data < 8 then None else do {
        let m = take 4 data;
        let docs_only = (m = bstr ''WSP6'');
        (v3, block, spans) \<leftarrow>
          (if m = bstr ''WSP6'' then Some (True, True, False)
           else if m = bstr ''WSP5'' then Some (True, True, False)
           else if m = bstr ''WSP4'' then Some (True, True, True)
           else if m = bstr ''WSP3'' then Some (True, False, True)
           else if m = bstr ''WSP2'' then Some (False, False, True)
           else None);
        num_ordinals \<leftarrow> read_u32 data 4;
        (table, entries_start) \<leftarrow>
          (if block then do {
             (t, used) \<leftarrow> parse (drop 8 data);
             if bo_num t \<noteq> num_ordinals + 1 then None else Some (Block t, 8 + used) }
           else
             (let min_size = 8 + (unat num_ordinals + 1) * 4 in
              if length data < min_size then None
              else map_option (\<lambda>bs. (Flat bs, 0)) (slice data 8 min_size)));
        Some \<lparr>wr_data = data, wr_num_ordinals = num_ordinals, wr_v3 = v3, wr_spans = spans, wr_docs_only = docs_only,
              wr_table = table, wr_entries_start = entries_start, wr_gmap = None\<rparr> })"

definition has_positions :: "WordSfxPostReader \<Rightarrow> bool" where
  "has_positions r = (\<not> wr_docs_only r)"

definition has_byte_spans :: "WordSfxPostReader \<Rightarrow> bool" where
  "has_byte_spans r = wr_spans r"

definition checkpoint_size :: "WordSfxPostReader \<Rightarrow> nat" where
  "checkpoint_size r = (if wr_spans r then CHECKPOINT_SIZE else CHECKPOINT_SIZE_V5)"

definition wr_with_gmap :: "WordSfxPostReader \<Rightarrow> GmapReader \<Rightarrow> WordSfxPostReader" where
  "wr_with_gmap r g = r\<lparr>wr_gmap := Some g\<rparr>"

definition wr_local :: "WordSfxPostReader \<Rightarrow> u32 \<Rightarrow> u32 option exec" where
  "wr_local r ordinal = (case wr_gmap r of Some g \<Rightarrow> gm_local g ordinal | None \<Rightarrow> Some (Some ordinal))"

definition block_range :: "WordSfxPostReader \<Rightarrow> u32 \<Rightarrow> (nat \<times> nat) option exec" where
  "block_range r ordinal =
     (if wr_num_ordinals r \<le> ordinal then Some None else do {
        a \<leftarrow> ot_get (wr_table r) ordinal;
        b \<leftarrow> ot_get (wr_table r) (ordinal + 1);
        let start = wr_entries_start r + unat a;
        let end1 = wr_entries_start r + unat b;
        Some (if end1 \<le> start \<or> length (wr_data r) < end1 then None else Some (start, end1)) })"

text \<open>The local ordinal of the argument and its block, the first steps of every lookup.\<close>

definition locate :: "WordSfxPostReader \<Rightarrow> u32 \<Rightarrow> (nat \<times> nat) option exec" where
  "locate r ordinal = do {
     l \<leftarrow> wr_local r ordinal;
     case l of None \<Rightarrow> Some None | Some ordinal \<Rightarrow> block_range r ordinal }"

definition block_header :: "WordSfxPostReader \<Rightarrow> nat \<Rightarrow> (nat \<times> nat \<times> nat) option" where
  "block_header r start = do {
     (n, pos) \<leftarrow> read_varint_u32 (wr_data r) start;
     let entries = pos + checkpoints_for (unat n) * checkpoint_size r;
     if length (wr_data r) < entries then None else Some (unat n, pos, entries) }"

definition checkpoint :: "WordSfxPostReader \<Rightarrow> nat \<Rightarrow> nat \<Rightarrow> (DeltaState \<times> nat) option" where
  "checkpoint r checkpoints k = (
     let o1 = checkpoints + (k - 1) * checkpoint_size r;
         g = (\<lambda>j. read_u32 (wr_data r) (o1 + j * 4))
     in if wr_spans r then do {
          doc \<leftarrow> g 0; first1 \<leftarrow> g 1; from \<leftarrow> g 2; off \<leftarrow> g 3;
          Some (\<lparr>ds_doc = doc, ds_first = first1, ds_from = from\<rparr>, unat off) }
        else do {
          doc \<leftarrow> g 0; first1 \<leftarrow> g 1; off \<leftarrow> g 2;
          Some (\<lparr>ds_doc = doc, ds_first = first1, ds_from = 0\<rparr>, unat off) })"

fun walk_entries :: "WordSfxPostReader \<Rightarrow> nat \<Rightarrow> nat \<Rightarrow> nat \<Rightarrow> DeltaState \<Rightarrow> WordPostingEntry list" where
  "walk_entries r 0 end1 pos st = []"
| "walk_entries r (Suc n) end1 pos st =
     (if end1 \<le> pos then []
      else case decode_entry (wr_data r) pos st (wr_spans r) of
        None \<Rightarrow> []
      | Some (e, pos, st) \<Rightarrow> e # walk_entries r n end1 pos st)"

definition walk_v3 :: "WordSfxPostReader \<Rightarrow> nat \<Rightarrow> nat \<Rightarrow> WordPostingEntry list" where
  "walk_v3 r start end1 =
     (case block_header r start of
        None \<Rightarrow> []
      | Some (n, _, entries) \<Rightarrow> walk_entries r n end1 entries ds_default)"

text \<open>A fixed-size record.\<close>

definition read_record :: "bytes \<Rightarrow> nat \<Rightarrow> WordPostingEntry exec" where
  "read_record data base = do {
     doc \<leftarrow> read_u32 data base; first1 \<leftarrow> read_u32 data (base + 4); last1 \<leftarrow> read_u32 data (base + 8);
     from \<leftarrow> read_u32 data (base + 12); to1 \<leftarrow> read_u32 data (base + 16);
     Some \<lparr>we_doc = doc, we_first = first1, we_last = last1, we_from = from, we_to = to1, we_tail = 0\<rparr> }"

fun read_records :: "bytes \<Rightarrow> nat \<Rightarrow> nat \<Rightarrow> WordPostingEntry list exec" where
  "read_records data 0 base = Some []"
| "read_records data (Suc num) base = do {
     e \<leftarrow> read_record data base;
     es \<leftarrow> read_records data num (base + WSP_ENTRY_SIZE);
     Some (e # es) }"

definition wr_entries :: "WordSfxPostReader \<Rightarrow> u32 \<Rightarrow> WordPostingEntry list exec" where
  "wr_entries r ordinal =
     (if wr_docs_only r then Some [] else do {
        range \<leftarrow> locate r ordinal;
        case range of
          None \<Rightarrow> Some []
        | Some (start, end1) \<Rightarrow>
            if wr_v3 r then Some (walk_v3 r start end1)
            else read_records (wr_data r) ((end1 - start) div WSP_ENTRY_SIZE) start })"

text \<open>\<open>for_each_entry\<close> steps by the record size and stops at the first record that does not fit.\<close>

fun step_records :: "bytes \<Rightarrow> nat list \<Rightarrow> nat \<Rightarrow> WordPostingEntry list exec" where
  "step_records data [] end1 = Some []"
| "step_records data (base # bases) end1 =
     (if end1 < base + WSP_ENTRY_SIZE then Some [] else do {
        e \<leftarrow> read_record data base;
        es \<leftarrow> step_records data bases end1;
        Some (e # es) })"

definition for_each_entry :: "WordSfxPostReader \<Rightarrow> u32 \<Rightarrow> WordPostingEntry list exec" where
  "for_each_entry r ordinal =
     (if wr_docs_only r then Some [] else do {
        range \<leftarrow> locate r ordinal;
        case range of
          None \<Rightarrow> Some []
        | Some (start, end1) \<Rightarrow>
            if wr_v3 r then Some (walk_v3 r start end1)
            else step_records (wr_data r) (map (\<lambda>i. start + i * WSP_ENTRY_SIZE) [0..<div_ceil (end1 - start) WSP_ENTRY_SIZE]) end1 })"

text \<open>The search for the last checkpoint whose state is below the key.\<close>

function search_checkpoints :: "(nat \<Rightarrow> (DeltaState \<times> nat) option) \<Rightarrow> u32 \<times> u32 \<Rightarrow> nat \<Rightarrow> nat \<Rightarrow> nat" where
  "search_checkpoints cp key lo hi =
     (if lo < hi then
        (let mid = lo + (hi - lo) div 2 + 1 in
         case cp mid of
           None \<Rightarrow> lo
         | Some (st, _) \<Rightarrow> if (ds_doc st, ds_first st) < key then search_checkpoints cp key mid hi
                         else search_checkpoints cp key lo (mid - 1))
      else lo)"
  by pat_completeness auto
termination
  by (relation "measure (\<lambda>(cp, key, lo, hi). hi - lo)") auto

declare search_checkpoints.simps [simp del]

fun scan_entries :: "WordSfxPostReader \<Rightarrow> u32 \<times> u32 \<Rightarrow> nat \<Rightarrow> nat \<Rightarrow> nat \<Rightarrow> DeltaState \<Rightarrow> WordPostingEntry option" where
  "scan_entries r key 0 end1 pos st = None"
| "scan_entries r key (Suc n) end1 pos st =
     (if end1 \<le> pos then None
      else case decode_entry (wr_data r) pos st (wr_spans r) of
        None \<Rightarrow> None
      | Some (e, pos, st) \<Rightarrow>
          if (we_doc e, we_first e) < key then scan_entries r key n end1 pos st
          else if (we_doc e, we_first e) = key then Some e
          else None)"

definition entry_at_v3 :: "WordSfxPostReader \<Rightarrow> nat \<Rightarrow> nat \<Rightarrow> u32 \<Rightarrow> u32 \<Rightarrow> WordPostingEntry option" where
  "entry_at_v3 r start end1 doc_id first_position = do {
     (n, checkpoints, entries) \<leftarrow> block_header r start;
     let key = (doc_id, first_position);
     let lo = search_checkpoints (checkpoint r checkpoints) key 0 (checkpoints_for n);
     (st, pos) \<leftarrow> (if lo = 0 then Some (ds_default, entries)
                 else map_option (\<lambda>(st, off). (st, entries + off)) (checkpoint r checkpoints lo));
     scan_entries r key (min (n - lo * WSP_CHECKPOINT_EVERY) WSP_CHECKPOINT_EVERY) end1 pos st }"

definition record_key :: "bytes \<Rightarrow> nat \<Rightarrow> nat \<Rightarrow> (u32 \<times> u32) exec" where
  "record_key data start i = do {
     doc \<leftarrow> read_u32 data (start + i * WSP_ENTRY_SIZE);
     first1 \<leftarrow> read_u32 data (start + i * WSP_ENTRY_SIZE + 4);
     Some (doc, first1) }"

definition entry_at_v2 :: "bytes \<Rightarrow> nat \<Rightarrow> nat \<Rightarrow> u32 \<Rightarrow> u32 \<Rightarrow> WordPostingEntry option exec" where
  "entry_at_v2 data start end1 doc_id first_position = do {
     let num = (end1 - start) div WSP_ENTRY_SIZE;
     let key = (doc_id, first_position);
     lo \<leftarrow> bsearch (\<lambda>mid. map_option (\<lambda>k. k < key) (record_key data start mid)) 0 num;
     if num \<le> lo then Some None else do {
       k \<leftarrow> record_key data start lo;
       if k \<noteq> key then Some None
       else do { e \<leftarrow> read_record data (start + lo * WSP_ENTRY_SIZE); Some (Some e) } } }"

definition entry_at :: "WordSfxPostReader \<Rightarrow> u32 \<Rightarrow> u32 \<Rightarrow> u32 \<Rightarrow> WordPostingEntry option exec" where
  "entry_at r ordinal doc_id first_position =
     (if wr_docs_only r then Some None else do {
        range \<leftarrow> locate r ordinal;
        case range of
          None \<Rightarrow> Some None
        | Some (start, end1) \<Rightarrow>
            if wr_v3 r then Some (entry_at_v3 r start end1 doc_id first_position)
            else entry_at_v2 (wr_data r) start end1 doc_id first_position })"

section \<open>Documents\<close>

fun walk_docs :: "nat \<Rightarrow> bytes \<Rightarrow> nat \<Rightarrow> u32 \<Rightarrow> (u32 \<times> u32) list" where
  "walk_docs 0 data pos doc = []"
| "walk_docs (Suc n) data pos doc =
     (case read_varint_u32 data pos of
        None \<Rightarrow> []
      | Some (d, pos) \<Rightarrow>
          (case read_varint_u32 data pos of
             None \<Rightarrow> []
           | Some (tf, pos) \<Rightarrow> (doc + d, tf) # walk_docs n data pos (doc + d)))"

text \<open>The counting closure over the entries: the current document and its count so far.\<close>

fun count_docs :: "WordPostingEntry list \<Rightarrow> u32 option \<Rightarrow> u32 \<Rightarrow> (u32 \<times> u32) list" where
  "count_docs [] cur tf = (case cur of None \<Rightarrow> [] | Some d \<Rightarrow> [(d, tf)])"
| "count_docs (e # es) cur tf =
     (if cur \<noteq> Some (we_doc e)
      then (case cur of None \<Rightarrow> [] | Some d \<Rightarrow> [(d, tf)]) @ count_docs es (Some (we_doc e)) 1
      else count_docs es cur (tf + 1))"

definition for_each_doc :: "WordSfxPostReader \<Rightarrow> u32 \<Rightarrow> (u32 \<times> u32) list exec" where
  "for_each_doc r ordinal =
     (if wr_docs_only r then do {
        range \<leftarrow> locate r ordinal;
        case range of
          None \<Rightarrow> Some []
        | Some (start, end1) \<Rightarrow>
            (let data = take end1 (wr_data r) in
             case read_varint_u32 data start of
               None \<Rightarrow> Some []
             | Some (n, pos) \<Rightarrow> Some (walk_docs (unat n) data pos 0)) }
      else do {
        es \<leftarrow> for_each_entry r ordinal;
        Some (count_docs es None 0) })"

section \<open>Conversion to documents only\<close>

fun write_docs :: "(u32 \<times> u32) list \<Rightarrow> bytes \<Rightarrow> u64 \<Rightarrow> u32 \<Rightarrow> bytes \<times> u64" where
  "write_docs [] body n_docs prev_doc = (body, n_docs)"
| "write_docs ((doc, tf) # docs) body n_docs prev_doc =
     write_docs docs (write_varint (write_varint body (ucast (doc - prev_doc))) (ucast tf)) (n_docs + 1) doc"

definition append_docs :: "bytes \<Rightarrow> (u32 \<times> u32) list \<Rightarrow> bytes" where
  "append_docs data docs =
     (case write_docs docs [] 0 0 of (body, n_docs) \<Rightarrow>
        if 0 < n_docs then write_varint data n_docs @ body else data)"

fun all_docs :: "WordSfxPostReader \<Rightarrow> nat list \<Rightarrow> (u32 \<times> u32) list list exec" where
  "all_docs r [] = Some []"
| "all_docs r (i # is) = do { docs \<leftarrow> for_each_doc r (u32_of i); rest \<leftarrow> all_docs r is; Some (docs # rest) }"

definition to_docs_only :: "bytes \<Rightarrow> bytes option exec" where
  "to_docs_only bs =
     (case wr_open bs of
        None \<Rightarrow> Some None
      | Some r \<Rightarrow>
          if \<not> has_positions r then Some (Some bs)
          else do {
            docs \<leftarrow> all_docs r [0..<unat (wr_num_ordinals r)];
            buf \<leftarrow> assemble (bstr ''WSP6'') (wr_num_ordinals r) (encode_ordinals append_docs docs [] []);
            Some (Some buf) })"

section \<open>One entry\<close>

definition entry_bytes :: "bool \<Rightarrow> DeltaState \<Rightarrow> WordPostingEntry \<Rightarrow> bytes" where
  "entry_bytes spans st e =
     varint32 (we_doc e - ds_doc st) @ varint32 (if we_doc e = ds_doc st then we_first e - ds_first st else we_first e)
     @ (if spans then varint32 (we_last e - we_first e)
          @ varint32 (if we_doc e = ds_doc st then we_from e - ds_from st else we_from e) @ varint32 (we_to e - we_from e)
        else varint_bytes (push_bit 1 (ucast (we_last e - we_first e)) OR (if we_tail e \<noteq> 0 then 1 else 0))
          @ (if we_tail e \<noteq> 0 then varint_bytes (ucast (we_tail e)) else []))"

lemma write_entry_eq: "write_entry spans body st e = body @ entry_bytes spans st e"
  by (simp add: write_entry_def entry_bytes_def Let_def write_varint_append)

text \<open>What a layout stores of an entry; without spans, a word of less than \<open>2 ^ 31\<close> chunks.\<close>

definition stored :: "bool \<Rightarrow> WordPostingEntry \<Rightarrow> WordPostingEntry" where
  "stored spans e = (if spans then e\<lparr>we_tail := 0\<rparr> else e\<lparr>we_from := 0, we_to := 0\<rparr>)"

definition short :: "bool \<Rightarrow> WordPostingEntry \<Rightarrow> bool" where
  "short spans e \<longleftrightarrow> spans \<or> unat (we_last e - we_first e) < 2 ^ 31"

definition same_state :: "bool \<Rightarrow> DeltaState \<Rightarrow> DeltaState \<Rightarrow> bool" where
  "same_state spans st st' \<longleftrightarrow> ds_doc st' = ds_doc st \<and> ds_first st' = ds_first st \<and> (spans \<longrightarrow> ds_from st' = ds_from st)"

lemma entry_bytes_cong: "same_state spans st st' \<Longrightarrow> entry_bytes spans st' e = entry_bytes spans st e"
  by (simp add: entry_bytes_def same_state_def)

lemma flag_bits:
  assumes "unat (d :: u32) < 2 ^ 31" and "0 < k" and "k \<le> 1"
  shows "(push_bit k (ucast d) OR (if b then 1 else 0) :: u64) = ucast (push_bit k d OR (if b then 1 else 0) :: u32)"
    and "drop_bit k (push_bit k d OR (if b then 1 else 0)) = d"
    and "(push_bit k d OR (if b then 1 else 0)) AND 1 = (if b then 1 else (0 :: u32))"
proof -
  have "unat (take_bit 31 d) = unat d" unfolding unat_take_bit using assms(1) by (simp add: take_bit_eq_mod)
  then have "take_bit 31 d = d" by (simp add: unsigned_word_eqI)
  then have top: "bit d n \<longleftrightarrow> n < 31 \<and> bit d n" for n by (metis bit_take_bit_iff)
  show "(push_bit k (ucast d) OR (if b then 1 else 0) :: u64) = ucast (push_bit k d OR (if b then 1 else 0) :: u32)"
  proof (rule bit_word_eqI)
    fix n assume "n < LENGTH(64)"
    then show "bit (push_bit k (ucast d) OR (if b then 1 else 0) :: u64) n = bit (ucast (push_bit k d OR (if b then 1 else 0) :: u32) :: u64) n"
      using assms(2,3) top [of "n - k"] by (auto simp: bit_simps bit_1_iff)
  qed
  show "drop_bit k (push_bit k d OR (if b then 1 else 0)) = d"
  proof (rule bit_word_eqI)
    fix n assume "n < LENGTH(32)"
    then show "bit (drop_bit k (push_bit k d OR (if b then 1 else 0))) n = bit d n"
      using assms(2,3) top [of n] by (auto simp: bit_simps bit_1_iff)
  qed
  show "(push_bit k d OR (if b then 1 else 0)) AND 1 = (if b then 1 else (0 :: u32))"
    using assms(2) by (intro bit_word_eqI) (auto simp: bit_simps bit_1_iff)
qed

lemmas flag_word = flag_bits [OF _ zero_less_one order_refl]

lemma tail_u32: "ucast (ucast (w :: u16) :: u32) = (ucast w :: u64)" "min (ucast w :: u32) 0xFFFF = ucast w" "ucast (ucast w :: u32) = w"
proof -
  show "ucast (ucast w :: u32) = (ucast w :: u64)" by (rule bit_word_eqI) (auto simp: bit_simps dest: bit_imp_le_length)
  have "unat w < 2 ^ 16" using unsigned_less [of w, where ?'a = nat] by simp
  moreover have "unat (ucast w :: u32) = unat w" using calculation by (simp add: unsigned_ucast_eq take_bit_nat_eq_self)
  ultimately have "(ucast w :: u32) \<le> 0xFFFF" by (simp add: word_le_nat_alt)
  then show "min (ucast w :: u32) 0xFFFF = ucast w" by simp
  show "ucast (ucast w :: u32) = w" by (rule bit_word_eqI) (auto simp: bit_simps dest: bit_imp_le_length)
qed

lemma decode_entry_at:
  assumes "short spans e" and "drop pos data = entry_bytes spans st e @ post"
  shows "\<exists>st'. decode_entry data pos st spans = Some (stored spans e, pos + length (entry_bytes spans st e), st') \<and> same_state spans (ds_of e) st'"
    and "drop (pos + length (entry_bytes spans st e)) data = post"
proof -
  define f where "f = (if we_doc e = ds_doc st then we_first e - ds_first st else we_first e)"
  define rest where "rest = (if spans then varint32 (we_last e - we_first e)
          @ varint32 (if we_doc e = ds_doc st then we_from e - ds_from st else we_from e) @ varint32 (we_to e - we_from e)
        else varint_bytes (push_bit 1 (ucast (we_last e - we_first e)) OR (if we_tail e \<noteq> 0 then 1 else 0))
          @ (if we_tail e \<noteq> 0 then varint_bytes (ucast (we_tail e)) else []))"
  have bytes: "entry_bytes spans st e = varint32 (we_doc e - ds_doc st) @ varint32 f @ rest"
    by (simp add: entry_bytes_def f_def rest_def)
  show "drop (pos + length (entry_bytes spans st e)) data = post"
    using assms(2) by (metis add.commute append_eq_conv_conj drop_drop)
  have d1: "drop pos data = varint32 (we_doc e - ds_doc st) @ varint32 f @ rest @ post" using assms(2) by (simp add: bytes)
  note a = varint_u32.dec_at [OF TrueI d1]
  note b = varint_u32.dec_at [OF TrueI a(2)]
  have zero: "(we_doc e - ds_doc st = 0) = (we_doc e = ds_doc st)" by simp
  have first1: "(if we_doc e - ds_doc st = 0 then ds_first st + f else f) = we_first e" by (simp add: f_def)
  show "\<exists>st'. decode_entry data pos st spans = Some (stored spans e, pos + length (entry_bytes spans st e), st') \<and> same_state spans (ds_of e) st'"
  proof (cases spans)
    case True
    define g where "g = (if we_doc e = ds_doc st then we_from e - ds_from st else we_from e)"
    have r: "rest = varint32 (we_last e - we_first e) @ varint32 g @ varint32 (we_to e - we_from e)" using True by (simp add: rest_def g_def)
    have d2: "drop (pos + length (varint32 (we_doc e - ds_doc st)) + length (varint32 f)) data
        = varint32 (we_last e - we_first e) @ varint32 g @ varint32 (we_to e - we_from e) @ post" using b(2) r by simp
    note c = varint_u32.dec_at [OF TrueI d2]
    note d = varint_u32.dec_at [OF TrueI c(2)]
    note h = varint_u32.dec_at [OF TrueI d(2)]
    have g1: "(if we_doc e - ds_doc st = 0 then ds_from st + g else g) = we_from e" by (simp add: g_def)
    show ?thesis unfolding bytes r decode_entry_def using True a(1) b(1) c(1) d(1) h(1) first1 g1
      by (simp add: stored_def same_state_def Let_def)
  next
    case False
    define w where "w = (push_bit 1 (we_last e - we_first e) OR (if we_tail e \<noteq> 0 then 1 else 0) :: u32)"
    have sh: "unat (we_last e - we_first e) < 2 ^ 31" using assms(1) False by (simp add: short_def)
    note fw = flag_word [OF sh, of "we_tail e \<noteq> 0", folded w_def]
    have r: "rest = varint32 w @ (if we_tail e \<noteq> 0 then varint32 (ucast (we_tail e)) else [])"
      using False fw(1) by (simp add: rest_def tail_u32(1))
    then have d2: "drop (pos + length (varint32 (we_doc e - ds_doc st)) + length (varint32 f)) data
        = varint32 w @ (if we_tail e \<noteq> 0 then varint32 (ucast (we_tail e)) else []) @ post" using b(2) by simp
    note c = varint_u32.dec_at [OF TrueI d2]
    show ?thesis
    proof (cases "we_tail e = 0")
      case True
      then show ?thesis unfolding bytes r decode_entry_def using False a(1) b(1) c(1) first1 fw(2,3)
        by (simp add: stored_def same_state_def Let_def)
    next
      case tail: False
      then have d3: "drop (pos + length (varint32 (we_doc e - ds_doc st)) + length (varint32 f) + length (varint32 w)) data
          = varint32 (ucast (we_tail e)) @ post" using c(2) by simp
      note d = varint_u32.dec_at [OF TrueI d3]
      show ?thesis unfolding bytes r decode_entry_def using False tail a(1) b(1) c(1) d(1) first1 fw(2,3)
        by (simp add: stored_def same_state_def Let_def tail_u32)
    qed
  qed
qed

section \<open>Blocks\<close>

fun entry_chain :: "bool \<Rightarrow> DeltaState \<Rightarrow> WordPostingEntry list \<Rightarrow> bytes" where
  "entry_chain spans st [] = []"
| "entry_chain spans st (e # es) = entry_bytes spans st e @ entry_chain spans (ds_of e) es"

text \<open>The state in front of entry \<open>j\<close>.\<close>

definition state_at :: "DeltaState \<Rightarrow> WordPostingEntry list \<Rightarrow> nat \<Rightarrow> DeltaState" where
  "state_at st es j = (if j = 0 then st else ds_of (es ! (j - 1)))"

lemma state_at_simps [simp]: "state_at st es 0 = st" "state_at st (e # es) (Suc j) = state_at (ds_of e) es j"
  by (auto simp: state_at_def)

lemma entry_chain_append: "entry_chain spans st (xs @ ys) = entry_chain spans st xs @ entry_chain spans (state_at st xs (length xs)) ys"
  by (induction xs arbitrary: st) auto

lemma entry_bytes_nonempty: "entry_bytes spans st e \<noteq> []"
  by (simp add: entry_bytes_def)

lemma entry_chain_length: "length es \<le> length (entry_chain spans st es)"
proof (induction es arbitrary: st)
  case (Cons e es)
  obtain x xs where "entry_bytes spans st e = x # xs" using entry_bytes_nonempty by (cases "entry_bytes spans st e") auto
  then show ?case using Cons [of "ds_of e"] by simp
qed simp

lemma encode_entries_eq:
  "encode_entries spans i es st body cps = (body @ entry_chain spans st es,
     cps @ map (\<lambda>j. (state_at st es j, u32_of (length body + length (entry_chain spans st (take j es)))))
             (filter (\<lambda>j. 0 < i + j \<and> (i + j) mod WSP_CHECKPOINT_EVERY = 0) [0..<length es]))"
proof (induction es arbitrary: i st body cps)
  case (Cons e es)
  have "filter (\<lambda>j. 0 < i + j \<and> (i + j) mod WSP_CHECKPOINT_EVERY = 0) [0..<length (e # es)]
      = (if 0 < i \<and> i mod WSP_CHECKPOINT_EVERY = 0 then [0] else [])
        @ map Suc (filter (\<lambda>j. 0 < i + 1 + j \<and> (i + 1 + j) mod WSP_CHECKPOINT_EVERY = 0) [0..<length es])"
    unfolding length_Cons upt_Suc_Cons by (simp add: filter_map comp_def)
  then show ?case by (simp add: Cons.IH Let_def write_entry_eq comp_def add.assoc)
qed simp

lemma checkpoint_indices:
  "filter (\<lambda>j. 0 < j \<and> j mod WSP_CHECKPOINT_EVERY = 0) [0..<n] = map (\<lambda>k. k * WSP_CHECKPOINT_EVERY) [1..<Suc (checkpoints_for n)]"
proof (induction n)
  case (Suc n)
  show ?case
  proof (cases n)
    case 0
    then show ?thesis by (simp add: checkpoints_for_def)
  next
    case n: (Suc m)
    show ?thesis
    proof (cases "n mod WSP_CHECKPOINT_EVERY = 0")
      case True
      then have "n div WSP_CHECKPOINT_EVERY = Suc (m div WSP_CHECKPOINT_EVERY)" unfolding n by (simp add: div_Suc)
      moreover have "n div WSP_CHECKPOINT_EVERY * WSP_CHECKPOINT_EVERY = n" using True by auto
      ultimately have c: "checkpoints_for (Suc n) = Suc (checkpoints_for n)" "Suc (checkpoints_for n) * WSP_CHECKPOINT_EVERY = n"
        using n by (simp_all add: checkpoints_for_def)
      have "0 < n" using n by simp
      then show ?thesis using True Suc c by (simp del: upt_Suc mult_Suc add: upt_Suc_append)
    next
      case False
      then have "n div WSP_CHECKPOINT_EVERY = m div WSP_CHECKPOINT_EVERY" unfolding n by (simp add: div_Suc)
      then have "checkpoints_for (Suc n) = checkpoints_for n" using n by (simp add: checkpoints_for_def)
      then show ?thesis using False Suc by (simp del: upt_Suc add: upt_Suc_append)
    qed
  qed
qed (simp add: checkpoints_for_def)

definition checkpoints_of :: "bool \<Rightarrow> WordPostingEntry list \<Rightarrow> (DeltaState \<times> u32) list" where
  "checkpoints_of spans es = map (\<lambda>k. (state_at ds_default es (k * WSP_CHECKPOINT_EVERY),
       u32_of (length (entry_chain spans ds_default (take (k * WSP_CHECKPOINT_EVERY) es))))) [1..<Suc (checkpoints_for (length es))]"

definition block_bytes :: "bool \<Rightarrow> WordPostingEntry list \<Rightarrow> bytes" where
  "block_bytes spans es =
     (if es = [] then []
      else varint_bytes (u64_of (length es)) @ concat (map (write_checkpoint spans) (checkpoints_of spans es)) @ entry_chain spans ds_default es)"

lemma encode_block_into_eq: "encode_block_into spans out es = out @ block_bytes spans es"
  by (simp add: encode_block_into_def block_bytes_def encode_entries_eq checkpoint_indices checkpoints_of_def comp_def write_varint_append)

section \<open>Documents of a block\<close>

fun docs_bytes :: "u32 \<Rightarrow> (u32 \<times> u32) list \<Rightarrow> bytes" where
  "docs_bytes prev [] = []"
| "docs_bytes prev ((doc, tf) # docs) = varint32 (doc - prev) @ varint32 tf @ docs_bytes doc docs"

definition docs_block :: "(u32 \<times> u32) list \<Rightarrow> bytes" where
  "docs_block docs = (if docs = [] then [] else varint_bytes (u64_of (length docs)) @ docs_bytes 0 docs)"

abbreviation doc_counts :: "WordPostingEntry list \<Rightarrow> (u32 \<times> u32) list" where
  "doc_counts es \<equiv> count_docs es None 0"

lemma write_docs_eq: "write_docs docs body n prev = (body @ docs_bytes prev docs, n + u64_of (length docs))"
  by (induction docs body n prev rule: write_docs.induct) (simp_all add: write_varint_append)

lemma append_docs_eq: "length docs < 2 ^ 64 \<Longrightarrow> append_docs data docs = data @ docs_block docs"
  by (cases "docs = []") (auto simp: append_docs_def docs_block_def write_docs_eq write_varint_append word_less_nat_alt)

lemma count_docs_run:
  "count_docs es (Some d) tf =
     (d, tf + u32_of (length (takeWhile (\<lambda>x. we_doc x = d) es))) # doc_counts (dropWhile (\<lambda>x. we_doc x = d) es)"
  by (induction es arbitrary: tf) (auto simp: algebra_simps)

lemma doc_counts_Cons:
  "doc_counts (e # es) = (we_doc e, u32_of (length (takeWhile (\<lambda>x. we_doc x = we_doc e) (e # es))))
     # doc_counts (dropWhile (\<lambda>x. we_doc x = we_doc e) (e # es))"
  by (simp add: count_docs_run)

lemma docs_loop_eq: "docs_loop es n prev body = (n + u64_of (length (doc_counts es)), body @ docs_bytes prev (doc_counts es))"
proof (induction es n prev body rule: docs_loop.induct)
  case (1 es n prev body)
  show ?case
  proof (cases es)
    case Nil
    then show ?thesis by (simp add: docs_loop.simps)
  next
    case (Cons e es')
    let ?rest = "dropWhile (\<lambda>x. we_doc x = we_doc e) es" and ?tf = "u32_of (length (takeWhile (\<lambda>x. we_doc x = we_doc e) es))"
    have c: "doc_counts es = (we_doc e, ?tf) # doc_counts ?rest" using doc_counts_Cons [of e es'] Cons by simp
    have "docs_loop es n prev body = docs_loop ?rest (n + 1) (we_doc e) (write_varint (write_varint body (ucast (we_doc e - prev))) (ucast ?tf))"
      using Cons by (subst docs_loop.simps) (simp add: Let_def)
    also have "\<dots> = (n + 1 + u64_of (length (doc_counts ?rest)), body @ varint32 (we_doc e - prev) @ varint32 ?tf @ docs_bytes (we_doc e) (doc_counts ?rest))"
      using 1 [OF Cons refl refl refl] Cons by (simp add: write_varint_append)
    finally show ?thesis using c by (simp add: algebra_simps)
  qed
qed

lemma doc_counts_length: "length (count_docs es cur tf) \<le> length es + (if cur = None then 0 else 1)"
proof (induction es arbitrary: cur tf)
  case Nil
  then show ?case by (cases cur) simp_all
next
  case (Cons e es)
  show ?case using Cons [of "Some (we_doc e)" 1] Cons [of cur "tf + 1"] by (cases cur) auto
qed

lemma doc_counts_empty: "doc_counts es = [] \<longleftrightarrow> es = []"
  by (cases es) (auto simp: doc_counts_Cons simp del: count_docs.simps(2))

lemma encode_docs_block_eq: "encode_docs_block_into out es = out @ docs_block (doc_counts es)"
  by (auto simp: encode_docs_block_into_def docs_block_def docs_loop_eq write_varint_append doc_counts_empty)

end
