(* ===== verification/WordSfxRead.thy ===== *)
theory WordSfxRead
  imports WordSfxPost
begin

text \<open>
  Reading word postings back: the file as a table over its blocks, the walk over a block, the lookup over the
  checkpoints, and the document counts of a file and of its documents-only conversion.
\<close>

section \<open>The file\<close>

lemma drop_behind: "drop p data = xs @ ys \<Longrightarrow> drop (p + length xs) data = ys"
  by (metis add.commute append_eq_conv_conj drop_drop)

lemma encode_ordinals_eq:
  assumes "\<And>data x. x \<in> set xs \<Longrightarrow> enc data x = data @ blk x"
  shows "encode_ordinals enc xs offsets data
    = (offsets @ map u32_of (butlast (starts (length data) (map blk xs))), data @ concat (map blk xs))"
  using assms
proof (induction xs arbitrary: offsets data)
  case (Cons x xs)
  have "butlast (starts (length data) (map blk (x # xs))) = length data # butlast (starts (length data + length (blk x)) (map blk xs))"
    by (cases "starts (length data + length (blk x)) (map blk xs)") (auto dest: arg_cong [of _ _ length])
  then show ?case using Cons by simp
qed simp

lemma assemble_eq:
  "assemble magic num (map u32_of (butlast (starts 0 R)), concat R) =
     (if length (concat R) < 2 ^ 32 then Some (magic @ le32 num @ encode (region_offsets R) @ concat R) else None)"
proof -
  have "map u32_of (butlast (starts 0 R)) @ [u32_of (length (concat R))] = region_offsets R"
    using starts_butlast [of 0 R] unfolding region_offsets_def by (metis add_0 list.simps(8) list.simps(9) map_append)
  then show ?thesis by (simp add: assemble_def less_eq_Suc_le del: concat_eq_Nil_conv)
qed

text \<open>The reader of a file with the block-coded table over the regions \<open>R\<close>.\<close>

definition wr_view :: "bool \<Rightarrow> bool \<Rightarrow> bytes \<Rightarrow> bytes list \<Rightarrow> WordSfxPostReader" where
  "wr_view spans docs magic R =
     \<lparr>wr_data = magic @ le32 (u32_of (length R)) @ encode (region_offsets R) @ concat R, wr_num_ordinals = u32_of (length R),
      wr_v3 = True, wr_spans = spans, wr_docs_only = docs, wr_table = Block (view_of (region_offsets R)),
      wr_entries_start = 8 + length (encode (region_offsets R)), wr_gmap = None\<rparr>"

definition magic_of :: "bool \<Rightarrow> bool \<Rightarrow> bytes" where
  "magic_of spans docs = bstr (if docs then ''WSP6'' else if spans then ''WSP4'' else ''WSP5'')"

lemma length_magic_of [simp]: "length (magic_of spans docs) = 4"
  by (simp add: magic_of_def)

lemma wr_open_view:
  assumes "length R < 2 ^ 29" and "docs \<longrightarrow> \<not> spans"
  shows "wr_open (wr_data (wr_view spans docs (magic_of spans docs) R)) = Some (wr_view spans docs (magic_of spans docs) R)"
proof -
  let ?d = "wr_data (wr_view spans docs (magic_of spans docs) R)"
  have len: "length (region_offsets R) = length R + 1" by (simp add: region_offsets_def)
  have t: "take 4 ?d = magic_of spans docs" "8 \<le> length ?d" by (simp_all add: wr_view_def)
  have n: "read_u32 ?d 4 = Some (u32_of (length R))" by (simp add: wr_view_def exec_simps)
  have "drop 8 ?d = encode (region_offsets R) @ concat R" by (simp add: wr_view_def)
  then have p: "parse (drop 8 ?d) = Some (view_of (region_offsets R), length (encode (region_offsets R)))"
    using assms(1) len by (simp add: parse_encode)
  have b: "bo_num (view_of (region_offsets R)) = u32_of (length R) + 1" by (simp add: view_of_def len)
  have m: "bstr ''WSP4'' \<noteq> bstr ''WSP5''" "bstr ''WSP4'' \<noteq> bstr ''WSP6''" "bstr ''WSP5'' \<noteq> bstr ''WSP6''" by (simp_all add: bstr_def)
  have view: "wr_view spans docs (magic_of spans docs) R = \<lparr>wr_data = ?d, wr_num_ordinals = u32_of (length R),
      wr_v3 = True, wr_spans = spans, wr_docs_only = docs, wr_table = Block (view_of (region_offsets R)),
      wr_entries_start = 8 + length (encode (region_offsets R)), wr_gmap = None\<rparr>" by (simp add: wr_view_def)
  consider "docs" "\<not> spans" | "\<not> docs" "spans" | "\<not> docs" "\<not> spans" using assms(2) by blast
  then show ?thesis
    by cases (subst view, use t n p b m in \<open>simp add: wr_open_def magic_of_def Let_def\<close>)+
qed

abbreviation region_start :: "bytes list \<Rightarrow> nat \<Rightarrow> nat" where
  "region_start R i \<equiv> 8 + length (encode (region_offsets R)) + starts 0 R ! i"

lemma locate_view:
  assumes "length R < 2 ^ 29" and "length (concat R) < 2 ^ 32" and "i < length R" and "length magic = 4"
  shows "locate (wr_view spans docs magic R) (u32_of i)
    = Some (if R ! i = [] then None else Some (region_start R i, region_start R i + length (R ! i)))"
proof -
  have ok: "block_ok (region_offsets R)" using sorted_region_offsets [OF assms(2)] assms(1) by (simp add: block_ok_def region_offsets_def)
  have i: "\<not> u32_of (length R) \<le> u32_of i" using assms(1,3) by (simp add: u32_of_le_iff)
  obtain a b where o1: "ot_get (Block (view_of (region_offsets R))) (u32_of i) = Some a" "unat a = starts 0 R ! i"
    "ot_get (Block (view_of (region_offsets R))) (u32_of i + 1) = Some b" "unat b = starts 0 R ! Suc i"
    using block.get_offset [OF ok assms(2), of i] block.get_offset [OF ok assms(2), of "Suc i"] assms(3) by (auto simp: add.commute)
  have ends: "starts 0 R ! Suc i = starts 0 R ! i + length (R ! i)" "starts 0 R ! Suc i \<le> length (concat R)"
    using starts_Suc [OF assms(3), of 0] starts_le_total [of "Suc i" R 0] assms(3) by simp_all
  show ?thesis using o1 i ends assms(4)
    by (auto simp: locate_def wr_local_def block_range_def wr_view_def Let_def simp del: ot_get.simps concat_eq_Nil_conv)
qed

lemma view_at:
  assumes "i < length R" and "length magic = 4"
  shows "drop (region_start R i) (wr_data (wr_view spans docs magic R)) = R ! i @ concat (drop (Suc i) R)"
proof -
  have "drop (starts 0 R ! i) (concat R) = R ! i @ concat (drop (Suc i) R)"
    using concat_region_split [OF assms(1)] assms(1) by (metis add_0 append_eq_conv_conj less_imp_le nth_starts)
  then show ?thesis using assms(2) by (simp add: wr_view_def)
qed

section \<open>Reading a block\<close>

lemma length_write_checkpoint [simp]: "length (write_checkpoint (wr_spans r) c) = checkpoint_size r"
  by (simp add: write_checkpoint_def checkpoint_size_def CHECKPOINT_SIZE_def CHECKPOINT_SIZE_V5_def split: prod.splits)

lemma length_checkpoints_of [simp]: "length (checkpoints_of spans es) = checkpoints_for (length es)"
  by (simp add: checkpoints_of_def)

lemma u64_u32: "n < 2 ^ 32 \<Longrightarrow> u64_of n = ucast (u32_of n)"
proof (rule unsigned_word_eqI [where ?'a = nat])
  assume "n < 2 ^ 32"
  then show "unat (u64_of n) = unat (ucast (u32_of n) :: u64)" by simp
qed

text \<open>The parts of a block at \<open>start\<close>: where its checkpoints and its entries are.\<close>

lemma block_header_at:
  assumes d: "drop start (wr_data r) = block_bytes (wr_spans r) es @ post" and es: "es \<noteq> []" "length (block_bytes (wr_spans r) es) < 2 ^ 32"
  obtains cp ent where "block_header r start = Some (length es, cp, ent)" and "length es < 2 ^ 32"
    and "drop cp (wr_data r) = concat (map (write_checkpoint (wr_spans r)) (checkpoints_of (wr_spans r) es)) @ entry_chain (wr_spans r) ds_default es @ post"
    and "drop ent (wr_data r) = entry_chain (wr_spans r) ds_default es @ post"
    and "ent + length (entry_chain (wr_spans r) ds_default es) = start + length (block_bytes (wr_spans r) es)"
    and "length (entry_chain (wr_spans r) ds_default es) < 2 ^ 32"
proof -
  let ?n = "length es" and ?cps = "concat (map (write_checkpoint (wr_spans r)) (checkpoints_of (wr_spans r) es))"
  let ?ch = "entry_chain (wr_spans r) ds_default es"
  have bb: "block_bytes (wr_spans r) es = varint_bytes (u64_of ?n) @ ?cps @ ?ch" using es(1) by (simp add: block_bytes_def)
  have small: "?n < 2 ^ 32" "length ?ch < 2 ^ 32"
    using es(2) entry_chain_length [of es "wr_spans r" ds_default] unfolding bb by simp_all
  have d1: "drop start (wr_data r) = varint32 (u32_of ?n) @ ?cps @ ?ch @ post" using d small(1) by (simp add: bb u64_u32)
  note a = varint_u32.dec_at [OF TrueI d1]
  let ?cp = "start + length (varint32 (u32_of ?n))"
  have len: "length ?cps = checkpoints_for ?n * checkpoint_size r"
    by (subst length_concat_fixed [where w = "checkpoint_size r"]) simp_all
  have d2: "drop (?cp + length ?cps) (wr_data r) = ?ch @ post" by (rule drop_behind [OF a(2)])
  have "?ch \<noteq> []" using es(1) entry_bytes_nonempty by (cases es) auto
  then have "?cp + length ?cps \<le> length (wr_data r)" using d2 by (metis Nil_is_append_conv drop_all nat_le_linear)
  then have "block_header r start = Some (?n, ?cp, ?cp + length ?cps)"
    using a(1) small(1) len by (simp add: block_header_def Let_def)
  moreover have "?cp + length ?cps + length ?ch = start + length (block_bytes (wr_spans r) es)" using small(1) by (simp add: bb u64_u32)
  ultimately show thesis using that small a(2) d2 by blast
qed

lemma walk_entries_chain:
  assumes "drop pos (wr_data r) = entry_chain (wr_spans r) st es @ post" and "list_all (short (wr_spans r)) es"
    and "same_state (wr_spans r) st st'"
  shows "walk_entries r (length es) (pos + length (entry_chain (wr_spans r) st es)) pos st' = map (stored (wr_spans r)) es"
  using assms
proof (induction es arbitrary: pos st st')
  case (Cons e es)
  let ?sp = "wr_spans r" and ?b = "entry_bytes (wr_spans r) st e"
  have same: "entry_bytes ?sp st' e = ?b" using Cons.prems(3) by (rule entry_bytes_cong)
  have d: "drop pos (wr_data r) = entry_bytes ?sp st' e @ entry_chain ?sp (ds_of e) es @ post" using Cons.prems(1) same by simp
  have "short ?sp e" using Cons.prems(2) by simp
  note at = decode_entry_at [OF this d, unfolded same]
  obtain st2 where s2: "decode_entry (wr_data r) pos st' ?sp = Some (stored ?sp e, pos + length ?b, st2)" "same_state ?sp (ds_of e) st2"
    using at(1) by blast
  have "walk_entries r (length es) (pos + length ?b + length (entry_chain ?sp (ds_of e) es)) (pos + length ?b) st2 = map (stored ?sp) es"
    using Cons.prems(2) by (intro Cons.IH [OF at(2) _ s2(2)]) simp
  moreover have "0 < length ?b" using entry_bytes_nonempty by (metis length_greater_0_conv)
  ultimately show ?case using s2(1) by (simp add: add.assoc)
qed simp

lemma walk_block:
  assumes "drop start (wr_data r) = block_bytes (wr_spans r) es @ post" and "es \<noteq> []" and "length (block_bytes (wr_spans r) es) < 2 ^ 32"
    and "list_all (short (wr_spans r)) es"
  shows "walk_v3 r start (start + length (block_bytes (wr_spans r) es)) = map (stored (wr_spans r)) es"
proof -
  obtain cp ent where h: "block_header r start = Some (length es, cp, ent)" "drop ent (wr_data r) = entry_chain (wr_spans r) ds_default es @ post"
    "ent + length (entry_chain (wr_spans r) ds_default es) = start + length (block_bytes (wr_spans r) es)"
    using block_header_at [OF assms(1-3)] by blast
  have "same_state (wr_spans r) ds_default ds_default" by (simp add: same_state_def)
  from walk_entries_chain [OF h(2) assms(4) this] show ?thesis using h(1,3) by (simp add: walk_v3_def)
qed

section \<open>Looking an entry up\<close>

abbreviation place :: "WordPostingEntry \<Rightarrow> u32 \<times> u32" where
  "place e \<equiv> (we_doc e, we_first e)"

text \<open>The first entry at or behind a key, if it is at the key.\<close>

definition lookup :: "u32 \<times> u32 \<Rightarrow> WordPostingEntry list \<Rightarrow> WordPostingEntry option" where
  "lookup key es = (case dropWhile (\<lambda>e. place e < key) es of [] \<Rightarrow> None | e # _ \<Rightarrow> if place e = key then Some e else None)"

lemma lookup_skip: "\<forall>e \<in> set xs. place e < key \<Longrightarrow> lookup key (xs @ ys) = lookup key ys"
  unfolding lookup_def by (subst dropWhile_append2) auto

lemma lookup_stop: "\<exists>e \<in> set xs. \<not> place e < key \<Longrightarrow> lookup key (xs @ ys) = lookup key xs"
proof -
  assume "\<exists>e \<in> set xs. \<not> place e < key"
  then obtain e where e: "e \<in> set xs" "\<not> place e < key" by blast
  have "dropWhile (\<lambda>e. place e < key) (xs @ ys) = dropWhile (\<lambda>e. place e < key) xs @ ys" using e by (intro dropWhile_append1) auto
  moreover have "dropWhile (\<lambda>e. place e < key) xs \<noteq> []" using e by auto
  ultimately show ?thesis by (auto simp: lookup_def split: list.splits)
qed

lemma lookup_find: "sorted (map place es) \<Longrightarrow> lookup key es = find (\<lambda>e. place e = key) es"
proof (induction es)
  case (Cons e es)
  show ?case
  proof (cases "place e < key")
    case True
    then show ?thesis using Cons lookup_skip [of "[e]" key es] by auto
  next
    case False
    have "find (\<lambda>e. place e = key) es = None" if "place e \<noteq> key"
      using that False Cons.prems unfolding find_None_iff by auto
    then show ?thesis using False by (simp add: lookup_def)
  qed
qed (simp add: lookup_def)

lemma place_mono:
  assumes "sorted (map place es)" and "i \<le> j" and "j < length es"
  shows "place (es ! i) \<le> place (es ! j)"
proof -
  have "map place es ! i \<le> map place es ! j" using assms by (intro sorted_nth_mono) simp_all
  moreover have "map place es ! i = place (es ! i)" "map place es ! j = place (es ! j)" using assms(2,3) by (auto intro: nth_map)
  ultimately show ?thesis by (simp only:)
qed

lemma place_stored [simp]: "we_doc (stored spans e) = we_doc e" "we_first (stored spans e) = we_first e"
  by (simp_all add: stored_def)

lemma lookup_stored: "lookup key (map (stored spans) es) = map_option (stored spans) (lookup key es)"
  by (cases "dropWhile (\<lambda>e. place e < key) es") (simp_all add: lookup_def dropWhile_map comp_def del: dropWhile_eq_Nil_conv)

lemma scan_entries_chain:
  assumes "drop pos (wr_data r) = entry_chain (wr_spans r) st es @ post" and "list_all (short (wr_spans r)) es"
    and "same_state (wr_spans r) st st'" and "pos + length (entry_chain (wr_spans r) st es) \<le> end1" and "m \<le> length es"
  shows "scan_entries r key m end1 pos st' = map_option (stored (wr_spans r)) (lookup key (take m es))"
  using assms
proof (induction es arbitrary: pos st st' m)
  case (Cons e es)
  let ?sp = "wr_spans r" and ?b = "entry_bytes (wr_spans r) st e"
  have same: "entry_bytes ?sp st' e = ?b" using Cons.prems(3) by (rule entry_bytes_cong)
  have d: "drop pos (wr_data r) = entry_bytes ?sp st' e @ entry_chain ?sp (ds_of e) es @ post" using Cons.prems(1) same by simp
  have "short ?sp e" using Cons.prems(2) by simp
  note at = decode_entry_at [OF this d, unfolded same]
  obtain st2 where s2: "decode_entry (wr_data r) pos st' ?sp = Some (stored ?sp e, pos + length ?b, st2)" "same_state ?sp (ds_of e) st2"
    using at(1) by blast
  obtain x xs where "?b = x # xs" using entry_bytes_nonempty by (cases ?b) auto
  then have pos: "\<not> end1 \<le> pos" using Cons.prems(4) by simp
  show ?case
  proof (cases m)
    case 0
    then show ?thesis by (simp add: lookup_def)
  next
    case (Suc n)
    have "scan_entries r key n end1 (pos + length ?b) st2 = map_option (stored ?sp) (lookup key (take n es))"
      using Cons.prems(2,4,5) Suc by (intro Cons.IH [OF at(2) _ s2(2)]) simp_all
    then show ?thesis using s2(1) pos Suc by (simp add: lookup_def)
  qed
qed (simp add: lookup_def)

lemma checkpoint_fields:
  "read_u32 (write_checkpoint True (st, off)) 0 = Some (ds_doc st)" "read_u32 (write_checkpoint True (st, off)) 4 = Some (ds_first st)"
  "read_u32 (write_checkpoint True (st, off)) 8 = Some (ds_from st)" "read_u32 (write_checkpoint True (st, off)) 12 = Some off"
  "read_u32 (write_checkpoint False (st, off)) 0 = Some (ds_doc st)" "read_u32 (write_checkpoint False (st, off)) 4 = Some (ds_first st)"
  "read_u32 (write_checkpoint False (st, off)) 8 = Some off"
  by (simp_all add: write_checkpoint_def exec_simps)

lemma checkpoint_at:
  assumes d: "drop cp (wr_data r) = concat (map (write_checkpoint (wr_spans r)) (checkpoints_of (wr_spans r) es)) @ post"
    and k: "0 < k" "k \<le> checkpoints_for (length es)" and small: "length (entry_chain (wr_spans r) ds_default es) < 2 ^ 32"
  obtains st where "checkpoint r cp k = Some (st, length (entry_chain (wr_spans r) ds_default (take (k * WSP_CHECKPOINT_EVERY) es)))"
    and "same_state (wr_spans r) (state_at ds_default es (k * WSP_CHECKPOINT_EVERY)) st"
proof -
  let ?sp = "wr_spans r" and ?st = "state_at ds_default es (k * WSP_CHECKPOINT_EVERY)"
  let ?off = "length (entry_chain ?sp ds_default (take (k * WSP_CHECKPOINT_EVERY) es))"
  have "entry_chain ?sp ds_default es = entry_chain ?sp ds_default (take (k * WSP_CHECKPOINT_EVERY) es)
      @ entry_chain ?sp (state_at ds_default (take (k * WSP_CHECKPOINT_EVERY) es) (length (take (k * WSP_CHECKPOINT_EVERY) es))) (drop (k * WSP_CHECKPOINT_EVERY) es)"
    using entry_chain_append [of ?sp ds_default "take (k * WSP_CHECKPOINT_EVERY) es" "drop (k * WSP_CHECKPOINT_EVERY) es"] by simp
  then have off: "?off < 2 ^ 32" using small by (metis length_append le_less_trans le_add1)
  have "[1..<Suc (checkpoints_for (length es))] ! (k - 1) = k" using k by (subst nth_upt) simp_all
  then have nth: "checkpoints_of ?sp es ! (k - 1) = (?st, u32_of ?off)" using k by (simp add: checkpoints_of_def del: upt_Suc)
  have cp: "cp \<le> length (wr_data r)"
  proof (rule ccontr)
    assume "\<not> ?thesis"
    then have "concat (map (write_checkpoint ?sp) (checkpoints_of ?sp es)) = []" using d by simp
    moreover have "length (concat (map (write_checkpoint ?sp) (checkpoints_of ?sp es))) = checkpoint_size r * checkpoints_for (length es)"
      by (subst length_concat_fixed [where w = "checkpoint_size r"]) simp_all
    ultimately have "checkpoint_size r * checkpoints_for (length es) = 0" by (metis list.size(3))
    then show False using k by (simp add: checkpoint_size_def CHECKPOINT_SIZE_def CHECKPOINT_SIZE_V5_def split: if_splits)
  qed
  have data: "wr_data r = take cp (wr_data r) @ concat (map (write_checkpoint ?sp) (checkpoints_of ?sp es)) @ post"
    using d by (metis append_take_drop_id)
  have g: "read_u32 (wr_data r) (cp + (k - 1) * checkpoint_size r + j * 4) = read_u32 (write_checkpoint ?sp (?st, u32_of ?off)) (j * 4)"
    if "j * 4 + 4 \<le> checkpoint_size r" for j
    using read_le_field [of "checkpoints_of ?sp es" "write_checkpoint ?sp" "checkpoint_size r" "k - 1"
        "cp + (k - 1) * checkpoint_size r + j * 4" "take cp (wr_data r)" "j * 4" 4 post, where ?'b = 32] data nth k cp that
    by (simp add: mult.commute)
  show thesis
  proof (cases ?sp)
    case True
    have "checkpoint r cp k = Some (\<lparr>ds_doc = ds_doc ?st, ds_first = ds_first ?st, ds_from = ds_from ?st\<rparr>, ?off)"
      using True g [of 0] g [of 1] g [of 2] g [of 3] off checkpoint_fields(1-4) [of ?st "u32_of ?off"] by (simp add: checkpoint_def Let_def checkpoint_size_def CHECKPOINT_SIZE_def)
    then show thesis by (rule that) (simp add: same_state_def)
  next
    case False
    have "checkpoint r cp k = Some (\<lparr>ds_doc = ds_doc ?st, ds_first = ds_first ?st, ds_from = 0\<rparr>, ?off)"
      using False g [of 0] g [of 1] g [of 2] off checkpoint_fields(5-7) [of ?st "u32_of ?off"] by (simp add: checkpoint_def Let_def checkpoint_size_def CHECKPOINT_SIZE_V5_def)
    then show thesis by (rule that) (use False in \<open>simp add: same_state_def\<close>)
  qed
qed

lemma search_checkpoints_last:
  assumes "lo \<le> hi" and "\<And>k. lo < k \<Longrightarrow> k \<le> hi \<Longrightarrow> \<exists>st off. cp k = Some (st, off) \<and> ((ds_doc st, ds_first st) < key \<longleftrightarrow> q k)"
    and "\<And>j k. lo < j \<Longrightarrow> j \<le> k \<Longrightarrow> k \<le> hi \<Longrightarrow> q k \<Longrightarrow> q j"
  shows "lo \<le> search_checkpoints cp key lo hi \<and> search_checkpoints cp key lo hi \<le> hi
    \<and> (search_checkpoints cp key lo hi = lo \<or> q (search_checkpoints cp key lo hi))
    \<and> (\<forall>k. search_checkpoints cp key lo hi < k \<and> k \<le> hi \<longrightarrow> \<not> q k)"
  using assms
proof (induction cp key lo hi rule: search_checkpoints.induct)
  case (1 cp key lo hi)
  show ?case
  proof (cases "lo < hi")
    case False
    then show ?thesis using "1.prems"(1) by (subst (1 2 3 4 5) search_checkpoints.simps) auto
  next
    case True
    define mid where "mid = lo + (hi - lo) div 2 + 1"
    have mid: "lo < mid" "mid \<le> hi" using True by (auto simp: mid_def)
    obtain st off where st: "cp mid = Some (st, off)" "(ds_doc st, ds_first st) < key \<longleftrightarrow> q mid" using "1.prems"(2) mid by blast
    show ?thesis
    proof (cases "q mid")
      case q: True
      have eq: "search_checkpoints cp key lo hi = search_checkpoints cp key mid hi"
        using True st q by (subst search_checkpoints.simps) (simp add: mid_def)
      have "mid \<le> search_checkpoints cp key mid hi \<and> search_checkpoints cp key mid hi \<le> hi
        \<and> (search_checkpoints cp key mid hi = mid \<or> q (search_checkpoints cp key mid hi))
        \<and> (\<forall>k. search_checkpoints cp key mid hi < k \<and> k \<le> hi \<longrightarrow> \<not> q k)"
        using mid st q "1.prems"(2,3) by (intro "1.IH"(1) [OF True mid_def st(1)]) auto
      then show ?thesis using q mid unfolding eq by auto
    next
      case nq: False
      have eq: "search_checkpoints cp key lo hi = search_checkpoints cp key lo (mid - 1)"
        using True st nq by (subst search_checkpoints.simps) (simp add: mid_def)
      have IH: "lo \<le> search_checkpoints cp key lo (mid - 1) \<and> search_checkpoints cp key lo (mid - 1) \<le> mid - 1
        \<and> (search_checkpoints cp key lo (mid - 1) = lo \<or> q (search_checkpoints cp key lo (mid - 1)))
        \<and> (\<forall>k. search_checkpoints cp key lo (mid - 1) < k \<and> k \<le> mid - 1 \<longrightarrow> \<not> q k)"
        using mid st nq "1.prems"(2,3) by (intro "1.IH"(2) [OF True mid_def st(1)]) auto
      have "\<not> q k" if "search_checkpoints cp key lo (mid - 1) < k" "k \<le> hi" for k
        using that IH nq mid "1.prems"(3) [of mid k] by (cases "k < mid") auto
      then show ?thesis using IH mid unfolding eq by auto
    qed
  qed
qed

lemma state_at_take: "j \<le> length es \<Longrightarrow> state_at st (take j es) (length (take j es)) = state_at st es j"
  by (auto simp: state_at_def)

lemma chain_from:
  assumes "drop ent data = entry_chain spans st es @ post" and "j \<le> length es"
  shows "drop (ent + length (entry_chain spans st (take j es))) data = entry_chain spans (state_at st es j) (drop j es) @ post"
    and "length (entry_chain spans st (take j es)) + length (entry_chain spans (state_at st es j) (drop j es)) = length (entry_chain spans st es)"
proof -
  have "entry_chain spans st es = entry_chain spans st (take j es) @ entry_chain spans (state_at st es j) (drop j es)"
    using entry_chain_append [of spans st "take j es" "drop j es"] state_at_take [OF assms(2)] by simp
  then show "length (entry_chain spans st (take j es)) + length (entry_chain spans (state_at st es j) (drop j es)) = length (entry_chain spans st es)"
    and "drop (ent + length (entry_chain spans st (take j es))) data = entry_chain spans (state_at st es j) (drop j es) @ post"
    using drop_behind [of ent data "entry_chain spans st (take j es)"] assms(1) by simp_all
qed

text \<open>From the last checkpoint below the key, the run of entries up to the next checkpoint decides the lookup.\<close>

lemma lookup_run:
  assumes srt: "sorted (map place es)" and m: "m = 0 \<or> place (es ! (m * WSP_CHECKPOINT_EVERY - 1)) < key"
    and c: "m \<le> checkpoints_for (length es)" and es: "es \<noteq> []"
    and nxt: "m < checkpoints_for (length es) \<Longrightarrow> \<not> place (es ! (Suc m * WSP_CHECKPOINT_EVERY - 1)) < key"
  shows "lookup key (take (min (length es - m * WSP_CHECKPOINT_EVERY) WSP_CHECKPOINT_EVERY) (drop (m * WSP_CHECKPOINT_EVERY) es)) = lookup key es"
proof -
  let ?E = WSP_CHECKPOINT_EVERY and ?n = "length es"
  have E: "0 < ?E" by (simp add: WSP_CHECKPOINT_EVERY_def)
  have bound: "k * ?E < ?n" if "k \<le> checkpoints_for ?n" for k
  proof -
    have "k * ?E \<le> (?n - 1) div ?E * ?E" using that es by (intro mult_le_mono1) (simp add: checkpoints_for_def)
    also have "\<dots> \<le> ?n - 1" by simp
    finally show ?thesis using es by (cases es) auto
  qed
  have "\<forall>e \<in> set (take (m * ?E) es). place e < key"
  proof (cases "m = 0")
    case False
    then have lt: "place (es ! (m * ?E - 1)) < key" using m by simp
    have "place (es ! j) < key" if "j < m * ?E" for j
    proof -
      have "place (es ! j) \<le> place (es ! (m * ?E - 1))" using that bound [OF c] by (intro place_mono [OF srt]) auto
      then show ?thesis using lt by (rule le_less_trans)
    qed
    then show ?thesis by (auto simp: in_set_conv_nth)
  qed simp
  then have rest: "lookup key es = lookup key (drop (m * ?E) es)" using lookup_skip [of "take (m * ?E) es" key "drop (m * ?E) es"] by simp
  show ?thesis
  proof (cases "m = checkpoints_for ?n")
    case True
    have "(?n - 1) mod ?E < ?E" using E by simp
    then have "?n - m * ?E \<le> ?E" using True es by (simp add: checkpoints_for_def minus_div_mult_eq_mod [symmetric])
    then show ?thesis using rest by simp
  next
    case False
    then have sm: "Suc m \<le> checkpoints_for ?n" "m < checkpoints_for ?n" using c by auto
    have len: "Suc m * ?E \<le> ?n" using bound [OF sm(1)] by simp
    then have k: "min (?n - m * ?E) ?E = ?E" by simp
    have "es ! (Suc m * ?E - 1) = take ?E (drop (m * ?E) es) ! (?E - 1)" using len E by (simp add: add.commute)
    moreover have "?E - 1 < length (take ?E (drop (m * ?E) es))" using len E by simp
    ultimately have "es ! (Suc m * ?E - 1) \<in> set (take ?E (drop (m * ?E) es))" by (metis nth_mem)
    then have "\<exists>e \<in> set (take ?E (drop (m * ?E) es)). \<not> place e < key" using nxt [OF sm(2)] by blast
    from lookup_stop [OF this, of "drop ?E (drop (m * ?E) es)"] show ?thesis unfolding rest k append_take_drop_id by (rule sym)
  qed
qed

lemma entry_at_block:
  assumes d: "drop start (wr_data r) = block_bytes (wr_spans r) es @ post" and es: "es \<noteq> []" "length (block_bytes (wr_spans r) es) < 2 ^ 32"
    and sh: "list_all (short (wr_spans r)) es" and srt: "sorted (map place es)"
  shows "entry_at_v3 r start (start + length (block_bytes (wr_spans r) es)) doc first1 = map_option (stored (wr_spans r)) (lookup (doc, first1) es)"
proof -
  let ?E = WSP_CHECKPOINT_EVERY and ?n = "length es" and ?key = "(doc, first1)" and ?sp = "wr_spans r"
  obtain cp ent where h: "block_header r start = Some (?n, cp, ent)"
    "drop cp (wr_data r) = concat (map (write_checkpoint ?sp) (checkpoints_of ?sp es)) @ entry_chain ?sp ds_default es @ post"
    "drop ent (wr_data r) = entry_chain ?sp ds_default es @ post"
    "ent + length (entry_chain ?sp ds_default es) = start + length (block_bytes ?sp es)"
    "length (entry_chain ?sp ds_default es) < 2 ^ 32"
    using block_header_at [OF d es] by blast
  define q where "q k \<longleftrightarrow> place (es ! (k * ?E - 1)) < ?key" for k
  have E: "0 < ?E" by (simp add: WSP_CHECKPOINT_EVERY_def)
  have bound: "k * ?E < ?n" if "k \<le> checkpoints_for ?n" for k
  proof -
    have "k * ?E \<le> (?n - 1) div ?E * ?E" using that es(1) by (intro mult_le_mono1) (simp add: checkpoints_for_def)
    also have "\<dots> \<le> ?n - 1" by simp
    finally show ?thesis using es(1) by (cases es) auto
  qed
  have cps: "\<exists>st. checkpoint r cp k = Some (st, length (entry_chain ?sp ds_default (take (k * ?E) es)))
      \<and> same_state ?sp (state_at ds_default es (k * ?E)) st" if "0 < k" "k \<le> checkpoints_for ?n" for k
    using checkpoint_at [OF h(2) that h(5)] by blast
  have probe: "\<exists>st off. checkpoint r cp k = Some (st, off) \<and> ((ds_doc st, ds_first st) < ?key \<longleftrightarrow> q k)" if "0 < k" "k \<le> checkpoints_for ?n" for k
  proof -
    note at = cps [OF that]
    obtain st off where st: "checkpoint r cp k = Some (st, off)" "same_state ?sp (state_at ds_default es (k * ?E)) st" using at by blast
    moreover have "k * ?E \<noteq> 0" using that(1) E by simp
    ultimately show ?thesis by (auto simp: same_state_def state_at_def q_def)
  qed
  have mono: "q j" if "0 < j" "j \<le> k" "k \<le> checkpoints_for ?n" "q k" for j k
  proof -
    have "j * ?E - 1 \<le> k * ?E - 1" using that(2) by (intro diff_le_mono mult_le_mono1)
    then have "place (es ! (j * ?E - 1)) \<le> place (es ! (k * ?E - 1))" using bound [OF that(3)] by (intro place_mono [OF srt]) auto
    then show ?thesis using that(4) unfolding q_def by (rule le_less_trans)
  qed
  define m where "m = search_checkpoints (checkpoint r cp) ?key 0 (checkpoints_for ?n)"
  have m: "m \<le> checkpoints_for ?n" "m = 0 \<or> q m" "\<And>k. m < k \<Longrightarrow> k \<le> checkpoints_for ?n \<Longrightarrow> \<not> q k"
  proof -
    have "0 \<le> m \<and> m \<le> checkpoints_for ?n \<and> (m = 0 \<or> q m) \<and> (\<forall>k. m < k \<and> k \<le> checkpoints_for ?n \<longrightarrow> \<not> q k)"
      unfolding m_def by (rule search_checkpoints_last) (use probe mono in auto)
    then show "m \<le> checkpoints_for ?n" "m = 0 \<or> q m" "\<And>k. m < k \<Longrightarrow> k \<le> checkpoints_for ?n \<Longrightarrow> \<not> q k" by auto
  qed
  have nx: "\<not> place (es ! (Suc m * ?E - 1)) < ?key" if "m < checkpoints_for ?n"
    using m(3) [OF lessI, unfolded q_def] that by (simp only: Suc_le_eq not_False_eq_True)
  have le: "m * ?E \<le> ?n" using bound [OF m(1)] by simp
  obtain st where st: "(if m = 0 then Some (ds_default, ent) else map_option (\<lambda>(st, off). (st, ent + off)) (checkpoint r cp m))
      = Some (st, ent + length (entry_chain ?sp ds_default (take (m * ?E) es)))" "same_state ?sp (state_at ds_default es (m * ?E)) st"
    using cps [of m] m(1) by (cases "m = 0") (auto simp: same_state_def)
  have "scan_entries r ?key (min (?n - m * ?E) ?E) (start + length (block_bytes ?sp es)) (ent + length (entry_chain ?sp ds_default (take (m * ?E) es))) st
      = map_option (stored ?sp) (lookup ?key (take (min (?n - m * ?E) ?E) (drop (m * ?E) es)))"
    using chain_from(2) [OF h(3) le] h(4) sh by (intro scan_entries_chain [OF chain_from(1) [OF h(3) le] _ st(2)]) (auto simp: list_all_iff dest: in_set_dropD)
  also have "\<dots> = map_option (stored ?sp) (lookup ?key es)"
    by (subst lookup_run [OF srt m(2) [unfolded q_def] m(1) es(1) nx]) (assumption, rule refl)
  finally show ?thesis using h(1) st(1) by (simp add: entry_at_v3_def m_def [symmetric])
qed

section \<open>Files\<close>

definition sorted_entries :: "WordPostingEntry list \<Rightarrow> WordPostingEntry list" where
  "sorted_entries es = remdups_adj (sort_key entry_key es)"

lemma inj_entry_key: "inj entry_key"
  by (auto simp: inj_def entry_key_def)

lemma sorted_entries_spec:
  "set (sorted_entries es) = set es" "sorted (map entry_key (sorted_entries es))" "distinct (sorted_entries es)" "sorted (map place (sorted_entries es))"
proof -
  have m: "map entry_key (sorted_entries es) = remdups_adj (map entry_key (sort_key entry_key es))"
    unfolding sorted_entries_def by (rule remdups_adj_map_injective [OF inj_entry_key, symmetric])
  show "set (sorted_entries es) = set es" by (simp add: sorted_entries_def)
  show srt: "sorted (map entry_key (sorted_entries es))" unfolding m by (intro sorted_remdups_adj sorted_sort_key)
  have "distinct (map entry_key (sorted_entries es))" unfolding m by (intro distinct_remdups_adj_sorted sorted_sort_key)
  then show "distinct (sorted_entries es)" by (simp add: distinct_map)
  show "sorted (map place (sorted_entries es))"
    using srt unfolding sorted_map by (rule sorted_wrt_mono_rel [rotated]) (auto simp: entry_key_def less_eq_prod_def)
qed

text \<open>The blocks of a writer, by ordinal.\<close>

definition word_regions :: "WordSfxPostWriter \<Rightarrow> bytes list" where
  "word_regions w = map (\<lambda>es. if wsw_docs_only w then docs_block (doc_counts (sorted_entries es)) else block_bytes (wsw_spans w) (sorted_entries es)) (wsw_entries w)"

lemma length_word_regions [simp]: "length (word_regions w) = length (wsw_entries w)"
  by (simp add: word_regions_def)

lemma wsw_finish_eq:
  "wsw_finish w = (if length (concat (word_regions w)) < 2 ^ 32
     then Some (magic_of (wsw_spans w) (wsw_docs_only w) @ le32 (u32_of (length (wsw_entries w))) @ encode (region_offsets (word_regions w)) @ concat (word_regions w))
     else None)"
proof -
  let ?blk = "\<lambda>es. if wsw_docs_only w then docs_block (doc_counts es) else block_bytes (wsw_spans w) es"
  have "encode_ordinals (encode_ordinal w) (map sorted_entries (wsw_entries w)) [] []
      = (map u32_of (butlast (starts 0 (word_regions w))), concat (word_regions w))"
    using encode_ordinals_eq [of "map sorted_entries (wsw_entries w)" "encode_ordinal w" ?blk "[]" "[]"]
    by (simp add: encode_ordinal_def encode_docs_block_eq encode_block_into_eq word_regions_def comp_def)
  then show ?thesis
    unfolding wsw_finish_def Let_def sorted_entries_def [symmetric] by (simp add: assemble_eq magic_of_def del: concat_eq_Nil_conv)
qed

lemma finish_view:
  assumes "wsw_finish w = Some buf" and "length (wsw_entries w) < 2 ^ 29"
  shows "wr_open buf = Some (wr_view (wsw_spans w \<and> \<not> wsw_docs_only w) (wsw_docs_only w) (magic_of (wsw_spans w) (wsw_docs_only w)) (word_regions w))"
    and "length (concat (word_regions w)) < 2 ^ 32"
proof -
  have m: "magic_of (wsw_spans w) (wsw_docs_only w) = magic_of (wsw_spans w \<and> \<not> wsw_docs_only w) (wsw_docs_only w)" by (simp add: magic_of_def)
  show "length (concat (word_regions w)) < 2 ^ 32" using assms(1) by (simp add: wsw_finish_eq split: if_splits)
  have "buf = wr_data (wr_view (wsw_spans w \<and> \<not> wsw_docs_only w) (wsw_docs_only w) (magic_of (wsw_spans w) (wsw_docs_only w)) (word_regions w))"
    using assms(1) by (simp add: wsw_finish_eq wr_view_def split: if_splits)
  then show "wr_open buf = Some (wr_view (wsw_spans w \<and> \<not> wsw_docs_only w) (wsw_docs_only w) (magic_of (wsw_spans w) (wsw_docs_only w)) (word_regions w))"
    using wr_open_view [of "word_regions w" "wsw_docs_only w" "wsw_spans w \<and> \<not> wsw_docs_only w"] assms(2) unfolding m by simp
qed

lemma region_le: "i < length R \<Longrightarrow> length (R ! i) \<le> length (concat R)"
  using concat_region_split [of i R] by simp

lemma block_bytes_empty: "block_bytes spans es = [] \<longleftrightarrow> es = []"
  by (simp add: block_bytes_def)

text \<open>What a positional file answers.\<close>

lemma positional_view:
  assumes f: "wsw_finish w = Some buf" "\<not> wsw_docs_only w" "length (wsw_entries w) < 2 ^ 29" and i: "i < length (wsw_entries w)"
    and sh: "list_all (short (wsw_spans w)) (wsw_entries w ! i)"
  shows "\<exists>r. wr_open buf = Some r \<and> wr_num_ordinals r = u32_of (length (wsw_entries w)) \<and> \<not> wr_docs_only r
    \<and> wr_entries r (u32_of i) = Some (map (stored (wsw_spans w)) (sorted_entries (wsw_entries w ! i)))
    \<and> for_each_entry r (u32_of i) = Some (map (stored (wsw_spans w)) (sorted_entries (wsw_entries w ! i)))
    \<and> entry_at r (u32_of i) doc first1 = Some (map_option (stored (wsw_spans w)) (lookup (doc, first1) (sorted_entries (wsw_entries w ! i))))"
proof -
  let ?es = "sorted_entries (wsw_entries w ! i)" and ?R = "word_regions w" and ?m = "magic_of (wsw_spans w) False"
  define r where "r = wr_view (wsw_spans w) False ?m ?R"
  have Ri: "?R ! i = block_bytes (wsw_spans w) ?es" using f(2) i by (simp add: word_regions_def)
  have small: "length (concat ?R) < 2 ^ 32" using finish_view(2) [OF f(1,3)] .
  have loc: "locate r (u32_of i) = Some (if ?es = [] then None else Some (region_start ?R i, region_start ?R i + length (block_bytes (wsw_spans w) ?es)))"
    unfolding r_def using locate_view [of ?R i ?m "wsw_spans w" False] f(3) i small Ri by (simp add: block_bytes_empty)
  have flds: "wr_spans r = wsw_spans w" "wr_v3 r" "\<not> wr_docs_only r" "wr_num_ordinals r = u32_of (length (wsw_entries w))" by (simp_all add: r_def wr_view_def)
  have "drop (region_start ?R i) (wr_data r) = block_bytes (wr_spans r) ?es @ concat (drop (Suc i) ?R)"
    unfolding flds(1) unfolding r_def using view_at [of i ?R ?m "wsw_spans w" False] i Ri by simp
  note at = this
  have sz: "length (block_bytes (wr_spans r) ?es) < 2 ^ 32" unfolding flds(1) using region_le [of i ?R] i small Ri by simp
  have sh': "list_all (short (wr_spans r)) ?es" unfolding flds(1) using sh by (simp add: list_all_iff sorted_entries_spec(1))
  have walk: "walk_v3 r (region_start ?R i) (region_start ?R i + length (block_bytes (wsw_spans w) ?es)) = map (stored (wsw_spans w)) ?es" if "?es \<noteq> []"
    using walk_block [OF at that sz sh'] unfolding flds(1) .
  have look: "entry_at_v3 r (region_start ?R i) (region_start ?R i + length (block_bytes (wsw_spans w) ?es)) doc first1
      = map_option (stored (wsw_spans w)) (lookup (doc, first1) ?es)" if "?es \<noteq> []"
    using entry_at_block [OF at that sz sh' sorted_entries_spec(4)] unfolding flds(1) .
  have "wr_open buf = Some r" unfolding r_def using finish_view(1) [OF f(1,3)] f(2) by simp
  moreover have "wr_entries r (u32_of i) = Some (map (stored (wsw_spans w)) ?es)"
    using loc walk flds by (cases "?es = []") (simp_all add: wr_entries_def)
  moreover have "for_each_entry r (u32_of i) = Some (map (stored (wsw_spans w)) ?es)"
    using loc walk flds by (cases "?es = []") (simp_all add: for_each_entry_def)
  moreover have "entry_at r (u32_of i) doc first1 = Some (map_option (stored (wsw_spans w)) (lookup (doc, first1) ?es))"
    using loc look flds by (cases "?es = []") (simp_all add: entry_at_def lookup_def)
  ultimately show ?thesis using flds by blast
qed

section \<open>Documents\<close>

lemma count_docs_stored: "count_docs (map (stored spans) es) cur tf = count_docs es cur tf"
  by (induction es arbitrary: cur tf) auto

lemma docs_bytes_length: "length docs \<le> length (docs_bytes prev docs)"
proof (induction docs arbitrary: prev)
  case (Cons d docs)
  obtain doc tf where d: "d = (doc, tf)" by (cases d)
  obtain x xs where "varint32 tf = x # xs" using varint_bytes_nonempty by (cases "varint32 tf") auto
  then show ?case using Cons [of doc] d by simp
qed simp

lemma walk_docs_at: "drop pos data = docs_bytes prev docs @ post \<Longrightarrow> walk_docs (length docs) data pos prev = docs"
proof (induction docs arbitrary: pos prev)
  case (Cons d docs)
  obtain doc tf where d: "d = (doc, tf)" by (cases d)
  have d1: "drop pos data = varint32 (doc - prev) @ varint32 tf @ docs_bytes doc docs @ post" using Cons.prems d by simp
  note a = varint_u32.dec_at [OF TrueI d1]
  note b = varint_u32.dec_at [OF TrueI a(2)]
  show ?case using Cons.IH [OF b(2)] a(1) b(1) d by simp
qed simp

lemma docs_view:
  assumes f: "wsw_finish w = Some buf" "wsw_docs_only w" "length (wsw_entries w) < 2 ^ 29" and i: "i < length (wsw_entries w)"
  shows "\<exists>r. wr_open buf = Some r \<and> for_each_doc r (u32_of i) = Some (doc_counts (sorted_entries (wsw_entries w ! i)))"
proof -
  let ?docs = "doc_counts (sorted_entries (wsw_entries w ! i))" and ?R = "word_regions w" and ?m = "magic_of (wsw_spans w) True"
  define r where "r = wr_view False True ?m ?R"
  have Ri: "?R ! i = docs_block ?docs" using f(2) i by (simp add: word_regions_def)
  have small: "length (concat ?R) < 2 ^ 32" using finish_view(2) [OF f(1,3)] .
  have loc: "locate r (u32_of i) = Some (if ?docs = [] then None else Some (region_start ?R i, region_start ?R i + length (docs_block ?docs)))"
    unfolding r_def using locate_view [of ?R i ?m False True] f(3) i small Ri by (simp add: docs_block_def)
  have flds: "wr_docs_only r" by (simp add: r_def wr_view_def)
  have open1: "wr_open buf = Some r" unfolding r_def using finish_view(1) [OF f(1,3)] f(2) by simp
  have "for_each_doc r (u32_of i) = Some ?docs"
  proof (cases "?docs = []")
    case True
    then show ?thesis using loc flds by (simp add: for_each_doc_def)
  next
    case False
    let ?data = "take (region_start ?R i + length (docs_block ?docs)) (wr_data r)"
    have "drop (region_start ?R i) (wr_data r) = docs_block ?docs @ concat (drop (Suc i) ?R)"
      unfolding r_def using view_at [of i ?R ?m False True] i Ri by simp
    then have "drop (region_start ?R i) ?data = docs_block ?docs" by (simp add: drop_take)
    moreover have n: "length ?docs < 2 ^ 32"
      using docs_bytes_length [of ?docs 0] region_le [of i ?R] i small Ri False by (simp add: docs_block_def)
    ultimately have d: "drop (region_start ?R i) ?data = varint32 (u32_of (length ?docs)) @ docs_bytes 0 ?docs"
      using False by (simp add: docs_block_def u64_u32)
    note a = varint_u32.dec_at [OF TrueI d]
    have "walk_docs (length ?docs) ?data (region_start ?R i + length (varint32 (u32_of (length ?docs)))) 0 = ?docs"
      using a(2) by (intro walk_docs_at [where post = "[]"]) simp
    then show ?thesis using loc flds a(1) n False by (simp add: for_each_doc_def Let_def)
  qed
  then show ?thesis using open1 by blast
qed

lemma all_docs_eq: "(\<And>i. i \<in> set is \<Longrightarrow> for_each_doc r (u32_of i) = Some (D i)) \<Longrightarrow> all_docs r is = Some (map D is)"
  by (induction "is") auto

text \<open>Converting a positional file gives the file the documents-only writer writes for the same entries.\<close>

lemma to_docs_only_finish:
  assumes f: "wsw_finish w = Some buf" "\<not> wsw_docs_only w" "length (wsw_entries w) < 2 ^ 29"
    and sh: "list_all (list_all (short (wsw_spans w))) (wsw_entries w)"
  shows "to_docs_only buf = map_option Some (wsw_finish (w\<lparr>wsw_docs_only := True\<rparr>))"
proof -
  let ?n = "length (wsw_entries w)" and ?w6 = "w\<lparr>wsw_docs_only := True\<rparr>"
  let ?D = "\<lambda>i. doc_counts (sorted_entries (wsw_entries w ! i))"
  define r where "r = wr_view (wsw_spans w) False (magic_of (wsw_spans w) False) (word_regions w)"
  have r: "wr_open buf = Some r" unfolding r_def using finish_view(1) [OF f(1,3)] f(2) by simp
  have n: "wr_num_ordinals r = u32_of ?n" "unat (u32_of ?n) = ?n" "\<not> wr_docs_only r" using f(3) by (simp_all add: r_def wr_view_def)
  have "for_each_doc r (u32_of i) = Some (?D i)" if i: "i \<in> set [0..<?n]" for i
  proof -
    have "i < ?n" "list_all (short (wsw_spans w)) (wsw_entries w ! i)" using i sh by (auto simp: list_all_length)
    then have "for_each_entry r (u32_of i) = Some (map (stored (wsw_spans w)) (sorted_entries (wsw_entries w ! i)))"
      using positional_view [OF f, of i] r by auto
    then show ?thesis using n(3) by (simp add: for_each_doc_def count_docs_stored)
  qed
  then have docs: "all_docs r [0..<?n] = Some (map ?D [0..<?n])" by (rule all_docs_eq)
  have regions: "map docs_block (map ?D [0..<?n]) = word_regions ?w6"
    by (rule nth_equalityI) (simp_all add: word_regions_def)
  have count: "length (?D i) < 2 ^ 64" if "i < ?n" for i
  proof (cases "sorted_entries (wsw_entries w ! i) = []")
    case False
    let ?es = "sorted_entries (wsw_entries w ! i)"
    have "length (block_bytes (wsw_spans w) ?es) < 2 ^ 32"
      using region_le [of i "word_regions w"] that finish_view(2) [OF f(1,3)] f(2) by (simp add: word_regions_def)
    then have "length ?es < 2 ^ 32" using False entry_chain_length [of ?es "wsw_spans w" ds_default] by (simp add: block_bytes_def)
    then show ?thesis using doc_counts_length [of ?es None 0] by simp
  qed simp
  have enc: "append_docs data d = data @ docs_block d" if "d \<in> set (map ?D [0..<?n])" for data d
    using that count by (auto intro: append_docs_eq)
  have "encode_ordinals append_docs (map ?D [0..<?n]) [] [] = (map u32_of (butlast (starts 0 (word_regions ?w6))), concat (word_regions ?w6))"
    using encode_ordinals_eq [of "map ?D [0..<?n]" append_docs docs_block "[]" "[]", OF enc] unfolding regions by simp
  then have "assemble (bstr ''WSP6'') (u32_of ?n) (encode_ordinals append_docs (map ?D [0..<?n]) [] []) = wsw_finish ?w6"
    by (simp add: assemble_eq wsw_finish_eq magic_of_def del: concat_eq_Nil_conv)
  then show ?thesis using r n docs by (cases "wsw_finish ?w6") (simp_all add: to_docs_only_def has_positions_def)
qed

lemma doc_counts_spec:
  "sorted (map we_doc es) \<Longrightarrow> sorted_wrt (<) (map fst (doc_counts es)) \<and> fst ` set (doc_counts es) = we_doc ` set es
    \<and> (\<forall>d \<in> we_doc ` set es. map_of (doc_counts es) d = Some (u32_of (length (filter (\<lambda>e. we_doc e = d) es))))"
proof (induction "length es" arbitrary: es rule: less_induct)
  case less
  show ?case
  proof (cases es)
    case (Cons e es')
    define run rest where "run = takeWhile (\<lambda>x. we_doc x = we_doc e) es" and "rest = dropWhile (\<lambda>x. we_doc x = we_doc e) es"
    have es: "es = run @ rest" by (simp add: run_def rest_def)
    have run: "x \<in> set run \<Longrightarrow> we_doc x = we_doc e" for x unfolding run_def by (auto dest: set_takeWhileD)
    have "e \<in> set run" using Cons by (simp add: run_def)
    have c: "doc_counts es = (we_doc e, u32_of (length run)) # doc_counts rest"
      using doc_counts_Cons [of e es'] Cons by (simp add: run_def rest_def)
    have "length rest < length es" using Cons by (simp add: rest_def le_imp_less_Suc length_dropWhile_le)
    moreover have srt: "sorted (map we_doc rest)" using less.prems es by (simp add: sorted_append)
    ultimately have IH: "sorted_wrt (<) (map fst (doc_counts rest))" "fst ` set (doc_counts rest) = we_doc ` set rest"
      "\<forall>d \<in> we_doc ` set rest. map_of (doc_counts rest) d = Some (u32_of (length (filter (\<lambda>e. we_doc e = d) rest)))"
      using less.hyps [of rest] by blast+
    have above: "we_doc e < we_doc x" if "x \<in> set rest" for x
    proof -
      have x: "x \<in> set rest" by (rule that)
      obtain y ys where y: "rest = y # ys" using x by (cases rest) auto
      have "we_doc y \<noteq> we_doc e" using y unfolding rest_def by (metis (mono_tags, lifting) dropWhile_eq_Cons_conv)
      moreover have "we_doc e \<le> we_doc y" using less.prems es y \<open>e \<in> set run\<close> by (auto simp: sorted_append)
      moreover have "we_doc y \<le> we_doc x" using srt y x by auto
      ultimately show ?thesis by (metis le_less_trans less_le_trans order_le_less)
    qed
    have "\<forall>x \<in> set rest. we_doc x \<noteq> we_doc e" using above by (metis less_irrefl)
    then have "filter (\<lambda>x. we_doc x = we_doc e) run = run" "filter (\<lambda>x. we_doc x = we_doc e) rest = []"
      using run by (simp_all add: filter_id_conv filter_empty_conv)
    then have own: "filter (\<lambda>x. we_doc x = we_doc e) es = run" using es by simp
    have other: "filter (\<lambda>x. we_doc x = d) es = filter (\<lambda>x. we_doc x = d) rest" if "d \<noteq> we_doc e" for d
      using that run es by (auto simp: filter_empty_conv)
    have "we_doc ` set run = {we_doc e}" using run \<open>e \<in> set run\<close> by blast
    then have docs: "we_doc ` set es = insert (we_doc e) (we_doc ` set rest)" by (subst es) (simp add: image_Un)
    have "\<forall>d \<in> fst ` set (doc_counts rest). we_doc e < d" using above unfolding IH(2) by auto
    then have "sorted_wrt (<) (map fst (doc_counts es))" using IH(1) by (auto simp: c)
    moreover have "fst ` set (doc_counts es) = we_doc ` set es" unfolding docs by (simp add: c IH(2))
    moreover have "map_of (doc_counts es) d = Some (u32_of (length (filter (\<lambda>e. we_doc e = d) es)))" if "d \<in> we_doc ` set es" for d
      using that IH(3) own other [of d] unfolding docs by (auto simp: c)
    ultimately show ?thesis by blast
  qed simp
qed

section \<open>Sizes\<close>

lemma fields_bound:
  "length (varint_bytes a @ varint_bytes b @ (if s then varint_bytes c @ varint_bytes d @ varint_bytes f
     else varint_bytes g @ (if t then varint_bytes h else []))) \<le> 50"
  using varint_bytes_le_10 [of a] varint_bytes_le_10 [of b] varint_bytes_le_10 [of c] varint_bytes_le_10 [of d]
    varint_bytes_le_10 [of f] varint_bytes_le_10 [of g] varint_bytes_le_10 [of h] by auto

lemma entry_chain_bound: "length (entry_chain spans st es) \<le> 50 * length es"
proof (induction es arbitrary: st)
  case (Cons e es)
  have "length (entry_bytes spans st e) \<le> 50" unfolding entry_bytes_def by (rule fields_bound)
  then show ?case using Cons [of "ds_of e"] by simp
qed simp

lemma block_bytes_bound: "length (block_bytes spans es) \<le> 76 * length es"
proof (cases "es = []")
  case False
  have "length (write_checkpoint spans c) \<le> 16" for c by (cases c) (simp add: write_checkpoint_def)
  then have "length (concat (map (write_checkpoint spans) cs)) \<le> 16 * length cs" for cs by (induction cs) (simp_all add: add_mono)
  from this [of "checkpoints_of spans es"] have "length (concat (map (write_checkpoint spans) (checkpoints_of spans es))) \<le> 16 * checkpoints_for (length es)"
    by simp
  moreover have "checkpoints_for (length es) \<le> length es"
    using le_trans [OF div_le_dividend diff_le_self, of "length es" 1 WSP_CHECKPOINT_EVERY] by (simp add: checkpoints_for_def)
  moreover have "1 \<le> length es" using False by (cases es) auto
  ultimately show ?thesis using False entry_chain_bound [of spans ds_default es] varint_bytes_le_10 [of "u64_of (length es)"]
    by (simp add: block_bytes_def)
qed (simp add: block_bytes_def)

lemma docs_block_bound: "length (docs_block docs) \<le> 30 * length docs"
proof (cases "docs = []")
  case False
  have "length (docs_bytes prev ds) \<le> 20 * length ds" for prev ds
  proof (induction ds arbitrary: prev)
    case (Cons d ds)
    obtain doc tf where "d = (doc, tf)" by (cases d)
    then show ?case using Cons [of doc] varint_bytes_le_10 [of "ucast (doc - prev)"] varint_bytes_le_10 [of "ucast tf"] by simp
  qed simp
  from this [of 0 docs] show ?thesis using False varint_bytes_le_10 [of "u64_of (length docs)"]
    by (cases docs) (simp_all add: docs_block_def)
qed (simp add: docs_block_def)

lemma finish_defined:
  assumes "76 * sum_list (map length (wsw_entries w)) < 2 ^ 32"
  shows "\<exists>buf. wsw_finish w = Some buf"
proof -
  have "length (if wsw_docs_only w then docs_block (doc_counts (sorted_entries es)) else block_bytes (wsw_spans w) (sorted_entries es)) \<le> 76 * length es" for es
  proof -
    have "length (sorted_entries es) \<le> length es" unfolding sorted_entries_def by (metis length_sort remdups_adj_length)
    then show ?thesis using block_bytes_bound [of "wsw_spans w" "sorted_entries es"] docs_block_bound [of "doc_counts (sorted_entries es)"]
        doc_counts_length [of "sorted_entries es" None 0] by auto
  qed
  then have "sum_list (map length (word_regions w)) \<le> sum_list (map (\<lambda>es. 76 * length es) (wsw_entries w))"
    unfolding word_regions_def map_map comp_def by (intro sum_list_mono)
  then have "length (concat (word_regions w)) < 2 ^ 32" using assms by (simp add: length_concat sum_list_const_mult)
  then show ?thesis by (simp add: wsw_finish_eq del: concat_eq_Nil_conv)
qed

section \<open>Properties\<close>

text \<open>The documents of some entries, in order, each with the number of its entries.\<close>

definition doc_table :: "WordPostingEntry list \<Rightarrow> (u32 \<times> u32) list \<Rightarrow> bool" where
  "doc_table es docs \<longleftrightarrow> sorted_wrt (<) (map fst docs) \<and> fst ` set docs = we_doc ` set es
     \<and> (\<forall>d \<in> we_doc ` set es. map_of docs d = Some (u32_of (length (filter (\<lambda>e. we_doc e = d) es))))"

lemma doc_counts_table: "doc_table (sorted_entries es) (doc_counts (sorted_entries es))"
proof -
  have "sorted (map we_doc (sorted_entries es))"
    using sorted_entries_spec(4) [of es] unfolding sorted_map by (rule sorted_wrt_mono_rel [rotated]) (auto simp: less_eq_prod_def)
  then show ?thesis using doc_counts_spec unfolding doc_table_def by blast
qed

text \<open>Two ordinals; the second one holds a word twice and another one in an earlier document.\<close>

definition demo_entry :: "u32 \<Rightarrow> WordPostingEntry" where
  "demo_entry doc = \<lparr>we_doc = doc, we_first = 3, we_last = 4, we_from = 0, we_to = 0, we_tail = 0\<rparr>"

definition demo_words :: WordSfxPostWriter where
  "demo_words = wsw_add (wsw_add (wsw_add (wsw_new 2) 1 (demo_entry 9)) 1 (demo_entry 2)) 1 (demo_entry 9)"

lemma demo_words_eq: "demo_words = \<lparr>wsw_entries = [[], [demo_entry 9, demo_entry 2, demo_entry 9]], wsw_spans = False, wsw_docs_only = False\<rparr>"
  by (simp add: demo_words_def wsw_add_def wsw_new_def numeral_2_eq_2)

lemma demo_words_ok:
  "\<not> wsw_docs_only demo_words" "length (wsw_entries demo_words) < 2 ^ 29" "1 < length (wsw_entries demo_words)"
  "list_all (list_all (short (wsw_spans demo_words))) (wsw_entries demo_words)" "wsw_entries demo_words ! 1 = [demo_entry 9, demo_entry 2, demo_entry 9]"
  by (simp_all add: demo_words_eq short_def demo_entry_def)

lemma demo_words_finish: "\<exists>buf. wsw_finish demo_words = Some buf" "\<exists>buf. wsw_finish (demo_words\<lparr>wsw_docs_only := True\<rparr>) = Some buf"
  by (rule finish_defined; simp add: demo_words_eq)+

text \<open>
  C38.  Word postings round-trip through the positional layouts. Whatever entries were added, in whatever order and
  with duplicates, the file opens and every ordinal gives back its entries sorted and without
  duplicates, with the fields the layout stores; without byte spans, for words of less than \<open>2 ^ 31\<close>
  chunks. The visitor and the list agree.
\<close>

theorem word_postings_roundtrip:
  assumes "wsw_finish w = Some buf" and "\<not> wsw_docs_only w" and "length (wsw_entries w) < 2 ^ 29"
    and "list_all (list_all (short (wsw_spans w))) (wsw_entries w)" and "i < length (wsw_entries w)"
  shows "\<exists>r es. wr_open buf = Some r \<and> set es = set (wsw_entries w ! i) \<and> distinct es \<and> sorted (map entry_key es)
    \<and> wr_entries r (u32_of i) = Some (map (stored (wsw_spans w)) es)
    \<and> for_each_entry r (u32_of i) = Some (map (stored (wsw_spans w)) es)"
proof -
  have "list_all (short (wsw_spans w)) (wsw_entries w ! i)" using assms(4,5) by (simp add: list_all_length)
  then show ?thesis using positional_view [OF assms(1-3,5)] sorted_entries_spec [of "wsw_entries w ! i"] by blast
qed

theorem word_postings_roundtrip_witness:
  "\<exists>buf r es. wsw_finish demo_words = Some buf \<and> wr_open buf = Some r \<and> set es = {demo_entry 2, demo_entry 9} \<and> distinct es
     \<and> wr_entries r (u32_of 1) = Some (map (stored False) es)"
proof -
  obtain buf where b: "wsw_finish demo_words = Some buf" using demo_words_finish(1) by blast
  have "wsw_spans demo_words = False" "set (wsw_entries demo_words ! 1) = {demo_entry 2, demo_entry 9}" by (auto simp: demo_words_eq)
  then show ?thesis using b word_postings_roundtrip [OF b demo_words_ok(1,2,4,3)] by auto
qed

text \<open>
  C39.  The lookup over the checkpoints finds what a scan finds: \<open>entry_at\<close> returns the first entry of the ordinal at
  the given document and position, and nothing when there is none, for blocks of every length, with and
  without checkpoints.
\<close>

theorem entry_at_finds:
  assumes "wsw_finish w = Some buf" and "\<not> wsw_docs_only w" and "length (wsw_entries w) < 2 ^ 29"
    and "list_all (list_all (short (wsw_spans w))) (wsw_entries w)" and "i < length (wsw_entries w)"
  shows "\<exists>r es. wr_open buf = Some r \<and> wr_entries r (u32_of i) = Some es
    \<and> entry_at r (u32_of i) doc first_position = Some (find (\<lambda>e. (we_doc e, we_first e) = (doc, first_position)) es)"
proof -
  let ?es = "sorted_entries (wsw_entries w ! i)"
  have "list_all (short (wsw_spans w)) (wsw_entries w ! i)" using assms(4,5) by (simp add: list_all_length)
  moreover have "sorted (map place (map (stored (wsw_spans w)) ?es))" using sorted_entries_spec(4) [of "wsw_entries w ! i"] by (simp add: comp_def)
  then have "map_option (stored (wsw_spans w)) (lookup (doc, first_position) ?es)
      = find (\<lambda>e. place e = (doc, first_position)) (map (stored (wsw_spans w)) ?es)"
    unfolding lookup_stored [symmetric] by (rule lookup_find)
  ultimately show ?thesis using positional_view [OF assms(1-3,5), of doc first_position] by auto
qed

theorem entry_at_finds_witness:
  "\<exists>buf r es. wsw_finish demo_words = Some buf \<and> wr_open buf = Some r \<and> wr_entries r (u32_of 1) = Some es
     \<and> entry_at r (u32_of 1) 9 3 = Some (find (\<lambda>e. (we_doc e, we_first e) = (9, 3)) es)"
proof -
  obtain buf where b: "wsw_finish demo_words = Some buf" using demo_words_finish(1) by blast
  show ?thesis using b entry_at_finds [OF b demo_words_ok(1,2,4,3), of 9 3] by blast
qed

text \<open>
  C40.  Documents only. Converting a positional file gives exactly the file the documents-only writer writes for the
  same entries, and that file answers, for every ordinal, its documents in increasing order, each with the
  number of its distinct entries.
\<close>

theorem to_docs_only_counts:
  assumes "wsw_finish w = Some buf" and "\<not> wsw_docs_only w" and "length (wsw_entries w) < 2 ^ 29"
    and "list_all (list_all (short (wsw_spans w))) (wsw_entries w)" and "i < length (wsw_entries w)"
    and "wsw_finish (w\<lparr>wsw_docs_only := True\<rparr>) = Some buf6"
  shows "to_docs_only buf = Some (Some buf6) \<and> (\<exists>r docs es. wr_open buf6 = Some r \<and> for_each_doc r (u32_of i) = Some docs
    \<and> distinct es \<and> set es = set (wsw_entries w ! i) \<and> doc_table es docs)"
proof -
  have "\<exists>r. wr_open buf6 = Some r \<and> for_each_doc r (u32_of i) = Some (doc_counts (sorted_entries (wsw_entries w ! i)))"
    using docs_view [OF assms(6)] assms(3,5) by simp
  then show ?thesis
    using to_docs_only_finish [OF assms(1-4)] assms(6) sorted_entries_spec(1,3) [of "wsw_entries w ! i"] doc_counts_table by auto blast
qed

theorem to_docs_only_counts_witness:
  "\<exists>buf buf6. wsw_finish demo_words = Some buf \<and> to_docs_only buf = Some (Some buf6)
     \<and> (\<exists>r docs es. wr_open buf6 = Some r \<and> for_each_doc r (u32_of 1) = Some docs \<and> distinct es
         \<and> set es = {demo_entry 2, demo_entry 9} \<and> doc_table es docs)"
proof -
  obtain buf buf6 where b: "wsw_finish demo_words = Some buf" "wsw_finish (demo_words\<lparr>wsw_docs_only := True\<rparr>) = Some buf6"
    using demo_words_finish by blast
  have "set (wsw_entries demo_words ! 1) = {demo_entry 2, demo_entry 9}" by (auto simp: demo_words_eq)
  then show ?thesis using b(1) to_docs_only_counts [OF b(1) demo_words_ok(1,2,4,3) b(2)] by auto
qed

end
