(* ===== verification/SyncFormats.thy ===== *)
theory SyncFormats
  imports Codec "HOL-Library.Sublist"
begin

text \<open>
  The exchange formats of the synchronisation layer: length-prefixed strings and blobs
  (\<open>src/lucistore/src/binary.rs\<close>), the version string of a manifest (\<open>version.rs\<close>), the delta of one
  shard (LUCID, \<open>delta.rs\<close>), the delta of several shards (LUCIDS, \<open>delta_sharded.rs\<close>) and the snapshot with
  its table of contents (LUCE, \<open>snapshot.rs\<close>).

  A \<open>String\<close> is its bytes, which the language keeps valid UTF-8. A reader that returns \<open>Err\<close> is \<open>None\<close>; the
  deserialisers return a value of \<open>sync_error\<close>, in which every error behind the header is \<open>Malformed\<close>: their
  messages differ in wording and are not modelled. Neither is the failure to allocate a vector of the announced
  capacity.
\<close>

section \<open>Strings, blobs and runs\<close>

text \<open>\<open>std::str::from_utf8\<close>: the well-formed byte sequences.\<close>

definition cont_byte :: "u8 \<Rightarrow> bool" where
  "cont_byte b \<longleftrightarrow> 0x80 \<le> b \<and> b \<le> 0xBF"

definition second_of_three :: "u8 \<Rightarrow> u8 \<Rightarrow> bool" where
  "second_of_three a b \<longleftrightarrow> cont_byte b \<and> (a = 0xE0 \<longrightarrow> 0xA0 \<le> b) \<and> (a = 0xED \<longrightarrow> b \<le> 0x9F)"

definition second_of_four :: "u8 \<Rightarrow> u8 \<Rightarrow> bool" where
  "second_of_four a b \<longleftrightarrow> cont_byte b \<and> (a = 0xF0 \<longrightarrow> 0x90 \<le> b) \<and> (a = 0xF4 \<longrightarrow> b \<le> 0x8F)"

fun utf8 :: "bytes \<Rightarrow> bool" where
  "utf8 [] \<longleftrightarrow> True"
| "utf8 (a # s) \<longleftrightarrow>
     (if a < 0x80 then utf8 s
      else case s of [] \<Rightarrow> False | b # s1 \<Rightarrow>
        (if 0xC2 \<le> a \<and> a \<le> 0xDF then cont_byte b \<and> utf8 s1
         else case s1 of [] \<Rightarrow> False | c # s2 \<Rightarrow>
           (if 0xE0 \<le> a \<and> a \<le> 0xEF then second_of_three a b \<and> cont_byte c \<and> utf8 s2
            else case s2 of [] \<Rightarrow> False | d # s3 \<Rightarrow>
              0xF0 \<le> a \<and> a \<le> 0xF4 \<and> second_of_four a b \<and> cont_byte c \<and> cont_byte d \<and> utf8 s3)))"

definition write_string :: "bytes \<Rightarrow> bytes" where
  "write_string s = le32 (u32_of (length s)) @ s"

definition bin_read_u32 :: "bytes \<Rightarrow> nat \<Rightarrow> (u32 \<times> nat) option" where
  "bin_read_u32 data pos = (if length data < pos + 4 then None else map_option (\<lambda>v. (v, pos + 4)) (read_u32 data pos))"

definition read_string :: "bytes \<Rightarrow> nat \<Rightarrow> (bytes \<times> nat) option" where
  "read_string data pos = do {
     (len, pos) \<leftarrow> bin_read_u32 data pos;
     if length data < pos + unat len then None
     else do {
       s \<leftarrow> slice data pos (pos + unat len);
       if utf8 s then Some (s, pos + unat len) else None } }"

text \<open>A blob: \<open>(data.len() as u32).to_le_bytes()\<close> and the bytes.\<close>

definition write_blob :: "bytes \<Rightarrow> bytes" where
  "write_blob d = le32 (u32_of (length d)) @ d"

definition read_blob :: "bytes \<Rightarrow> nat \<Rightarrow> (bytes \<times> nat) option" where
  "read_blob data pos = do {
     (len, pos) \<leftarrow> bin_read_u32 data pos;
     if length data < pos + unat len then None
     else do {
       d \<leftarrow> slice data pos (pos + unat len);
       Some (d, pos + unat len) } }"

text \<open>A count and that many values: the loop every list of the formats is written and read by.\<close>

definition enc_list :: "('a \<Rightarrow> bytes) \<Rightarrow> 'a list \<Rightarrow> bytes" where
  "enc_list e xs = le32 (u32_of (length xs)) @ concat (map e xs)"

definition dec_list :: "(bytes \<Rightarrow> nat \<Rightarrow> ('a \<times> nat) option) \<Rightarrow> bytes \<Rightarrow> nat \<Rightarrow> ('a list \<times> nat) option" where
  "dec_list d data pos = do {
     (n, pos) \<leftarrow> bin_read_u32 data pos;
     dec_many d (unat n) data pos }"

text \<open>A file of a bundle: its name and its content.\<close>

type_synonym bundle_file = "bytes \<times> bytes"

definition enc_file :: "bundle_file \<Rightarrow> bytes" where
  "enc_file = enc_pair write_string write_blob"

definition dec_file :: "bytes \<Rightarrow> nat \<Rightarrow> (bundle_file \<times> nat) option" where
  "dec_file = dec_pair read_string read_blob"

definition enc_config :: "bytes option \<Rightarrow> bytes" where
  "enc_config config = (case config of Some c \<Rightarrow> 1 # write_blob c | None \<Rightarrow> [0])"

definition dec_config :: "bytes \<Rightarrow> nat \<Rightarrow> (bytes option \<times> nat) option" where
  "dec_config data pos =
     (if length data \<le> pos then None
      else do {
        has_config \<leftarrow> idx data pos;
        if has_config = 1 then do { (c, pos) \<leftarrow> read_blob data (pos + 1); Some (Some c, pos) }
        else Some (None, pos + 1) })"

section \<open>Versions\<close>

definition hex_digit :: "nat \<Rightarrow> u8" where
  "hex_digit d = (if d < 10 then of_nat (48 + d) else of_nat (87 + d))"

text \<open>\<open>{:0nx}\<close>: the \<open>n\<close> lowest hexadecimal digits, most significant first.\<close>

definition hex_pad :: "nat \<Rightarrow> 'a::len word \<Rightarrow> bytes" where
  "hex_pad n w = map (\<lambda>i. hex_digit (unat (drop_bit (4 * i) w AND 15))) (rev [0..<n])"

definition fnv1a_64 :: "bytes \<Rightarrow> u64 \<Rightarrow> u64" where
  "fnv1a_64 data offset_basis = foldl (\<lambda>hash byte. (hash XOR ucast byte) * 0x100000001b3) offset_basis data"

definition compute_version_from_bytes :: "bytes \<Rightarrow> bytes" where
  "compute_version_from_bytes data =
     hex_pad 16 (fnv1a_64 data 0xcbf29ce484222325) @ hex_pad 16 (fnv1a_64 data 0x6c62272e07bb0142)"

section \<open>The delta of one shard\<close>

datatype sync_error = TooSmall | BadMagic | BadVersion u32 | Malformed

record SegmentBundle =
  segment_id :: bytes
  bundle_files :: "bundle_file list"

record IndexDelta =
  from_version :: bytes
  to_version :: bytes
  added_segments :: "SegmentBundle list"
  removed_segment_ids :: "bytes list"
  delta_meta :: bytes
  delta_config :: "bytes option"

definition enc_bundle :: "SegmentBundle \<Rightarrow> bytes" where
  "enc_bundle b = write_string (segment_id b) @ enc_list enc_file (bundle_files b)"

definition enc_delta :: "IndexDelta \<Rightarrow> bytes" where
  "enc_delta d = write_string (from_version d) @ write_string (to_version d)
     @ enc_list enc_bundle (added_segments d)
     @ enc_list write_string (removed_segment_ids d)
     @ write_blob (delta_meta d) @ enc_config (delta_config d)"

definition serialize_delta :: "IndexDelta \<Rightarrow> bytes" where
  "serialize_delta d = bstr ''LUCID'' @ le32 1 @ enc_delta d"

definition dec_bundle :: "bytes \<Rightarrow> nat \<Rightarrow> (SegmentBundle \<times> nat) option" where
  "dec_bundle data pos = do {
     (seg_id, pos) \<leftarrow> read_string data pos;
     (files, pos) \<leftarrow> dec_list dec_file data pos;
     Some (\<lparr>segment_id = seg_id, bundle_files = files\<rparr>, pos) }"

definition dec_delta :: "bytes \<Rightarrow> nat \<Rightarrow> (IndexDelta \<times> nat) option" where
  "dec_delta data pos = do {
     (from_v, pos) \<leftarrow> read_string data pos;
     (to_v, pos) \<leftarrow> read_string data pos;
     (added, pos) \<leftarrow> dec_list dec_bundle data pos;
     (removed, pos) \<leftarrow> dec_list read_string data pos;
     (meta, pos) \<leftarrow> read_blob data pos;
     (config, pos) \<leftarrow> dec_config data pos;
     Some (\<lparr>from_version = from_v, to_version = to_v, added_segments = added, removed_segment_ids = removed,
       delta_meta = meta, delta_config = config\<rparr>, pos) }"

definition deserialize_delta :: "bytes \<Rightarrow> sync_error + IndexDelta" where
  "deserialize_delta data =
     (if length data < 9 then Inl TooSmall
      else if take 5 data \<noteq> bstr ''LUCID'' then Inl BadMagic
      else case bin_read_u32 data 5 of None \<Rightarrow> Inl Malformed
      | Some (version, pos) \<Rightarrow>
        if version \<noteq> 1 then Inl (BadVersion version)
        else case dec_delta data pos of None \<Rightarrow> Inl Malformed | Some (d, _) \<Rightarrow> Inr d)"

section \<open>The delta of several shards\<close>

record ShardedDelta =
  shard_deltas :: "(nat \<times> IndexDelta) list"
  shard_config :: "bytes option"
  sd_num_shards :: nat

definition enc_shard :: "nat \<times> IndexDelta \<Rightarrow> bytes" where
  "enc_shard = (\<lambda>(shard_id, shard_delta). le32 (u32_of shard_id) @ write_blob (serialize_delta shard_delta))"

definition enc_sharded :: "ShardedDelta \<Rightarrow> bytes" where
  "enc_sharded d = le32 (u32_of (sd_num_shards d)) @ enc_config (shard_config d) @ enc_list enc_shard (shard_deltas d)"

definition serialize_sharded_delta :: "ShardedDelta \<Rightarrow> bytes" where
  "serialize_sharded_delta d = bstr ''LUCIDS'' @ le32 1 @ enc_sharded d"

definition dec_shard :: "bytes \<Rightarrow> nat \<Rightarrow> ((nat \<times> IndexDelta) \<times> nat) option" where
  "dec_shard data pos = do {
     (shard_id, pos) \<leftarrow> bin_read_u32 data pos;
     (blob, pos) \<leftarrow> read_blob data pos;
     case deserialize_delta blob of Inl _ \<Rightarrow> None | Inr shard_delta \<Rightarrow> Some ((unat shard_id, shard_delta), pos) }"

definition dec_sharded :: "bytes \<Rightarrow> nat \<Rightarrow> (ShardedDelta \<times> nat) option" where
  "dec_sharded data pos = do {
     (n, pos) \<leftarrow> bin_read_u32 data pos;
     (config, pos) \<leftarrow> dec_config data pos;
     (deltas, pos) \<leftarrow> dec_list dec_shard data pos;
     Some (\<lparr>shard_deltas = deltas, shard_config = config, sd_num_shards = unat n\<rparr>, pos) }"

definition deserialize_sharded_delta :: "bytes \<Rightarrow> sync_error + ShardedDelta" where
  "deserialize_sharded_delta data =
     (if length data < 14 then Inl TooSmall
      else if take 6 data \<noteq> bstr ''LUCIDS'' then Inl BadMagic
      else case bin_read_u32 data 6 of None \<Rightarrow> Inl Malformed
      | Some (version, pos) \<Rightarrow>
        if version \<noteq> 1 then Inl (BadVersion version)
        else case dec_sharded data pos of None \<Rightarrow> Inl Malformed | Some (d, _) \<Rightarrow> Inr d)"

section \<open>Snapshots\<close>

record SnapshotIndex =
  index_path :: bytes
  index_files :: "bundle_file list"

record ImportedSnapshot =
  snap_root_files :: "bundle_file list"
  snap_indexes :: "SnapshotIndex list"
  snap_is_sharded :: bool

definition enc_index :: "SnapshotIndex \<Rightarrow> bytes" where
  "enc_index i = write_string (index_path i) @ enc_list enc_file (index_files i)"

definition enc_roots :: "bundle_file list \<Rightarrow> bytes" where
  "enc_roots root_files = (if root_files \<noteq> [] then 1 # enc_list enc_file root_files else [0])"

definition export_snapshot_sharded :: "SnapshotIndex list \<Rightarrow> bundle_file list \<Rightarrow> bytes" where
  "export_snapshot_sharded indexes root_files =
     bstr ''LUCE'' @ le32 2 @ enc_roots root_files @ enc_list enc_index indexes"

definition export_snapshot :: "SnapshotIndex list \<Rightarrow> bytes" where
  "export_snapshot indexes = export_snapshot_sharded indexes []"

record SnapshotEntry =
  entry_name :: bytes
  entry_offset :: nat
  entry_len :: nat

record SnapshotManifest =
  man_is_sharded :: bool
  man_root_files :: "SnapshotEntry list"
  man_indexes :: "(bytes \<times> SnapshotEntry list) list"
  man_end :: nat

definition dec_entry :: "bytes \<Rightarrow> nat \<Rightarrow> (SnapshotEntry \<times> nat) option" where
  "dec_entry data pos = do {
     (name, pos) \<leftarrow> read_string data pos;
     (len, pos) \<leftarrow> bin_read_u32 data pos;
     if length data < pos + unat len then None
     else Some (\<lparr>entry_name = name, entry_offset = pos, entry_len = unat len\<rparr>, pos + unat len) }"

text \<open>\<open>read_manifest\<close>: its walk over the flag, the root files and the indexes.\<close>

definition man_roots :: "u32 \<Rightarrow> bytes \<Rightarrow> nat \<Rightarrow> ((bool \<times> SnapshotEntry list) \<times> nat) option" where
  "man_roots version data pos =
     (if version = 1 then Some ((False, []), pos)
      else if length data \<le> pos then None
      else do {
        flag \<leftarrow> idx data pos;
        if flag = 1 then do {
          (num_root, pos) \<leftarrow> bin_read_u32 data (pos + 1);
          (files, pos) \<leftarrow> dec_many dec_entry (unat num_root) data pos;
          Some ((True, files), pos) }
        else Some ((False, []), pos + 1) })"

definition man_index :: "bytes \<Rightarrow> nat \<Rightarrow> ((bytes \<times> SnapshotEntry list) \<times> nat) option" where
  "man_index data pos = do {
     (path, pos) \<leftarrow> read_string data pos;
     (num_files, pos) \<leftarrow> bin_read_u32 data pos;
     (files, pos) \<leftarrow> dec_many dec_entry (unat num_files) data pos;
     Some ((path, files), pos) }"

definition read_manifest :: "bytes \<Rightarrow> sync_error + SnapshotManifest" where
  "read_manifest data =
     (if length data < 12 then Inl TooSmall
      else if take 4 data \<noteq> bstr ''LUCE'' then Inl BadMagic
      else case bin_read_u32 data 4 of None \<Rightarrow> Inl Malformed
      | Some (version, pos) \<Rightarrow>
        if version \<noteq> 1 \<and> version \<noteq> 2 then Inl (BadVersion version)
        else case (do {
            ((sharded, roots), pos) \<leftarrow> man_roots version data pos;
            (num_indexes, pos) \<leftarrow> bin_read_u32 data pos;
            (indexes, pos) \<leftarrow> dec_many man_index (unat num_indexes) data pos;
            Some \<lparr>man_is_sharded = sharded, man_root_files = roots, man_indexes = indexes, man_end = pos\<rparr> }) of
          None \<Rightarrow> Inl Malformed | Some m \<Rightarrow> Inr m)"

text \<open>\<open>import_snapshot\<close>: its own walk, which copies.\<close>

definition imp_root_file :: "bytes \<Rightarrow> nat \<Rightarrow> (bundle_file \<times> nat) option" where
  "imp_root_file data pos = do {
     (name, pos) \<leftarrow> read_string data pos;
     (data_len, pos) \<leftarrow> bin_read_u32 data pos;
     if length data < pos + unat data_len then None
     else do {
       d \<leftarrow> slice data pos (pos + unat data_len);
       Some ((name, d), pos + unat data_len) } }"

definition imp_roots :: "u32 \<Rightarrow> bytes \<Rightarrow> nat \<Rightarrow> ((bool \<times> bundle_file list) \<times> nat) option" where
  "imp_roots version data pos =
     (if version = 1 then Some ((False, []), pos)
      else if length data \<le> pos then None
      else do {
        flag \<leftarrow> idx data pos;
        if flag = 1 then do {
          (num_root, pos) \<leftarrow> bin_read_u32 data (pos + 1);
          (files, pos) \<leftarrow> dec_many imp_root_file (unat num_root) data pos;
          Some ((True, files), pos) }
        else Some ((False, []), pos + 1) })"

definition imp_file :: "bytes \<Rightarrow> nat \<Rightarrow> (bundle_file \<times> nat) option" where
  "imp_file data pos = do {
     (name, pos) \<leftarrow> read_string data pos;
     (data_len, pos) \<leftarrow> bin_read_u32 data pos;
     if length data < pos + unat data_len then None
     else do {
       d \<leftarrow> slice data pos (pos + unat data_len);
       Some ((name, d), pos + unat data_len) } }"

definition imp_index :: "bytes \<Rightarrow> nat \<Rightarrow> (SnapshotIndex \<times> nat) option" where
  "imp_index data pos = do {
     (path, pos) \<leftarrow> read_string data pos;
     (num_files, pos) \<leftarrow> bin_read_u32 data pos;
     (files, pos) \<leftarrow> dec_many imp_file (unat num_files) data pos;
     Some (\<lparr>index_path = path, index_files = files\<rparr>, pos) }"

definition import_snapshot :: "bytes \<Rightarrow> sync_error + ImportedSnapshot" where
  "import_snapshot data =
     (if length data < 12 then Inl TooSmall
      else if take 4 data \<noteq> bstr ''LUCE'' then Inl BadMagic
      else case bin_read_u32 data 4 of None \<Rightarrow> Inl Malformed
      | Some (version, pos) \<Rightarrow>
        if version \<noteq> 1 \<and> version \<noteq> 2 then Inl (BadVersion version)
        else case (do {
            ((sharded, roots), pos) \<leftarrow> imp_roots version data pos;
            (num_indexes, pos) \<leftarrow> bin_read_u32 data pos;
            (indexes, pos) \<leftarrow> dec_many imp_index (unat num_indexes) data pos;
            Some \<lparr>snap_root_files = roots, snap_indexes = indexes, snap_is_sharded = sharded\<rparr> }) of
          None \<Rightarrow> Inl Malformed | Some s \<Rightarrow> Inr s)"

section \<open>Codecs that refuse every truncation\<close>

lemma strict_prefix_append:
  "strict_prefix p (a @ b) \<Longrightarrow> strict_prefix p a \<or> (\<exists>q. p = a @ q \<and> strict_prefix q b)"
  by (auto simp: strict_prefix_def prefix_append)

locale tight_codec = codec +
  assumes dec_short: "ok v \<Longrightarrow> strict_prefix p (enc v) \<Longrightarrow> dec (pre @ p) (length pre) = None"
begin

lemma dec_many_short:
  assumes "\<forall>v \<in> set vs. ok v" and "strict_prefix p (concat (map enc vs))"
  shows "dec_many dec (length vs) (pre @ p) (length pre) = None"
  using assms
proof (induction vs arbitrary: p pre)
  case (Cons v vs)
  from Cons.prems(2) strict_prefix_append consider "strict_prefix p (enc v)"
    | q where "p = enc v @ q" "strict_prefix q (concat (map enc vs))" by force
  then show ?case
  proof cases
    case 1
    then show ?thesis using dec_short [of v p pre] Cons.prems(1) by simp
  next
    case 2
    have "dec_many dec (length vs) ((pre @ enc v) @ q) (length (pre @ enc v)) = None"
      using Cons.IH [OF _ 2(2), of "pre @ enc v"] Cons.prems(1) by auto
    then show ?thesis using 2(1) dec_enc [of v pre q] Cons.prems(1) by simp
  qed
qed simp

end

text \<open>Two such codecs in sequence, and a codec seen through a bijection, are such codecs.\<close>

locale tight_pair = t1: tight_codec e1 d1 ok1 + t2: tight_codec e2 d2 ok2
  for e1 :: "'a \<Rightarrow> bytes" and d1 ok1 and e2 :: "'b \<Rightarrow> bytes" and d2 ok2

sublocale tight_pair \<subseteq> codec_pair ..

sublocale tight_pair \<subseteq> tight: tight_codec "enc_pair e1 e2" "dec_pair d1 d2" "\<lambda>(a, b). ok1 a \<and> ok2 b"
proof (unfold_locales, goal_cases)
  case (1 v p pre)
  obtain a b where v: "v = (a, b)" by (cases v)
  from 1(2) v strict_prefix_append consider "strict_prefix p (e1 a)" | q where "p = e1 a @ q" "strict_prefix q (e2 b)"
    by (force simp: enc_pair_def)
  then show ?case
  proof cases
    case 1
    then show ?thesis using t1.dec_short [of a p pre] \<open>case v of (a, b) \<Rightarrow> ok1 a \<and> ok2 b\<close> v by (simp add: dec_pair_def)
  next
    case 2
    have "d2 ((pre @ e1 a) @ q) (length (pre @ e1 a)) = None" using t2.dec_short [OF _ 2(2)] 1(1) v by blast
    then show ?thesis using 2(1) t1.dec_enc [of a pre q] 1(1) v by (simp add: dec_pair_def)
  qed
qed

definition dec_via :: "('a \<Rightarrow> 'b) \<Rightarrow> (bytes \<Rightarrow> nat \<Rightarrow> ('a \<times> nat) option) \<Rightarrow> bytes \<Rightarrow> nat \<Rightarrow> ('b \<times> nat) option" where
  "dec_via f d data pos = map_option (map_prod f id) (d data pos)"

locale tight_via = base: tight_codec e d ok for e :: "'a \<Rightarrow> bytes" and d ok +
  fixes mk :: "'a \<Rightarrow> 'b" and un :: "'b \<Rightarrow> 'a"
  assumes mk_un: "ok (un x) \<Longrightarrow> mk (un x) = x"

sublocale tight_via \<subseteq> via: tight_codec "\<lambda>x. e (un x)" "dec_via mk d" "\<lambda>x. ok (un x)"
  by unfold_locales (simp_all add: dec_via_def base.dec_enc base.enc_nonempty base.dec_short mk_un)

section \<open>Strings, blobs and runs are such codecs\<close>

lemma bin_read_u32_append: "bin_read_u32 (pre @ le32 v @ post) (length pre) = Some (v, length pre + 4)"
  using read_le_middle [of "length pre" pre 4 "le32 v" post, where ?'a = 32] by (simp add: bin_read_u32_def)

lemma bin_read_u32_short: "length p < 4 \<Longrightarrow> bin_read_u32 (pre @ p) (length pre) = None"
  by (simp add: bin_read_u32_def)

lemma strict_prefix_length: "strict_prefix p xs \<Longrightarrow> length p < length xs"
  by (rule prefix_length_less)

lemma to_le_nonempty [simp]: "0 < n \<Longrightarrow> to_le n w \<noteq> []"
  by (metis length_to_le list.size(3) less_irrefl)

interpretation b32: tight_codec le32 bin_read_u32 "\<lambda>_. True"
proof (unfold_locales, goal_cases)
  case (1 v pre post)
  then show ?case by (simp add: bin_read_u32_append)
next
  case (3 v p pre)
  then show ?case using strict_prefix_length [OF 3(2)] by (simp add: bin_read_u32_short)
qed simp

text \<open>What a \<open>String\<close> that fits its 32-bit length is, and a blob.\<close>

definition is_str :: "bytes \<Rightarrow> bool" where
  "is_str s \<longleftrightarrow> utf8 s \<and> length s < 2 ^ 32"

definition fits32 :: "'a list \<Rightarrow> bool" where
  "fits32 d \<longleftrightarrow> length d < 2 ^ 32"

lemma slice_behind: "slice (pre @ a @ xs @ post) (length pre + length a) (length pre + length a + length xs) = Some xs"
  using slice_middle [of _ "pre @ a" _ xs post] by simp

lemma sized_short:
  assumes "strict_prefix p (le32 (u32_of (length d)) @ d)" "length d < 2 ^ 32"
  shows "bin_read_u32 (pre @ p) (length pre) = None
    \<or> (bin_read_u32 (pre @ p) (length pre) = Some (u32_of (length d), length pre + 4) \<and> length (pre @ p) < length pre + 4 + length d)"
  using strict_prefix_append [OF assms(1)]
proof
  assume "strict_prefix p (le32 (u32_of (length d)))"
  then show ?thesis using b32.dec_short by blast
next
  assume "\<exists>q. p = le32 (u32_of (length d)) @ q \<and> strict_prefix q d"
  then obtain q where "p = le32 (u32_of (length d)) @ q" "length q < length d" using strict_prefix_length by blast
  then show ?thesis by (simp add: bin_read_u32_append)
qed

interpretation blob: tight_codec write_blob read_blob fits32
proof (unfold_locales, goal_cases)
  case (1 v pre post)
  then show ?case using slice_behind [of pre "le32 (u32_of (length v))" v post]
    by (simp add: read_blob_def write_blob_def fits32_def bin_read_u32_append add.assoc)
next
  case (3 v p pre)
  then show ?case using sized_short [of p v pre] by (auto simp: read_blob_def write_blob_def fits32_def)
qed (simp add: write_blob_def)

interpretation str: tight_codec write_string read_string is_str
proof (unfold_locales, goal_cases)
  case (1 v pre post)
  then show ?case using slice_behind [of pre "le32 (u32_of (length v))" v post]
    by (simp add: read_string_def write_string_def is_str_def bin_read_u32_append add.assoc)
next
  case (3 v p pre)
  then show ?case using sized_short [of p v pre] by (auto simp: read_string_def write_string_def is_str_def)
qed (simp add: write_string_def)

locale tight_list = el: tight_codec e d ok for e :: "'a \<Rightarrow> bytes" and d ok

sublocale tight_list \<subseteq> list: tight_codec "enc_list e" "dec_list d" "\<lambda>xs. fits32 xs \<and> (\<forall>x \<in> set xs. ok x)"
proof (unfold_locales, goal_cases)
  case (1 xs pre post)
  let ?n = "le32 (u32_of (length xs))" and ?b = "concat (map e xs)"
  have "drop (length pre + 4) (pre @ ?n @ ?b @ post) = ?b @ post" by simp
  from el.dec_many_at(1) [OF _ this] 1
  show ?case by (simp add: dec_list_def enc_list_def fits32_def bin_read_u32_append)
next
  case (3 xs p pre)
  let ?n = "le32 (u32_of (length xs))" and ?b = "concat (map e xs)"
  from 3(2) strict_prefix_append consider "strict_prefix p ?n" | q where "p = ?n @ q" "strict_prefix q ?b"
    by (force simp: enc_list_def)
  then show ?case
  proof cases
    case 1
    then show ?thesis using b32.dec_short [OF TrueI, of p _ pre] by (simp add: dec_list_def)
  next
    case 2
    have "dec_many d (length xs) ((pre @ ?n) @ q) (length (pre @ ?n)) = None" using el.dec_many_short [OF _ 2(2)] 3(1) by blast
    then show ?thesis using 2(1) 3(1) by (simp add: dec_list_def fits32_def bin_read_u32_append)
  qed
qed (simp add: enc_list_def)

lemma dec_config_flag: "dec_config (pre @ flag # post) (length pre) =
    (if flag = 1 then map_option (map_prod Some id) (read_blob ((pre @ [flag]) @ post) (length (pre @ [flag]))) else Some (None, length pre + 1))"
  by (cases "read_blob (pre @ 1 # post) (Suc (length pre))") (auto simp: dec_config_def idx_def)

definition config_ok :: "bytes option \<Rightarrow> bool" where
  "config_ok c \<longleftrightarrow> (case c of Some d \<Rightarrow> fits32 d | None \<Rightarrow> True)"

interpretation config: tight_codec enc_config dec_config config_ok
proof (unfold_locales, goal_cases)
  case (1 v pre post)
  show ?case
  proof (cases v)
    case None
    then show ?thesis using dec_config_flag [of pre 0 post] by (simp add: enc_config_def)
  next
    case (Some c)
    then show ?thesis using 1 blob.dec_enc [of c "pre @ [1]" post] dec_config_flag [of pre 1 "write_blob c @ post"]
      by (simp add: enc_config_def config_ok_def)
  qed
next
  case (2 v)
  then show ?case by (auto simp: enc_config_def split: option.splits)
next
  case (3 v p pre)
  show ?case
  proof (cases p)
    case Nil
    then show ?thesis by (simp add: dec_config_def)
  next
    case (Cons flag q)
    then obtain c where "v = Some c" "flag = 1" "strict_prefix q (write_blob c)" "fits32 c"
      using 3 by (auto simp: enc_config_def config_ok_def split: option.splits)
    then show ?thesis using Cons blob.dec_short [of c q "pre @ [1]"] dec_config_flag [of pre 1 q] by simp
  qed
qed

section \<open>Deltas\<close>

text \<open>The closure properties as rules; the last one passes to equal functions.\<close>

context tight_pair
begin

lemma tight_pair_tight: "tight_codec (enc_pair e1 e2) (dec_pair d1 d2) (\<lambda>(a, b). ok1 a \<and> ok2 b)" ..

end

context tight_list
begin

lemma tight_list_tight: "tight_codec (enc_list e) (dec_list d) (\<lambda>xs. fits32 xs \<and> (\<forall>x \<in> set xs. ok x))" ..

end

context tight_via
begin

lemma tight_via_tight: "tight_codec (\<lambda>x. e (un x)) (dec_via mk d) (\<lambda>x. ok (un x))" ..

end

lemma tight_pairI:
  assumes "tight_codec e1 d1 ok1" and "tight_codec e2 d2 ok2"
  shows "tight_codec (enc_pair e1 e2) (dec_pair d1 d2) (\<lambda>(a, b). ok1 a \<and> ok2 b)"
  using tight_pair.tight_pair_tight tight_pair.intro assms by blast

lemma tight_listI:
  assumes "tight_codec e d ok"
  shows "tight_codec (enc_list e) (dec_list d) (\<lambda>xs. fits32 xs \<and> (\<forall>x \<in> set xs. ok x))"
  using tight_list.tight_list_tight tight_list.intro assms by blast

lemma tight_viaI:
  assumes "tight_codec e d ok" and "\<And>x. ok (un x) \<Longrightarrow> mk (un x) = x"
  shows "tight_codec (\<lambda>x. e (un x)) (dec_via mk d) (\<lambda>x. ok (un x))"
  using assms by (intro tight_via.tight_via_tight tight_via.intro tight_via_axioms.intro) auto

lemma tight_codecI:
  assumes "tight_codec e d ok" and "\<And>v. ok' v = ok v" and "\<And>v. e' v = e v" and "\<And>data pos. d' data pos = d data pos"
  shows "tight_codec e' d' ok'"
proof -
  have "e' = e" "ok' = ok" "d' = d" using assms(2-4) by blast+
  with assms(1) show ?thesis by simp
qed

lemmas tight_rules = tight_pairI tight_listI str.tight_codec_axioms blob.tight_codec_axioms
  config.tight_codec_axioms b32.tight_codec_axioms

section \<open>Deltas\<close>

definition files_ok :: "bundle_file list \<Rightarrow> bool" where
  "files_ok fs \<longleftrightarrow> fits32 fs \<and> (\<forall>(name, d) \<in> set fs. is_str name \<and> fits32 d)"

definition bundle_ok :: "SegmentBundle \<Rightarrow> bool" where
  "bundle_ok b \<longleftrightarrow> is_str (segment_id b) \<and> files_ok (bundle_files b)"

definition delta_ok :: "IndexDelta \<Rightarrow> bool" where
  "delta_ok d \<longleftrightarrow> is_str (from_version d) \<and> is_str (to_version d)
     \<and> fits32 (added_segments d) \<and> (\<forall>b \<in> set (added_segments d). bundle_ok b)
     \<and> fits32 (removed_segment_ids d) \<and> (\<forall>s \<in> set (removed_segment_ids d). is_str s)
     \<and> fits32 (delta_meta d) \<and> config_ok (delta_config d)"

interpretation bfile: tight_codec enc_file dec_file "\<lambda>(name, d). is_str name \<and> fits32 d"
  unfolding enc_file_def dec_file_def by (intro tight_rules)

interpretation bfiles: tight_codec "enc_list enc_file" "dec_list dec_file" files_ok
  by (rule tight_codecI [OF tight_listI [OF bfile.tight_codec_axioms]]) (simp_all add: files_ok_def)

lemmas via_simps = dec_via_def dec_pair_def enc_pair_def map_option_bind bind_map_option

interpretation bndl: tight_codec enc_bundle dec_bundle bundle_ok
  by (rule tight_codecI [OF tight_viaI [OF tight_pairI [OF str.tight_codec_axioms bfiles.tight_codec_axioms],
        where un = "\<lambda>b. (segment_id b, bundle_files b)" and mk = "\<lambda>(s, fs). \<lparr>segment_id = s, bundle_files = fs\<rparr>"]])
    (auto simp: bundle_ok_def enc_bundle_def dec_bundle_def via_simps intro!: bind_option_cong)

interpretation delta: tight_codec enc_delta dec_delta delta_ok
  by (rule tight_codecI [OF tight_viaI [OF tight_pairI [OF str.tight_codec_axioms
        tight_pairI [OF str.tight_codec_axioms tight_pairI [OF tight_listI [OF bndl.tight_codec_axioms]
        tight_pairI [OF tight_listI [OF str.tight_codec_axioms] tight_pairI [OF blob.tight_codec_axioms config.tight_codec_axioms]]]]],
        where un = "\<lambda>d. (from_version d, to_version d, added_segments d, removed_segment_ids d, delta_meta d, delta_config d)"
          and mk = "\<lambda>(f, t, a, r, m, c). \<lparr>from_version = f, to_version = t, added_segments = a, removed_segment_ids = r,
            delta_meta = m, delta_config = c\<rparr>"]])
    (auto simp: delta_ok_def enc_delta_def dec_delta_def via_simps intro!: bind_option_cong)

text \<open>A file is a header and a body: it is read back, and no proper prefix is.\<close>

lemma header_read: "length magic = n \<Longrightarrow> bin_read_u32 (magic @ le32 v @ post) n = Some (v, n + 4)"
  using bin_read_u32_append [of magic v post] by simp

lemma header_prefix:
  assumes "strict_prefix p (magic @ le32 v @ body)" and "length magic + 4 \<le> length p"
  obtains q where "p = magic @ le32 v @ q" "strict_prefix q body"
  using strict_prefix_append [of p "magic @ le32 v" body] assms strict_prefix_length [of p "magic @ le32 v"] by auto

lemma delta_round_trip:
  assumes "delta_ok d"
  shows "deserialize_delta (serialize_delta d @ post) = Inr d"
  using header_read [of "bstr ''LUCID''" 5 1 "enc_delta d @ post"] delta.dec_enc [OF assms, of "bstr ''LUCID'' @ le32 1" post]
  by (simp add: deserialize_delta_def serialize_delta_def)

lemma delta_truncated:
  assumes "delta_ok d" and p: "strict_prefix p (serialize_delta d)"
  shows "\<exists>e. deserialize_delta p = Inl e"
proof (cases "length p < 9")
  case False
  with p obtain q where q: "p = bstr ''LUCID'' @ le32 1 @ q" "strict_prefix q (enc_delta d)"
    using header_prefix [of p "bstr ''LUCID''" 1 "enc_delta d"] by (auto simp: serialize_delta_def)
  then show ?thesis using False header_read [of "bstr ''LUCID''" 5 1 q] delta.dec_short [OF assms(1) q(2), of "bstr ''LUCID'' @ le32 1"]
    by (simp add: deserialize_delta_def)
qed (simp add: deserialize_delta_def)

section \<open>Sharded deltas\<close>

definition sharded_ok :: "ShardedDelta \<Rightarrow> bool" where
  "sharded_ok d \<longleftrightarrow> sd_num_shards d < 2 ^ 32 \<and> config_ok (shard_config d) \<and> fits32 (shard_deltas d)
     \<and> (\<forall>(i, s) \<in> set (shard_deltas d). i < 2 ^ 32 \<and> delta_ok s \<and> fits32 (serialize_delta s))"

interpretation count: tight_codec "\<lambda>n. le32 (u32_of n)" "dec_via unat bin_read_u32" "\<lambda>n. n < 2 ^ 32"
proof (unfold_locales, goal_cases)
  case (3 v p pre)
  then show ?case using b32.dec_short [OF TrueI, of p _ pre] by (simp add: dec_via_def)
qed (simp_all add: dec_via_def bin_read_u32_append)

definition dec_delta_blob :: "bytes \<Rightarrow> nat \<Rightarrow> (IndexDelta \<times> nat) option" where
  "dec_delta_blob data pos = do {
     (b, pos) \<leftarrow> read_blob data pos;
     case deserialize_delta b of Inl _ \<Rightarrow> None | Inr d \<Rightarrow> Some (d, pos) }"

interpretation dblob: tight_codec "\<lambda>d. write_blob (serialize_delta d)" dec_delta_blob "\<lambda>d. delta_ok d \<and> fits32 (serialize_delta d)"
proof (unfold_locales, goal_cases)
  case (1 v pre post)
  then show ?case using delta_round_trip [of v "[]"] by (simp add: dec_delta_blob_def blob.dec_enc)
next
  case (3 v p pre)
  then show ?case using blob.dec_short [of "serialize_delta v" p pre] by (simp add: dec_delta_blob_def)
qed (simp add: blob.enc_nonempty)

interpretation shard: tight_codec enc_shard dec_shard "\<lambda>(i, s). i < 2 ^ 32 \<and> delta_ok s \<and> fits32 (serialize_delta s)"
  by (rule tight_codecI [OF tight_pairI [OF count.tight_codec_axioms dblob.tight_codec_axioms]])
    (auto simp: enc_shard_def dec_shard_def dec_delta_blob_def via_simps split: sum.split intro!: bind_option_cong)

interpretation sharded: tight_codec enc_sharded dec_sharded sharded_ok
  by (rule tight_codecI [OF tight_viaI [OF tight_pairI [OF count.tight_codec_axioms
        tight_pairI [OF config.tight_codec_axioms tight_listI [OF shard.tight_codec_axioms]]],
        where un = "\<lambda>d. (sd_num_shards d, shard_config d, shard_deltas d)"
          and mk = "\<lambda>(n, c, ds). \<lparr>shard_deltas = ds, shard_config = c, sd_num_shards = n\<rparr>"]])
    (auto simp: sharded_ok_def enc_sharded_def dec_sharded_def via_simps intro!: bind_option_cong)

lemma sharded_round_trip:
  assumes "sharded_ok d"
  shows "deserialize_sharded_delta (serialize_sharded_delta d @ post) = Inr d"
  using header_read [of "bstr ''LUCIDS''" 6 1 "enc_sharded d @ post"] sharded.dec_enc [OF assms, of "bstr ''LUCIDS'' @ le32 1" post]
  by (simp add: deserialize_sharded_delta_def serialize_sharded_delta_def enc_sharded_def)

lemma sharded_truncated:
  assumes "sharded_ok d" and p: "strict_prefix p (serialize_sharded_delta d)"
  shows "\<exists>e. deserialize_sharded_delta p = Inl e"
proof (cases "length p < 14")
  case False
  with p obtain q where q: "p = bstr ''LUCIDS'' @ le32 1 @ q" "strict_prefix q (enc_sharded d)"
    using header_prefix [of p "bstr ''LUCIDS''" 1 "enc_sharded d"] by (auto simp: serialize_sharded_delta_def)
  then show ?thesis using False header_read [of "bstr ''LUCIDS''" 6 1 q] sharded.dec_short [OF assms(1) q(2), of "bstr ''LUCIDS'' @ le32 1"]
    by (simp add: deserialize_sharded_delta_def)
qed (simp add: deserialize_sharded_delta_def)

section \<open>Snapshots are read back\<close>

text \<open>The walks in terms of the readers of runs.\<close>

lemma imp_file_dec: "imp_file = dec_file" "imp_root_file = dec_file"
  by (intro ext; auto simp: imp_file_def imp_root_file_def dec_file_def dec_pair_def read_blob_def intro!: bind_option_cong)+

lemma imp_roots_list: "imp_roots version data pos =
    (if version = 1 then Some ((False, []), pos) else if length data \<le> pos then None
     else do { flag \<leftarrow> idx data pos;
       if flag = 1 then do { (files, pos) \<leftarrow> dec_list dec_file data (pos + 1); Some ((True, files), pos) } else Some ((False, []), pos + 1) })"
  by (auto simp: imp_roots_def imp_file_dec dec_list_def intro!: bind_option_cong)

lemma imp_index_list: "imp_index = dec_via (\<lambda>(p, fs). \<lparr>index_path = p, index_files = fs\<rparr>) (dec_pair read_string (dec_list dec_file))"
  by (intro ext) (auto simp: imp_index_def imp_file_dec dec_list_def dec_via_def dec_pair_def map_option_bind intro!: bind_option_cong)

definition roots_ok :: "bool \<times> bundle_file list \<Rightarrow> bool" where
  "roots_ok = (\<lambda>(sharded, fs). sharded = (fs \<noteq> []) \<and> files_ok fs)"

lemma imp_roots_flag: "imp_roots 2 (pre @ flag # post) (length pre) =
    (if flag = 1 then map_option (map_prod (Pair True) id) (dec_list dec_file ((pre @ [flag]) @ post) (length (pre @ [flag])))
     else Some ((False, []), length pre + 1))"
  by (cases "dec_list dec_file (pre @ 1 # post) (Suc (length pre))") (auto simp: imp_roots_list idx_def)

interpretation roots: tight_codec "\<lambda>(_, fs). enc_roots fs" "imp_roots 2" roots_ok
proof (unfold_locales, goal_cases)
  case (1 v pre post)
  obtain fs where v: "v = (fs \<noteq> [], fs)" "files_ok fs" using 1 by (auto simp: roots_ok_def)
  show ?case
  proof (cases "fs = []")
    case True
    then show ?thesis using v imp_roots_flag [of pre 0 post] by (simp add: enc_roots_def)
  next
    case False
    then show ?thesis using v bfiles.dec_enc [of fs "pre @ [1]" post] imp_roots_flag [of pre 1 "enc_list enc_file fs @ post"]
      by (simp add: enc_roots_def)
  qed
next
  case (2 v)
  then show ?case by (auto simp: enc_roots_def split: prod.splits)
next
  case (3 v p pre)
  obtain fs where v: "v = (fs \<noteq> [], fs)" "files_ok fs" using 3 by (auto simp: roots_ok_def)
  show ?case
  proof (cases p)
    case Nil
    then show ?thesis by (simp add: imp_roots_def)
  next
    case (Cons flag q)
    then have "flag = 1" "strict_prefix q (enc_list enc_file fs)"
      using 3(2) v by (auto simp: enc_roots_def split: if_splits)
    then show ?thesis using Cons v bfiles.dec_short [of fs q "pre @ [1]"] imp_roots_flag [of pre 1 q] by simp
  qed
qed

definition index_ok :: "SnapshotIndex \<Rightarrow> bool" where
  "index_ok i \<longleftrightarrow> is_str (index_path i) \<and> files_ok (index_files i)"

definition snapshot_ok :: "SnapshotIndex list \<Rightarrow> bundle_file list \<Rightarrow> bool" where
  "snapshot_ok indexes root_files \<longleftrightarrow> fits32 indexes \<and> (\<forall>i \<in> set indexes. index_ok i) \<and> files_ok root_files"

interpretation sindex: tight_codec enc_index imp_index index_ok
  by (rule tight_codecI [OF tight_viaI [OF tight_pairI [OF str.tight_codec_axioms bfiles.tight_codec_axioms],
        where un = "\<lambda>i. (index_path i, index_files i)" and mk = "\<lambda>(p, fs). \<lparr>index_path = p, index_files = fs\<rparr>"]])
    (auto simp: index_ok_def enc_index_def enc_pair_def imp_index_list)

definition enc_snapshot_body :: "(bool \<times> bundle_file list) \<times> SnapshotIndex list \<Rightarrow> bytes" where
  "enc_snapshot_body = enc_pair (\<lambda>(_, fs). enc_roots fs) (enc_list enc_index)"

definition body_ok :: "(bool \<times> bundle_file list) \<times> SnapshotIndex list \<Rightarrow> bool" where
  "body_ok = (\<lambda>(r, is). roots_ok r \<and> fits32 is \<and> (\<forall>i \<in> set is. index_ok i))"

interpretation snap: tight_codec enc_snapshot_body "dec_pair (imp_roots 2) (dec_list imp_index)" body_ok
  unfolding enc_snapshot_body_def body_ok_def
  by (intro tight_rules roots.tight_codec_axioms sindex.tight_codec_axioms)

abbreviation snapshot_value :: "SnapshotIndex list \<Rightarrow> bundle_file list \<Rightarrow> (bool \<times> bundle_file list) \<times> SnapshotIndex list" where
  "snapshot_value indexes root_files \<equiv> ((root_files \<noteq> [], root_files), indexes)"

lemma export_body: "export_snapshot_sharded indexes root_files = bstr ''LUCE'' @ le32 2 @ enc_snapshot_body (snapshot_value indexes root_files)"
  by (simp add: export_snapshot_sharded_def enc_snapshot_body_def enc_pair_def)

lemma body_ok_value: "snapshot_ok indexes root_files \<Longrightarrow> body_ok (snapshot_value indexes root_files)"
  by (auto simp: snapshot_ok_def body_ok_def roots_ok_def)

lemma import_body: "take 4 data = bstr ''LUCE'' \<Longrightarrow> 12 \<le> length data \<Longrightarrow> bin_read_u32 data 4 = Some (2, 8) \<Longrightarrow> import_snapshot data =
    (case dec_pair (imp_roots 2) (dec_list imp_index) data 8 of None \<Rightarrow> Inl Malformed
     | Some (((sharded, roots), indexes), _) \<Rightarrow> Inr \<lparr>snap_root_files = roots, snap_indexes = indexes, snap_is_sharded = sharded\<rparr>)"
  by (auto simp: import_snapshot_def dec_pair_def dec_list_def split: option.splits Option.bind_splits)

lemma length_export: "12 \<le> length (export_snapshot_sharded indexes root_files)"
proof -
  have "1 \<le> length (enc_roots root_files)" by (simp add: enc_roots_def)
  then show ?thesis by (simp add: export_snapshot_sharded_def enc_list_def)
qed

lemma snapshot_round_trip:
  assumes "snapshot_ok indexes root_files"
  shows "import_snapshot (export_snapshot_sharded indexes root_files @ post) =
    Inr \<lparr>snap_root_files = root_files, snap_indexes = indexes, snap_is_sharded = (root_files \<noteq> [])\<rparr>"
proof -
  let ?v = "snapshot_value indexes root_files" and ?data = "export_snapshot_sharded indexes root_files @ post"
  have "dec_pair (imp_roots 2) (dec_list imp_index) ?data 8 = Some (?v, 8 + length (enc_snapshot_body ?v))"
    using snap.dec_enc [OF body_ok_value [OF assms], of "bstr ''LUCE'' @ le32 2" post] by (simp add: export_body)
  moreover have "bin_read_u32 ?data 4 = Some (2, 8)"
    using header_read [of "bstr ''LUCE''" 4 2 "enc_snapshot_body ?v @ post"] by (simp add: export_body)
  moreover have "take 4 ?data = bstr ''LUCE''" by (simp add: export_body)
  moreover have "12 \<le> length ?data" using length_export [of indexes root_files] by simp
  ultimately show ?thesis by (simp add: import_body)
qed

lemma snapshot_truncated:
  assumes "snapshot_ok indexes root_files" and p: "strict_prefix p (export_snapshot_sharded indexes root_files)"
  shows "\<exists>e. import_snapshot p = Inl e"
proof (cases "length p < 12")
  case False
  with p obtain q where q: "p = bstr ''LUCE'' @ le32 2 @ q" "strict_prefix q (enc_snapshot_body (snapshot_value indexes root_files))"
    using header_prefix [of p "bstr ''LUCE''" 2] by (auto simp: export_body)
  have "dec_pair (imp_roots 2) (dec_list imp_index) p 8 = None"
    using snap.dec_short [OF body_ok_value [OF assms(1)] q(2), of "bstr ''LUCE'' @ le32 2"] q(1) by simp
  moreover have "bin_read_u32 p 4 = Some (2, 8)" using header_read [of "bstr ''LUCE''" 4 2 q] q(1) by simp
  moreover have "take 4 p = bstr ''LUCE''" using q(1) by simp
  ultimately show ?thesis using False by (simp add: import_body)
qed (simp add: import_snapshot_def)

section \<open>The table of contents\<close>

definition cut_file :: "bytes \<Rightarrow> SnapshotEntry \<Rightarrow> bundle_file" where
  "cut_file data e = (entry_name e, take (entry_len e) (drop (entry_offset e) data))"

definition cut_index :: "bytes \<Rightarrow> bytes \<times> SnapshotEntry list \<Rightarrow> SnapshotIndex" where
  "cut_index data = (\<lambda>(path, es). \<lparr>index_path = path, index_files = map (cut_file data) es\<rparr>)"

definition materialise :: "bytes \<Rightarrow> SnapshotManifest \<Rightarrow> ImportedSnapshot" where
  "materialise data m = \<lparr>snap_root_files = map (cut_file data) (man_root_files m),
     snap_indexes = map (cut_index data) (man_indexes m), snap_is_sharded = man_is_sharded m\<rparr>"

definition manifest_entries :: "SnapshotManifest \<Rightarrow> SnapshotEntry list" where
  "manifest_entries m = man_root_files m @ concat (map snd (man_indexes m))"

lemma dec_many_via:
  assumes "\<And>pos. d data pos = map_option (map_prod f id) (d' data pos)"
  shows "dec_many d n data pos = map_option (map_prod (map f) id) (dec_many d' n data pos)"
  by (induction n arbitrary: pos)
    (auto simp: assms map_option_bind bind_map_option split: Option.bind_splits intro!: bind_option_cong)

lemma imp_file_entry: "imp_file data pos = map_option (map_prod (cut_file data) id) (dec_entry data pos)"
  by (auto simp: imp_file_def dec_entry_def cut_file_def slice_def map_option_bind intro!: bind_option_cong)

lemma imp_files_entry:
  "dec_many imp_file n data pos = map_option (map_prod (map (cut_file data)) id) (dec_many dec_entry n data pos)"
  "dec_many imp_root_file n data pos = map_option (map_prod (map (cut_file data)) id) (dec_many dec_entry n data pos)"
  by (rule dec_many_via, simp add: imp_file_dec flip: imp_file_entry)+

lemma imp_roots_entry: "imp_roots v data pos = map_option (map_prod (map_prod id (map (cut_file data))) id) (man_roots v data pos)"
  by (auto simp: imp_roots_def man_roots_def imp_files_entry map_option_bind bind_map_option intro!: bind_option_cong)

lemma imp_index_entry: "imp_index data pos = map_option (map_prod (cut_index data) id) (man_index data pos)"
  by (auto simp: imp_index_def man_index_def imp_files_entry cut_index_def map_option_bind bind_map_option intro!: bind_option_cong)

lemma imp_indexes_entry: "dec_many imp_index n data pos = map_option (map_prod (map (cut_index data)) id) (dec_many man_index n data pos)"
  by (rule dec_many_via) (rule imp_index_entry)

lemma import_via_manifest: "import_snapshot data = map_sum id (materialise data) (read_manifest data)"
proof -
  have "(do { ((sharded, roots), pos) \<leftarrow> imp_roots v data pos; (n, pos) \<leftarrow> bin_read_u32 data pos;
      (indexes, pos) \<leftarrow> dec_many imp_index (unat n) data pos;
      Some \<lparr>snap_root_files = roots, snap_indexes = indexes, snap_is_sharded = sharded\<rparr> })
    = map_option (materialise data) (do { ((sharded, roots), pos) \<leftarrow> man_roots v data pos; (n, pos) \<leftarrow> bin_read_u32 data pos;
      (indexes, pos) \<leftarrow> dec_many man_index (unat n) data pos;
      Some \<lparr>man_is_sharded = sharded, man_root_files = roots, man_indexes = indexes, man_end = pos\<rparr> })" for v pos
    by (auto simp: imp_roots_entry imp_indexes_entry materialise_def map_option_bind bind_map_option comp_def case_prod_beta
        intro!: bind_option_cong)
  then show ?thesis by (auto simp: import_snapshot_def read_manifest_def split: option.splits)
qed

text \<open>Positions only advance, and an entry ends where its reader stops.\<close>

lemma bin_read_u32_bounds: "bin_read_u32 data pos = Some (v, pos') \<Longrightarrow> pos' = pos + 4 \<and> pos' \<le> length data"
  by (auto simp: bin_read_u32_def split: if_splits)

lemma read_string_bounds: "read_string data pos = Some (s, pos') \<Longrightarrow> pos \<le> pos' \<and> pos' \<le> length data"
  by (auto simp: read_string_def split: Option.bind_splits if_splits dest!: bin_read_u32_bounds)

definition entry_end :: "SnapshotEntry \<Rightarrow> nat" where
  "entry_end e = entry_offset e + entry_len e"

lemma dec_entry_bounds: "dec_entry data pos = Some (e, pos') \<Longrightarrow> pos \<le> pos' \<and> pos' \<le> length data \<and> entry_end e \<le> pos'"
  by (auto simp: dec_entry_def entry_end_def split: Option.bind_splits if_splits dest!: bin_read_u32_bounds read_string_bounds)

lemma dec_many_bounds:
  assumes "\<And>pos x pos'. d data pos = Some (x, pos') \<Longrightarrow> pos \<le> pos' \<and> pos' \<le> length data \<and> P pos' x"
    and mono: "\<And>p q x. p \<le> q \<Longrightarrow> P p x \<Longrightarrow> P q x"
  shows "dec_many d n data pos = Some (xs, pos') \<Longrightarrow> pos \<le> length data \<Longrightarrow> pos \<le> pos' \<and> pos' \<le> length data \<and> (\<forall>x \<in> set xs. P pos' x)"
proof (induction n arbitrary: pos xs)
  case (Suc n)
  then obtain x p ys where x: "d data pos = Some (x, p)" and ys: "dec_many d n data p = Some (ys, pos')" and xs: "xs = x # ys"
    by (auto split: Option.bind_splits)
  have b: "pos \<le> p" "p \<le> length data" "P p x" using assms(1) [OF x] by auto
  have "p \<le> pos' \<and> pos' \<le> length data \<and> (\<forall>x \<in> set ys. P pos' x)" using Suc.IH [OF ys b(2)] .
  then show ?case using b xs mono [of p pos' x] by auto
qed simp

lemma counted_bounds:
  assumes "\<And>pos x pos'. d data pos = Some (x, pos') \<Longrightarrow> pos \<le> pos' \<and> pos' \<le> length data \<and> P pos' x"
    and "\<And>p q x. p \<le> q \<Longrightarrow> P p x \<Longrightarrow> P q x"
    and n: "bin_read_u32 data pos = Some (n, p)" and d: "dec_many d (unat n) data p = Some (xs, pos')"
  shows "pos \<le> pos' \<and> pos' \<le> length data \<and> (\<forall>x \<in> set xs. P pos' x)"
proof -
  have "p \<le> pos' \<and> pos' \<le> length data \<and> (\<forall>x \<in> set xs. P pos' x)"
    by (rule dec_many_bounds [OF assms(1,2) d]) (use bin_read_u32_bounds [OF n] in auto)
  then show ?thesis using bin_read_u32_bounds [OF n] by auto
qed

lemma entries_bounds:
  assumes "bin_read_u32 data pos = Some (n, p)" and "dec_many dec_entry (unat n) data p = Some (es, pos')"
  shows "pos \<le> pos' \<and> pos' \<le> length data \<and> (\<forall>e \<in> set es. entry_end e \<le> pos')"
  by (rule counted_bounds [OF _ _ assms, where P = "\<lambda>p e. entry_end e \<le> p"]) (auto dest: dec_entry_bounds)

lemma man_index_bounds:
  assumes "man_index data pos = Some (i, pos')"
  shows "pos \<le> pos' \<and> pos' \<le> length data \<and> (\<forall>e \<in> set (snd i). entry_end e \<le> pos')"
proof -
  from assms obtain path p1 n p2 where "read_string data pos = Some (path, p1)" "bin_read_u32 data p1 = Some (n, p2)"
    "dec_many dec_entry (unat n) data p2 = Some (snd i, pos')" by (auto simp: man_index_def split: Option.bind_splits)
  then show ?thesis using entries_bounds read_string_bounds by (meson order_trans)
qed

lemma indexes_bounds:
  assumes "bin_read_u32 data pos = Some (n, p)" and "dec_many man_index (unat n) data p = Some (is, pos')"
  shows "pos \<le> pos' \<and> pos' \<le> length data \<and> (\<forall>i \<in> set is. \<forall>e \<in> set (snd i). entry_end e \<le> pos')"
  by (rule counted_bounds [OF _ _ assms, where P = "\<lambda>p i. \<forall>e \<in> set (snd i). entry_end e \<le> p"])
    (auto dest: man_index_bounds intro: order_trans)

lemma man_roots_bounds:
  assumes "man_roots v data pos = Some ((b, es), pos')"
  shows "\<forall>e \<in> set es. entry_end e \<le> pos'"
  using assms entries_bounds by (auto simp: man_roots_def split: if_splits Option.bind_splits)

lemma manifest_bounds:
  assumes "read_manifest data = Inr m"
  shows "man_end m \<le> length data \<and> (\<forall>e \<in> set (manifest_entries m). entry_end e \<le> man_end m)"
proof -
  from assms obtain v p sharded roots p1 n p2 "is" where r: "man_roots v data p = Some ((sharded, roots), p1)"
    and n: "bin_read_u32 data p1 = Some (n, p2)" and i: "dec_many man_index (unat n) data p2 = Some (is, man_end m)"
    and m: "man_root_files m = roots" "man_indexes m = is"
    by (auto simp: read_manifest_def split: if_splits option.splits Option.bind_splits)
  note b = indexes_bounds [OF n i]
  have "entry_end e \<le> man_end m" if "e \<in> set roots" for e using man_roots_bounds [OF r] b that by (meson order_trans)
  then show ?thesis using b m by (auto simp: manifest_entries_def)
qed

section \<open>What the formats promise\<close>

text \<open>The 32-bit length of a file: one of \<open>2 ^ 32\<close> bytes is exported with length 0 and comes back empty.\<close>

lemma snapshot_empties_large_file:
  assumes "is_str path" and "is_str name" and "length d = 2 ^ 32"
  shows "import_snapshot (export_snapshot [\<lparr>index_path = path, index_files = [(name, d)]\<rparr>]) =
    Inr \<lparr>snap_root_files = [], snap_indexes = [\<lparr>index_path = path, index_files = [(name, [])]\<rparr>], snap_is_sharded = False\<rparr>"
proof -
  have "u32_of (length d) = 0" using assms(3) by (simp add: word_of_nat_eq_0_iff)
  then have "export_snapshot [\<lparr>index_path = path, index_files = [(name, d)]\<rparr>]
      = export_snapshot_sharded [\<lparr>index_path = path, index_files = [(name, [])]\<rparr>] [] @ d"
    by (simp add: export_snapshot_def export_snapshot_sharded_def enc_roots_def enc_index_def enc_list_def enc_file_def enc_pair_def write_blob_def)
  moreover have "snapshot_ok [\<lparr>index_path = path, index_files = [(name, [])]\<rparr>] []"
    using assms by (simp add: snapshot_ok_def index_ok_def files_ok_def fits32_def)
  ultimately show ?thesis using snapshot_round_trip [of _ "[]" d] by simp
qed

definition demo_files :: "bundle_file list" where
  "demo_files = [(bstr ''a1.idx'', [1, 2, 3]), (bstr ''a1.7.del'', [])]"

definition demo_delta :: IndexDelta where
  "demo_delta = \<lparr>from_version = bstr ''v1'', to_version = bstr ''v2'',
     added_segments = [\<lparr>segment_id = bstr ''a1'', bundle_files = demo_files\<rparr>], removed_segment_ids = [bstr ''b2''],
     delta_meta = bstr ''{}'', delta_config = Some [9]\<rparr>"

lemma demo_files_ok: "files_ok demo_files"
  by (simp add: demo_files_def files_ok_def is_str_def fits32_def bstr_def)

lemma demo_delta_ok: "delta_ok demo_delta"
  using demo_files_ok by (simp add: demo_delta_def delta_ok_def bundle_ok_def is_str_def fits32_def bstr_def config_ok_def)

lemma strict_prefix_butlast: "xs \<noteq> [] \<Longrightarrow> strict_prefix (butlast xs) xs"
  by (metis append_butlast_last_id prefix_def prefix_order.less_le snoc_eq_iff_butlast append_self_conv not_Cons_self2)

text \<open>C5.  A delta whose strings are valid and whose lengths fit 32 bits is read back from its LUCID form exactly as
  it was, and no proper prefix of that form is read as a delta: every truncation is refused.\<close>

theorem delta_roundtrip:
  assumes "delta_ok d"
  shows "deserialize_delta (serialize_delta d) = Inr d
    \<and> (\<forall>p. strict_prefix p (serialize_delta d) \<longrightarrow> (\<exists>e. deserialize_delta p = Inl e))"
  using delta_round_trip [OF assms, of "[]"] delta_truncated [OF assms] by auto

theorem delta_roundtrip_witness:
  "deserialize_delta (serialize_delta demo_delta) = Inr demo_delta
    \<and> (\<exists>e. deserialize_delta (butlast (serialize_delta demo_delta)) = Inl e)"
proof -
  have "serialize_delta demo_delta \<noteq> []" by (simp add: serialize_delta_def bstr_def)
  then show ?thesis using delta_roundtrip [OF demo_delta_ok] strict_prefix_butlast [of "serialize_delta demo_delta"] by simp
qed

definition demo_sharded :: ShardedDelta where
  "demo_sharded = \<lparr>shard_deltas = [(2, demo_delta)], shard_config = None, sd_num_shards = 4\<rparr>"

lemma demo_sharded_ok: "sharded_ok demo_sharded"
proof -
  have "fits32 (serialize_delta demo_delta)"
    by (simp add: fits32_def serialize_delta_def enc_delta_def demo_delta_def demo_files_def write_string_def write_blob_def enc_list_def
        enc_bundle_def enc_file_def enc_pair_def enc_config_def)
  then show ?thesis using demo_delta_ok by (simp add: sharded_ok_def demo_sharded_def config_ok_def fits32_def)
qed

text \<open>C2.  A delta of several shards, each of which fits, is read back from its LUCIDS form with every shard's delta
  under its shard id, and every truncation of that form is refused.\<close>

theorem sharded_delta_roundtrip:
  assumes "sharded_ok d"
  shows "deserialize_sharded_delta (serialize_sharded_delta d) = Inr d
    \<and> (\<forall>p. strict_prefix p (serialize_sharded_delta d) \<longrightarrow> (\<exists>e. deserialize_sharded_delta p = Inl e))"
  using sharded_round_trip [OF assms, of "[]"] sharded_truncated [OF assms] by auto

theorem sharded_delta_roundtrip_witness:
  "deserialize_sharded_delta (serialize_sharded_delta demo_sharded) = Inr demo_sharded
    \<and> (\<exists>e. deserialize_sharded_delta (butlast (serialize_sharded_delta demo_sharded)) = Inl e)"
proof -
  have "serialize_sharded_delta demo_sharded \<noteq> []" by (simp add: serialize_sharded_delta_def bstr_def)
  then show ?thesis
    using sharded_delta_roundtrip [OF demo_sharded_ok] strict_prefix_butlast [of "serialize_sharded_delta demo_sharded"] by simp
qed

definition demo_indexes :: "SnapshotIndex list" where
  "demo_indexes = [\<lparr>index_path = bstr ''s0'', index_files = demo_files\<rparr>, \<lparr>index_path = bstr ''s1'', index_files = []\<rparr>]"

lemma demo_snapshot_ok: "snapshot_ok demo_indexes demo_files"
  using demo_files_ok by (simp add: snapshot_ok_def demo_indexes_def index_ok_def is_str_def fits32_def bstr_def files_ok_def)

text \<open>C15.  A snapshot is imported with the root files and the indexes it was exported from, sharded exactly when it
  has root files, and every truncation of it is refused.\<close>

theorem snapshot_roundtrip:
  assumes "snapshot_ok indexes root_files"
  shows "import_snapshot (export_snapshot_sharded indexes root_files) =
      Inr \<lparr>snap_root_files = root_files, snap_indexes = indexes, snap_is_sharded = (root_files \<noteq> [])\<rparr>
    \<and> (\<forall>p. strict_prefix p (export_snapshot_sharded indexes root_files) \<longrightarrow> (\<exists>e. import_snapshot p = Inl e))"
  using snapshot_round_trip [OF assms, of "[]"] snapshot_truncated [OF assms] by auto

theorem snapshot_roundtrip_witness:
  "import_snapshot (export_snapshot_sharded demo_indexes demo_files) =
      Inr \<lparr>snap_root_files = demo_files, snap_indexes = demo_indexes, snap_is_sharded = True\<rparr>
    \<and> (\<exists>e. import_snapshot (butlast (export_snapshot_sharded demo_indexes demo_files)) = Inl e)"
proof -
  have "export_snapshot_sharded demo_indexes demo_files \<noteq> []" by (simp add: export_snapshot_sharded_def bstr_def)
  moreover have "demo_files \<noteq> []" by (simp add: demo_files_def)
  ultimately show ?thesis using snapshot_roundtrip [OF demo_snapshot_ok]
    strict_prefix_butlast [of "export_snapshot_sharded demo_indexes demo_files"] by simp
qed

text \<open>C26.  The table of contents of a snapshot agrees with its import, which walks the blob in code of its own. On every
  blob, of either version and malformed or not, \<open>read_manifest\<close> succeeds exactly when \<open>import_snapshot\<close> does, and then
  cutting the listed ranges out of the blob gives the imported root files and indexes and the sharded flag; the
  ranges lie before the reported end, and that within the blob. The message of an error behind the header is not
  compared: the two word it differently.\<close>

theorem manifest_agrees:
  "((\<exists>m. read_manifest data = Inr m) \<longleftrightarrow> (\<exists>i. import_snapshot data = Inr i))
    \<and> (\<forall>m. read_manifest data = Inr m \<longrightarrow> import_snapshot data = Inr (materialise data m)
      \<and> man_end m \<le> length data \<and> (\<forall>e \<in> set (manifest_entries m). entry_offset e + entry_len e \<le> man_end m))"
proof -
  have "(\<exists>m. read_manifest data = Inr m) \<longleftrightarrow> (\<exists>i. import_snapshot data = Inr i)"
    by (cases "read_manifest data") (simp_all add: import_via_manifest)
  then show ?thesis using import_via_manifest [of data] manifest_bounds [of data] by (simp add: entry_end_def)
qed

theorem manifest_agrees_witness:
  "\<exists>m. read_manifest (export_snapshot_sharded demo_indexes demo_files) = Inr m
    \<and> snap_root_files (materialise (export_snapshot_sharded demo_indexes demo_files) m) = demo_files
    \<and> man_end m \<le> length (export_snapshot_sharded demo_indexes demo_files)"
  using manifest_agrees [of "export_snapshot_sharded demo_indexes demo_files"] snapshot_round_trip [OF demo_snapshot_ok, of "[]"]
  by (cases "read_manifest (export_snapshot_sharded demo_indexes demo_files)") auto

end
