(* ===== verification/SyncExport.thy ===== *)
theory SyncExport
  imports SyncFormats "HOL-Library.AList"
begin

text \<open>
  Computing and applying a delta: the \<open>DeltaExporter\<close> interface with \<open>export_delta_from\<close>
  (\<open>src/lucistore/src/delta.rs\<close>), and the writes, removals and the rename by which \<open>apply_delta\<close> and
  \<open>apply_sharded_delta\<close> change a directory (\<open>fs_utils.rs\<close>).

  A directory is the list of its files in the order \<open>read_dir\<close> lists them, a \<open>HashSet\<close> the list of its elements in
  iteration order. \<open>apply_delta\<close> is the sequence of its file system operations, so that a run that stops after any of
  them is a prefix of that sequence. Each operation is one step: a write that is cut off within a file is not modelled.
\<close>

section \<open>Strings and results\<close>

definition starts_with :: "'a list \<Rightarrow> 'a list \<Rightarrow> bool" where
  "starts_with p s \<longleftrightarrow> take (length p) s = p"

definition ends_with :: "'a list \<Rightarrow> 'a list \<Rightarrow> bool" where
  "ends_with e s \<longleftrightarrow> length e \<le> length s \<and> drop (length s - length e) s = e"

definition and_then :: "('e + 'a) \<Rightarrow> ('a \<Rightarrow> 'e + 'b) \<Rightarrow> 'e + 'b" where
  "and_then r f = (case r of Inl e \<Rightarrow> Inl e | Inr x \<Rightarrow> f x)"

lemma and_then_simps [simp]: "and_then (Inl e) f = Inl e" "and_then (Inr x) f = f x"
  by (simp_all add: and_then_def)

lemma and_then_Inr: "and_then r f = Inr y \<longleftrightarrow> (\<exists>x. r = Inr x \<and> f x = Inr y)"
  by (cases r) auto

section \<open>Exporting\<close>

datatype export_error = Uncommitted | NoManifest | ManifestNotUtf8 | ManifestInvalid | SegmentNotFound bytes | CannotRead bytes

record DeltaExporter =
  current_bundle_ids :: "export_error + bytes list"
  manifest_bytes :: "export_error + bytes"
  read_bundle_files :: "bytes \<Rightarrow> export_error + bundle_file list"
  read_config :: "bytes option"
  has_uncommitted :: bool

fun added_bundles :: "DeltaExporter \<Rightarrow> bytes list \<Rightarrow> export_error + SegmentBundle list" where
  "added_bundles ex [] = Inr []"
| "added_bundles ex (bundle_id # ids) =
     and_then (read_bundle_files ex bundle_id) (\<lambda>files.
     and_then (added_bundles ex ids) (\<lambda>rest. Inr (\<lparr>segment_id = bundle_id, bundle_files = files\<rparr> # rest)))"

definition is_del :: "bundle_file \<Rightarrow> bool" where
  "is_del = (\<lambda>(name, _). ends_with (bstr ''.del'') name)"

fun changed_bundles :: "DeltaExporter \<Rightarrow> bytes list \<Rightarrow> export_error + SegmentBundle list" where
  "changed_bundles ex [] = Inr []"
| "changed_bundles ex (bundle_id # ids) =
     and_then (read_bundle_files ex bundle_id) (\<lambda>all_files.
     let files = filter is_del all_files in
     and_then (changed_bundles ex ids) (\<lambda>rest.
       Inr (if files \<noteq> [] then \<lparr>segment_id = bundle_id, bundle_files = files\<rparr> # rest else rest)))"

definition export_delta_from :: "DeltaExporter \<Rightarrow> bytes list \<Rightarrow> bytes \<Rightarrow> export_error + IndexDelta" where
  "export_delta_from ex client_bundle_ids client_version =
     (if has_uncommitted ex then Inl Uncommitted
      else and_then (manifest_bytes ex) (\<lambda>manifest.
        and_then (current_bundle_ids ex) (\<lambda>current_ids.
        and_then (added_bundles ex (filter (\<lambda>i. i \<notin> set client_bundle_ids) current_ids)) (\<lambda>added.
        and_then (changed_bundles ex (filter (\<lambda>i. i \<in> set client_bundle_ids) current_ids)) (\<lambda>changed.
          Inr \<lparr>from_version = client_version, to_version = compute_version_from_bytes manifest,
            added_segments = added @ changed,
            removed_segment_ids = filter (\<lambda>i. i \<notin> set current_ids) client_bundle_ids,
            delta_meta = manifest, delta_config = read_config ex\<rparr>)))))"

section \<open>Applying\<close>

type_synonym dir = "(bytes \<times> bytes) list"

datatype fs_op = FsWrite bytes bytes | FsRemove bytes | FsRename bytes bytes

fun fs_step :: "fs_op \<Rightarrow> dir \<Rightarrow> dir" where
  "fs_step (FsWrite name d) fs = AList.update name d fs"
| "fs_step (FsRemove name) fs = AList.delete name fs"
| "fs_step (FsRename a b) fs = (case map_of fs a of None \<Rightarrow> fs | Some d \<Rightarrow> AList.update b d (AList.delete a fs))"

abbreviation META :: bytes where "META \<equiv> bstr ''meta.json''"
abbreviation META_TMP :: bytes where "META_TMP \<equiv> bstr ''meta.json.tmp''"
abbreviation CONFIG :: bytes where "CONFIG \<equiv> bstr ''_config.json''"

definition write_ops :: "IndexDelta \<Rightarrow> fs_op list" where
  "write_ops d = concat (map (\<lambda>b. map (\<lambda>(name, c). FsWrite name c) (bundle_files b)) (added_segments d))"

definition remove_ops :: "IndexDelta \<Rightarrow> dir \<Rightarrow> fs_op list" where
  "remove_ops d fs =
     (if removed_segment_ids d \<noteq> [] then
        concat (map (\<lambda>(name, _). map (\<lambda>_. FsRemove name) (filter (\<lambda>removed_id. starts_with removed_id name) (removed_segment_ids d))) fs)
      else [])"

definition meta_ops :: "IndexDelta \<Rightarrow> fs_op list" where
  "meta_ops d = [FsWrite META_TMP (delta_meta d), FsRename META_TMP META]"

definition config_ops :: "IndexDelta \<Rightarrow> fs_op list" where
  "config_ops d = (case delta_config d of Some config \<Rightarrow> [FsWrite CONFIG config] | None \<Rightarrow> [])"

definition apply_ops :: "IndexDelta \<Rightarrow> dir \<Rightarrow> fs_op list" where
  "apply_ops d fs = write_ops d @ remove_ops d (fold fs_step (write_ops d) fs) @ meta_ops d @ config_ops d"

definition apply_delta :: "IndexDelta \<Rightarrow> dir \<Rightarrow> dir" where
  "apply_delta d fs = fold fs_step (apply_ops d fs) fs"

text \<open>The base directory of a sharded index: its own files and the directories \<open>shard_<id>\<close> by id.\<close>

record base_dir =
  base_files :: dir
  shard_dirs :: "(nat \<times> dir) list"

definition shard_dir :: "base_dir \<Rightarrow> nat \<Rightarrow> dir" where
  "shard_dir base i = (case map_of (shard_dirs base) i of Some fs \<Rightarrow> fs | None \<Rightarrow> [])"

definition apply_shard :: "nat \<times> IndexDelta \<Rightarrow> base_dir \<Rightarrow> base_dir" where
  "apply_shard = (\<lambda>(shard_id, shard_delta) base.
     base\<lparr>shard_dirs := AList.update shard_id (apply_delta shard_delta (shard_dir base shard_id)) (shard_dirs base)\<rparr>)"

definition apply_sharded_delta :: "ShardedDelta \<Rightarrow> base_dir \<Rightarrow> base_dir" where
  "apply_sharded_delta d base =
     fold apply_shard (shard_deltas d)
       (case shard_config d of
          Some config \<Rightarrow> base\<lparr>base_files := AList.update (bstr ''_shard_config.json'') config (base_files base)\<rparr>
        | None \<Rightarrow> base)"

text \<open>\<open>read_directory_files\<close> and \<open>remove_lock_files\<close>.\<close>

definition EXCLUDED_FILES :: "bytes list" where
  "EXCLUDED_FILES = [bstr ''.lock'', bstr ''.tantivy-writer.lock'', bstr ''.lucivy-writer.lock'', bstr ''.managed.json'']"

definition read_directory_files :: "dir \<Rightarrow> bundle_file list" where
  "read_directory_files fs = filter (\<lambda>(name, _). name \<notin> set EXCLUDED_FILES) fs"

fun contains :: "'a list \<Rightarrow> 'a list \<Rightarrow> bool" where
  "contains s [] \<longleftrightarrow> s = []"
| "contains s (x # xs) \<longleftrightarrow> starts_with s (x # xs) \<or> contains s xs"

definition remove_lock_files :: "dir \<Rightarrow> dir" where
  "remove_lock_files fs =
     fold (\<lambda>(name, _) fs. if contains (bstr ''.lock'') name then AList.delete name fs else fs) fs fs"

section \<open>What the operations leave in the directory\<close>

lemma map_of_write: "map_of (fold fs_step (map (\<lambda>(name, c). FsWrite name c) files) fs) = map_of fs ++ map_of (rev files)"
  by (induction files arbitrary: fs) (auto simp: update_conv' map_add_def fun_eq_iff split: option.splits)

lemma write_ops_concat: "write_ops d = map (\<lambda>(name, c). FsWrite name c) (concat (map bundle_files (added_segments d)))"
  by (simp add: write_ops_def map_concat comp_def)

definition delta_files :: "IndexDelta \<Rightarrow> bundle_file list" where
  "delta_files d = concat (map bundle_files (added_segments d))"

lemma map_of_writes: "map_of (fold fs_step (write_ops d) fs) = map_of fs ++ map_of (rev (delta_files d))"
  by (simp add: write_ops_concat delta_files_def map_of_write)

definition retired :: "IndexDelta \<Rightarrow> bytes \<Rightarrow> bool" where
  "retired d name \<longleftrightarrow> (\<exists>r \<in> set (removed_segment_ids d). starts_with r name)"

lemma map_of_removes: "map_of (fold fs_step (map FsRemove names) fs) n = (if n \<in> set names then None else map_of fs n)"
  by (induction names arbitrary: fs) (auto simp: delete_conv')

lemma remove_ops_names:
  "\<exists>names. remove_ops d fs = map FsRemove names \<and> set names = {n \<in> fst ` set fs. retired d n}"
proof -
  let ?ns = "concat (map (\<lambda>(name, _). map (\<lambda>_. name) (filter (\<lambda>r. starts_with r name) (removed_segment_ids d))) fs)"
  have "remove_ops d fs = map FsRemove ?ns"
    by (simp add: remove_ops_def map_concat comp_def case_prod_unfold)
  moreover have "set ?ns = {n \<in> fst ` set fs. retired d n}" by (force simp: retired_def)
  ultimately show ?thesis by blast
qed

lemma map_of_remove_ops: "map_of (fold fs_step (remove_ops d fs) fs) n = (if retired d n then None else map_of fs n)"
proof -
  obtain names where "remove_ops d fs = map FsRemove names" "set names = {n \<in> fst ` set fs. retired d n}"
    using remove_ops_names by blast
  then show ?thesis using map_of_removes [of names fs n] by (auto simp: map_of_eq_None_iff)
qed

lemma names_differ [simp]: "META \<noteq> META_TMP" "META \<noteq> CONFIG" "META_TMP \<noteq> CONFIG" "META_TMP \<noteq> META" "CONFIG \<noteq> META" "CONFIG \<noteq> META_TMP"
  by (simp_all add: bstr_def)

lemma map_of_meta_ops: "map_of (fold fs_step (meta_ops d) fs) = (map_of fs)(META \<mapsto> delta_meta d, META_TMP := None)"
  by (auto simp: meta_ops_def update_conv' delete_conv' fun_eq_iff)

lemma map_of_config_ops: "map_of (fold fs_step (config_ops d) fs) n =
    (case delta_config d of Some c \<Rightarrow> if n = CONFIG then Some c else map_of fs n | None \<Rightarrow> map_of fs n)"
  by (auto simp: config_ops_def update_conv' split: option.splits)

text \<open>The directory after \<open>apply_delta\<close>, file by file.\<close>

lemma map_of_apply_delta: "map_of (apply_delta d fs) n =
    (if n = CONFIG \<and> delta_config d \<noteq> None then delta_config d
     else if n = META then Some (delta_meta d)
     else if n = META_TMP \<or> retired d n then None
     else (map_of fs ++ map_of (rev (delta_files d))) n)"
  unfolding apply_delta_def apply_ops_def fold_append comp_def map_of_config_ops map_of_meta_ops
  by (auto simp: map_of_remove_ops map_of_writes split: option.splits)

section \<open>What a delta carries\<close>

lemma added_bundles_files:
  assumes "added_bundles ex ids = Inr bs"
  shows "(\<forall>i \<in> set ids. \<exists>fs. read_bundle_files ex i = Inr fs)
    \<and> set (concat (map bundle_files bs)) = {f. \<exists>i \<in> set ids. \<exists>fs. read_bundle_files ex i = Inr fs \<and> f \<in> set fs}"
  using assms by (induction ids arbitrary: bs) (fastforce simp: and_then_Inr)+

lemma changed_bundles_files:
  assumes "changed_bundles ex ids = Inr bs"
  shows "(\<forall>i \<in> set ids. \<exists>fs. read_bundle_files ex i = Inr fs)
    \<and> set (concat (map bundle_files bs)) = {f. is_del f \<and> (\<exists>i \<in> set ids. \<exists>fs. read_bundle_files ex i = Inr fs \<and> f \<in> set fs)}"
  using assms
proof (induction ids arbitrary: bs)
  case (Cons i ids)
  then obtain fs rest where fs: "read_bundle_files ex i = Inr fs" and rest: "changed_bundles ex ids = Inr rest"
    and bs: "bs = (if filter is_del fs \<noteq> [] then \<lparr>segment_id = i, bundle_files = filter is_del fs\<rparr> # rest else rest)"
    by (auto simp: and_then_Inr Let_def)
  have "set (concat (map bundle_files bs)) = set (filter is_del fs) \<union> set (concat (map bundle_files rest))" using bs by (auto simp: filter_empty_conv)
  then show ?case using Cons.IH [OF rest] fs by auto
qed simp

lemma export_Inr:
  assumes "export_delta_from ex client_ids v = Inr d"
  obtains ids where "current_bundle_ids ex = Inr ids" "manifest_bytes ex = Inr (delta_meta d)" "delta_config d = read_config ex"
    "\<forall>i \<in> set ids. \<exists>fs. read_bundle_files ex i = Inr fs"
    "set (delta_files d) = {f. \<exists>i \<in> set ids. \<exists>fs. read_bundle_files ex i = Inr fs \<and> f \<in> set fs \<and> (i \<in> set client_ids \<longrightarrow> is_del f)}"
    "removed_segment_ids d = filter (\<lambda>i. i \<notin> set ids) client_ids"
    "from_version d = v" "to_version d = compute_version_from_bytes (delta_meta d)"
proof -
  from assms obtain ids added changed where ids: "current_bundle_ids ex = Inr ids"
    and a: "added_bundles ex (filter (\<lambda>i. i \<notin> set client_ids) ids) = Inr added"
    and c: "changed_bundles ex (filter (\<lambda>i. i \<in> set client_ids) ids) = Inr changed"
    and d: "manifest_bytes ex = Inr (delta_meta d)" "delta_config d = read_config ex" "added_segments d = added @ changed"
      "removed_segment_ids d = filter (\<lambda>i. i \<notin> set ids) client_ids" "from_version d = v" "to_version d = compute_version_from_bytes (delta_meta d)"
    by (auto simp: export_delta_from_def and_then_Inr split: if_splits)
  have "\<forall>i \<in> set ids. \<exists>fs. read_bundle_files ex i = Inr fs"
    using added_bundles_files [OF a] changed_bundles_files [OF c] by auto
  moreover have "set (delta_files d) = {f. \<exists>i \<in> set ids. \<exists>fs. read_bundle_files ex i = Inr fs \<and> f \<in> set fs \<and> (i \<in> set client_ids \<longrightarrow> is_del f)}"
    using added_bundles_files [OF a] changed_bundles_files [OF c] by (auto simp: delta_files_def d(3))
  ultimately show ?thesis using ids d by (intro that)
qed

lemma export_facts:
  assumes d: "export_delta_from ex client_ids v = Inr d" and ids: "current_bundle_ids ex = Inr ids"
  shows "manifest_bytes ex = Inr (delta_meta d)" and "delta_config d = read_config ex"
    and "set (delta_files d) = {f. \<exists>i \<in> set ids. \<exists>fs. read_bundle_files ex i = Inr fs \<and> f \<in> set fs \<and> (i \<in> set client_ids \<longrightarrow> is_del f)}"
    and "removed_segment_ids d = filter (\<lambda>i. i \<notin> set ids) client_ids"
  by (rule export_Inr [OF d], use ids in simp)+

lemma added_bundles_total: "\<forall>i \<in> set ids. \<exists>fs. read_bundle_files ex i = Inr fs \<Longrightarrow> \<exists>bs. added_bundles ex ids = Inr bs"
  by (induction ids) auto

lemma changed_bundles_total: "\<forall>i \<in> set ids. \<exists>fs. read_bundle_files ex i = Inr fs \<Longrightarrow> \<exists>bs. changed_bundles ex ids = Inr bs"
  by (induction ids) (auto simp: Let_def)

lemma export_total:
  assumes "\<not> has_uncommitted ex" and "manifest_bytes ex = Inr m" and "current_bundle_ids ex = Inr ids"
    and "\<forall>i \<in> set ids. \<exists>fs. read_bundle_files ex i = Inr fs"
  shows "\<exists>d. export_delta_from ex client_ids v = Inr d"
  using assms added_bundles_total [of "filter (\<lambda>i. i \<notin> set client_ids) ids" ex] changed_bundles_total [of "filter (\<lambda>i. i \<in> set client_ids) ids" ex]
  by (auto simp: export_delta_from_def)

section \<open>The contract of an exporter\<close>

definition bundle_file_of :: "DeltaExporter \<Rightarrow> bytes list \<Rightarrow> bytes \<Rightarrow> bytes \<Rightarrow> bool" where
  "bundle_file_of ex ids n c \<longleftrightarrow> (\<exists>i \<in> set ids. \<exists>fs. read_bundle_files ex i = Inr fs \<and> (n, c) \<in> set fs)"

text \<open>What the apply side relies on: the files of a bundle are files of the server's directory, and their names start
  with the bundle id.\<close>

locale delta_exporter =
  fixes ex :: DeltaExporter and server :: dir
  assumes from_server: "read_bundle_files ex i = Inr fs \<Longrightarrow> (n, c) \<in> set fs \<Longrightarrow> map_of server n = Some c"
    and named_by_id: "current_bundle_ids ex = Inr ids \<Longrightarrow> i \<in> set ids \<Longrightarrow> read_bundle_files ex i = Inr fs \<Longrightarrow> (n, c) \<in> set fs \<Longrightarrow> starts_with i n"
begin

lemma delta_file_content:
  assumes d: "export_delta_from ex client_ids v = Inr d" and f: "(n, c) \<in> set (delta_files d)"
  shows "map_of (rev (delta_files d)) n = Some c"
proof -
  have s: "map_of server n = Some x" if "(n, x) \<in> set (delta_files d)" for x
  proof -
    obtain ids where "current_bundle_ids ex = Inr ids" by (rule export_Inr [OF d])
    from export_facts(3) [OF d this] that obtain i fs where "read_bundle_files ex i = Inr fs" "(n, x) \<in> set fs" by auto
    then show ?thesis by (rule from_server)
  qed
  obtain x where x: "map_of (rev (delta_files d)) n = Some x" using f weak_map_of_SomeI [of n c "rev (delta_files d)"] by auto
  then have "(n, x) \<in> set (delta_files d)" using map_of_SomeD by fastforce
  then show ?thesis using s [of x] s [OF f] x by simp
qed

lemma retired_not_current:
  assumes d: "export_delta_from ex client_ids v = Inr d" and ids: "current_bundle_ids ex = Inr ids" and f: "bundle_file_of ex ids n c"
    and r: "retired d n"
  shows "\<exists>r i. r \<in> set client_ids \<and> r \<notin> set ids \<and> i \<in> set ids \<and> starts_with r n \<and> starts_with i n"
proof -
  obtain i fs where i: "i \<in> set ids" "read_bundle_files ex i = Inr fs" "(n, c) \<in> set fs" using f by (auto simp: bundle_file_of_def)
  have "starts_with i n" using named_by_id [OF ids i] .
  moreover obtain r where "r \<in> set client_ids" "r \<notin> set ids" "starts_with r n"
    using r export_facts(4) [OF d ids] by (auto simp: retired_def)
  ultimately show ?thesis using i(1) by blast
qed

text \<open>A client that holds the unchanged files of the bundles it shares has, after applying the delta, every file of
  every current bundle, provided no retired id is a prefix of one.\<close>

lemma delivers:
  assumes d: "export_delta_from ex client_ids v = Inr d" and ids: "current_bundle_ids ex = Inr ids"
    and shared: "\<And>i fs n c. i \<in> set ids \<Longrightarrow> i \<in> set client_ids \<Longrightarrow> read_bundle_files ex i = Inr fs \<Longrightarrow> (n, c) \<in> set fs \<Longrightarrow> \<not> is_del (n, c)
      \<Longrightarrow> map_of client n = Some c"
    and f: "bundle_file_of ex ids n c" and own: "n \<notin> {META, META_TMP, CONFIG}" and keep: "\<not> retired d n"
  shows "map_of (apply_delta d client) n = Some c"
proof -
  obtain i fs where i: "i \<in> set ids" "read_bundle_files ex i = Inr fs" "(n, c) \<in> set fs" using f by (auto simp: bundle_file_of_def)
  note set_d = export_facts(3) [OF d ids]
  have "(map_of client ++ map_of (rev (delta_files d))) n = Some c"
  proof (cases "(n, c) \<in> set (delta_files d)")
    case True
    then show ?thesis using delta_file_content [OF d] by simp
  next
    case False
    then have "i \<in> set client_ids" "\<not> is_del (n, c)" using i set_d by auto
    then have cl: "map_of client n = Some c" using shared i by blast
    have "x = c" if "map_of (rev (delta_files d)) n = Some x" for x
    proof -
      have "(n, x) \<in> set (delta_files d)" using that map_of_SomeD by fastforce
      then have "map_of server n = Some x" using set_d from_server by blast
      then show ?thesis using from_server [OF i(2,3)] by simp
    qed
    then show ?thesis using cl by (cases "map_of (rev (delta_files d)) n") (auto simp: map_add_def)
  qed
  then show ?thesis using own keep by (simp add: map_of_apply_delta)
qed

end

section \<open>Interrupted runs\<close>

text \<open>The manifest changes in one step, the rename: before it the old one is in place, behind it the new one, and then
  every file of the delta is there.\<close>

definition plain_delta :: "IndexDelta \<Rightarrow> bool" where
  "plain_delta d \<longleftrightarrow> (\<forall>(n, c) \<in> set (delta_files d). n \<notin> {META, META_TMP, CONFIG}) \<and> \<not> retired d META \<and> \<not> retired d META_TMP"

definition commit_point :: "IndexDelta \<Rightarrow> dir \<Rightarrow> nat" where
  "commit_point d fs = length (write_ops d) + length (remove_ops d (fold fs_step (write_ops d) fs)) + 2"

lemma fs_step_other: "(\<forall>c. op \<noteq> FsWrite n c) \<Longrightarrow> op \<noteq> FsRemove n \<Longrightarrow> (\<forall>a b. op \<noteq> FsRename a b) \<Longrightarrow> map_of (fs_step op fs) n = map_of fs n"
  by (cases op) (auto simp: update_conv' delete_conv')

lemma fold_fs_step_other:
  "(\<forall>op \<in> set ops. (\<forall>c. op \<noteq> FsWrite n c) \<and> op \<noteq> FsRemove n \<and> (\<forall>a b. op \<noteq> FsRename a b)) \<Longrightarrow> map_of (fold fs_step ops fs) n = map_of fs n"
  by (induction ops arbitrary: fs) (auto simp: fs_step_other)

lemma take_within: "xs = ys @ zs \<Longrightarrow> k \<le> length ys \<Longrightarrow> take k xs = take k ys"
  by simp

lemma before_commit:
  assumes p: "plain_delta d" and k: "k < commit_point d fs"
  shows "map_of (fold fs_step (take k (apply_ops d fs)) fs) META = map_of fs META"
proof -
  let ?fs1 = "fold fs_step (write_ops d) fs"
  let ?ops = "write_ops d @ remove_ops d ?fs1 @ [FsWrite META_TMP (delta_meta d)]"
  obtain names where r: "remove_ops d ?fs1 = map FsRemove names" "set names = {n \<in> fst ` set ?fs1. retired d n}"
    using remove_ops_names by blast
  have "apply_ops d fs = ?ops @ FsRename META_TMP META # config_ops d" by (simp add: apply_ops_def meta_ops_def)
  moreover have "k \<le> length ?ops" using k by (simp add: commit_point_def)
  ultimately have t: "take k (apply_ops d fs) = take k ?ops" by (rule take_within)
  have "\<forall>op \<in> set ?ops. (\<forall>c. op \<noteq> FsWrite META c) \<and> op \<noteq> FsRemove META \<and> (\<forall>a b. op \<noteq> FsRename a b)"
    using p r by (auto simp: plain_delta_def write_ops_concat delta_files_def)
  then have "\<forall>op \<in> set (take k ?ops). (\<forall>c. op \<noteq> FsWrite META c) \<and> op \<noteq> FsRemove META \<and> (\<forall>a b. op \<noteq> FsRename a b)"
    using in_set_takeD by fast
  then show ?thesis unfolding t by (rule fold_fs_step_other)
qed

lemma after_commit:
  assumes p: "plain_delta d" and k: "commit_point d fs \<le> k"
  shows "map_of (fold fs_step (take k (apply_ops d fs)) fs) META = Some (delta_meta d)"
    and "n \<noteq> CONFIG \<Longrightarrow> map_of (fold fs_step (take k (apply_ops d fs)) fs) n = map_of (apply_delta d fs) n"
proof -
  have ops: "length (apply_ops d fs) \<le> commit_point d fs + 1"
    by (simp add: apply_ops_def commit_point_def meta_ops_def config_ops_def split: option.splits)
  let ?pre = "write_ops d @ remove_ops d (fold fs_step (write_ops d) fs) @ meta_ops d"
  have len: "length ?pre = commit_point d fs" by (simp add: commit_point_def meta_ops_def)
  have all: "apply_ops d fs = ?pre @ config_ops d" by (simp add: apply_ops_def)
  have "take k (apply_ops d fs) = ?pre @ take (k - commit_point d fs) (config_ops d)" using k unfolding all take_append len by (simp add: len [symmetric])
  then have st: "fold fs_step (take k (apply_ops d fs)) fs = fold fs_step (take (k - commit_point d fs) (config_ops d)) (fold fs_step ?pre fs)" by simp
  have cfg: "map_of (fold fs_step (take j (config_ops d)) x) m = map_of x m" if "m \<noteq> CONFIG" for j x m
    using that by (intro fold_fs_step_other) (auto simp: config_ops_def dest!: in_set_takeD split: option.splits)
  have full: "map_of (apply_delta d fs) m = map_of (fold fs_step ?pre fs) m" if "m \<noteq> CONFIG" for m
    unfolding apply_delta_def all fold_append comp_def using that by (simp add: map_of_config_ops split: option.splits)
  show "map_of (fold fs_step (take k (apply_ops d fs)) fs) META = Some (delta_meta d)"
    using cfg [of META] full [of META] st map_of_apply_delta [of d fs META] by simp
  assume "n \<noteq> CONFIG"
  then show "map_of (fold fs_step (take k (apply_ops d fs)) fs) n = map_of (apply_delta d fs) n" using cfg full st by simp
qed

text \<open>The files of the retired bundles are gone before the manifest that no longer names them is in place: a run that
  stops there leaves the old manifest without its files.\<close>

lemma interrupted_loses_retired:
  assumes p: "plain_delta d" and r: "retired d n"
  shows "\<exists>k. map_of (fold fs_step (take k (apply_ops d fs)) fs) META = map_of fs META
    \<and> map_of (fold fs_step (take k (apply_ops d fs)) fs) n = None"
proof -
  let ?fs1 = "fold fs_step (write_ops d) fs"
  let ?k = "length (write_ops d) + length (remove_ops d ?fs1)"
  have "take ?k (apply_ops d fs) = write_ops d @ remove_ops d ?fs1" by (simp add: apply_ops_def)
  then have "map_of (fold fs_step (take ?k (apply_ops d fs)) fs) n = None" using r by (simp add: map_of_remove_ops)
  moreover have "?k < commit_point d fs" by (simp add: commit_point_def)
  ultimately show ?thesis using before_commit [OF p] by blast
qed

definition demo_dir :: dir where
  "demo_dir = [(bstr ''meta.json'', bstr ''old''), (bstr ''b2.idx'', [7])]"

lemma demo_plain: "plain_delta demo_delta"
  by (simp add: plain_delta_def demo_delta_def demo_files_def delta_files_def retired_def starts_with_def bstr_def)

text \<open>C31.  Applying a delta changes the manifest in one step. Let no file of the delta be named like the manifest, its
  temporary or the configuration, and no retired id be a prefix of the first two. Then a run that stops after any number
  of file system operations leaves either the old manifest, or the new one; and with the new one every other file but
  the configuration is already as the complete run leaves it: absent if its name starts with a retired id, with the
  contents of the delta if the delta has it, and otherwise unchanged, the temporary manifest being gone. Beside the
  old manifest, files of the delta may be there and files of retired bundles gone (\<open>interrupted_loses_retired\<close>).\<close>

theorem apply_switches_manifest:
  assumes "plain_delta d"
  shows "map_of (fold fs_step (take k (apply_ops d fs)) fs) META = map_of fs META
    \<or> (map_of (fold fs_step (take k (apply_ops d fs)) fs) META = Some (delta_meta d)
      \<and> (\<forall>n. n \<noteq> META \<longrightarrow> n \<noteq> CONFIG \<longrightarrow> map_of (fold fs_step (take k (apply_ops d fs)) fs) n =
          (if n = META_TMP \<or> retired d n then None
           else if n \<in> fst ` set (delta_files d) then map_of (rev (delta_files d)) n
           else map_of fs n)))"
proof (cases "k < commit_point d fs")
  case False
  have "map_of (apply_delta d fs) n = (if n = META_TMP \<or> retired d n then None
      else if n \<in> fst ` set (delta_files d) then map_of (rev (delta_files d)) n else map_of fs n)" if "n \<noteq> META" "n \<noteq> CONFIG" for n
  proof -
    have "map_of (rev (delta_files d)) n = None \<longleftrightarrow> n \<notin> fst ` set (delta_files d)" by (simp add: map_of_eq_None_iff)
    then show ?thesis using that by (cases "map_of (rev (delta_files d)) n") (auto simp: map_of_apply_delta map_add_def)
  qed
  then show ?thesis using after_commit [OF assms, of fs k] False by (intro disjI2 conjI allI impI) simp_all
qed (simp add: before_commit [OF assms])

theorem apply_switches_manifest_witness:
  "map_of (fold fs_step (take 100 (apply_ops demo_delta demo_dir)) demo_dir) (bstr ''b2.idx'') = None
    \<and> (map_of (fold fs_step (take 5 (apply_ops demo_delta demo_dir)) demo_dir) META = map_of demo_dir META
      \<or> map_of (fold fs_step (take 5 (apply_ops demo_delta demo_dir)) demo_dir) META = Some (delta_meta demo_delta))"
proof -
  have "length (apply_ops demo_delta demo_dir) \<le> 100"
    by (simp add: apply_ops_def write_ops_def remove_ops_def meta_ops_def config_ops_def demo_delta_def demo_files_def demo_dir_def starts_with_def bstr_def)
  then have "fold fs_step (take 100 (apply_ops demo_delta demo_dir)) demo_dir = apply_delta demo_delta demo_dir" by (simp add: apply_delta_def)
  moreover have "map_of (apply_delta demo_delta demo_dir) META \<noteq> map_of demo_dir META"
    by (simp add: map_of_apply_delta demo_dir_def demo_delta_def bstr_def)
  moreover have "bstr ''b2.idx'' \<noteq> META" "bstr ''b2.idx'' \<noteq> CONFIG" "retired demo_delta (bstr ''b2.idx'')"
    by (simp_all add: retired_def demo_delta_def starts_with_def bstr_def)
  ultimately have "map_of (fold fs_step (take 100 (apply_ops demo_delta demo_dir)) demo_dir) (bstr ''b2.idx'') = None"
    using apply_switches_manifest [OF demo_plain, of 100 demo_dir] by (metis (no_types, lifting))
  then show ?thesis using apply_switches_manifest [OF demo_plain, of 5 demo_dir] by blast
qed

end
