(* ===== verification/LucivySync.thy ===== *)
theory LucivySync
  imports SyncExport
begin

text \<open>
  The exporter of a lucivy index and the sharded export built on it (\<open>src/lucivy_core/src/sync.rs\<close>), with the file
  inventory they rely on: the names of segments and their components (\<open>src/src/index/index_meta.rs\<close>,
  \<open>segment_component.rs\<close>, \<open>segment_id.rs\<close>, the registry of \<open>index_registry.rs\<close>) and of the shard dictionary
  (\<open>src/src/suffix_fst/dictionary.rs\<close>).

  The parser of \<open>meta.json\<close> (\<open>Index::parse_metas\<close>, serde) is the argument \<open>parse_metas\<close>, and the JSON parser under
  \<open>segment_ids_from_meta\<close> the argument \<open>from_slice\<close>. The exporter reads the manifest once and answers from those bytes,
  so its directory is one state. The metas keep the fields the exporter reads.
\<close>

section \<open>Decimal numbers\<close>

text \<open>\<open>{n}\<close> of an unsigned integer.\<close>

fun fmt_dec :: "nat \<Rightarrow> bytes" where
  "fmt_dec n = (if n < 10 then [of_nat (48 + n)] else fmt_dec (n div 10) @ [of_nat (48 + n mod 10)])"

declare fmt_dec.simps [simp del]

definition is_digit :: "u8 \<Rightarrow> bool" where
  "is_digit b \<longleftrightarrow> 48 \<le> b \<and> b \<le> 57"

text \<open>\<open>str::parse::<u64>\<close>: an optional plus sign and at least one digit, refused past \<open>u64::MAX\<close>.\<close>

definition dec_value :: "bytes \<Rightarrow> nat" where
  "dec_value ds = foldl (\<lambda>n b. 10 * n + (unat b - 48)) 0 ds"

definition parse_u64 :: "bytes \<Rightarrow> u64 option" where
  "parse_u64 s =
     (let ds = (case s of b # rest \<Rightarrow> if b = 43 then rest else s | [] \<Rightarrow> []) in
      if ds \<noteq> [] \<and> list_all is_digit ds \<and> dec_value ds < 2 ^ 64 then Some (of_nat (dec_value ds)) else None)"

section \<open>Segments and their files\<close>

datatype SegmentComponent = Postings | Positions | FastFields | FieldNorms | Terms | Store | TempStore | Delete | Offsets
  | SuffixFst u32 | SuffixPost u32 | PosMapFile u32 | ByteMapFile u32 | CustomSfxIndex u32 bytes

definition ANY_SFX_VERSION :: u8 where "ANY_SFX_VERSION = 0"
definition DICTIONARY_SFX_VERSION :: u8 where "DICTIONARY_SFX_VERSION = 4"

abbreviation dot :: u8 where "dot \<equiv> 46"

definition fmt_u32 :: "u32 \<Rightarrow> bytes" where "fmt_u32 w = fmt_dec (unat w)"
definition fmt_u64 :: "u64 \<Rightarrow> bytes" where "fmt_u64 w = fmt_dec (unat w)"

fun extension :: "SegmentComponent \<Rightarrow> bytes" where
  "extension Postings = bstr ''idx''"
| "extension Positions = bstr ''pos''"
| "extension FastFields = bstr ''fast''"
| "extension FieldNorms = bstr ''fieldnorm''"
| "extension Terms = bstr ''term''"
| "extension Store = bstr ''store''"
| "extension TempStore = bstr ''temp_store''"
| "extension Delete = bstr ''del''"
| "extension Offsets = bstr ''offsets''"
| "extension (SuffixFst field_id) = fmt_u32 field_id @ bstr ''.sfx''"
| "extension (SuffixPost field_id) = fmt_u32 field_id @ bstr ''.sfxpost''"
| "extension (PosMapFile field_id) = fmt_u32 field_id @ bstr ''.posmap''"
| "extension (ByteMapFile field_id) = fmt_u32 field_id @ bstr ''.bytemap''"
| "extension (CustomSfxIndex field_id ext) = fmt_u32 field_id @ [dot] @ ext"

definition fixed_components :: "SegmentComponent list" where
  "fixed_components = [Postings, Positions, FastFields, FieldNorms, Terms, Store, TempStore, Delete, Offsets]"

text \<open>The registry: the extension of each index file and \<open>written_for\<close>.\<close>

definition all_indexes :: "(bytes \<times> (u8 \<Rightarrow> bool)) list" where
  "all_indexes = [
     (bstr ''sfxpost'', \<lambda>_. True),
     (bstr ''gapmap'', \<lambda>v. v < 3),
     (bstr ''sibling'', \<lambda>v. v < 3),
     (bstr ''sepmap'', \<lambda>v. v < 3),
     (bstr ''posmap'', \<lambda>_. True),
     (bstr ''bytemap'', \<lambda>v. v < 3),
     (bstr ''termtexts'', \<lambda>v. v \<noteq> DICTIONARY_SFX_VERSION),
     (bstr ''word_pos_map'', \<lambda>v. 3 \<le> v),
     (bstr ''word_sfxpost'', \<lambda>v. 3 \<le> v),
     (bstr ''sibling_v3'', \<lambda>v. 3 \<le> v),
     (bstr ''gmap'', \<lambda>v. v = DICTIONARY_SFX_VERSION)]"

definition DERIVED_EXTENSIONS :: "bytes list" where
  "DERIVED_EXTENSIONS = [bstr ''posmap'', bstr ''word_pos_map'', bstr ''sibling_v3'']"

definition components_for :: "u32 list \<Rightarrow> u8 \<Rightarrow> bool \<Rightarrow> SegmentComponent list" where
  "components_for field_ids v derived = fixed_components @ concat (map (\<lambda>fid.
     (if v \<noteq> DICTIONARY_SFX_VERSION then [SuffixFst fid] else [])
     @ map (\<lambda>(ext, _). CustomSfxIndex fid ext)
         (filter (\<lambda>(ext, written_for). \<not> (v \<noteq> ANY_SFX_VERSION \<and> \<not> written_for v) \<and> \<not> (derived \<and> ext \<in> set DERIVED_EXTENSIONS)) all_indexes)) field_ids)"

record SegmentMeta =
  seg_uuid :: "128 word"
  sfx_field_ids :: "u32 list"
  delete_opstamp :: "u64 option"
  include_temp_doc_store :: bool

definition uuid_string :: "128 word \<Rightarrow> bytes" where
  "uuid_string u = hex_pad 32 u"

definition relative_path :: "SegmentMeta \<Rightarrow> SegmentComponent \<Rightarrow> bytes" where
  "relative_path s component = uuid_string (seg_uuid s) @
     (case component of
        Delete \<Rightarrow> [dot] @ fmt_u64 (case delete_opstamp s of Some o1 \<Rightarrow> o1 | None \<Rightarrow> 0) @ bstr ''.del''
      | TempStore \<Rightarrow> bstr ''.store.temp''
      | other \<Rightarrow> [dot] @ extension other)"

definition list_files_for :: "SegmentMeta \<Rightarrow> u8 \<Rightarrow> bool \<Rightarrow> bytes list" where
  "list_files_for s v derived =
     remdups (map (relative_path s)
       (filter (\<lambda>c. delete_opstamp s \<noteq> None \<or> c \<noteq> Delete)
         (filter (\<lambda>c. include_temp_doc_store s \<or> c \<noteq> TempStore) (components_for (sfx_field_ids s) v derived))))"

section \<open>The shard dictionary\<close>

definition GROUP_INDEX_EXT :: bytes where "GROUP_INDEX_EXT = bstr ''pidx''"
definition GENERATION_EXTENSIONS :: "bytes list" where
  "GENERATION_EXTENSIONS = [bstr ''sfx'', bstr ''termtexts'', GROUP_INDEX_EXT]"

definition dictionary_file_name :: "u64 \<Rightarrow> u32 \<Rightarrow> bytes \<Rightarrow> bytes" where
  "dictionary_file_name generation field_id ext = bstr ''dict-'' @ fmt_u64 generation @ [dot] @ fmt_u32 field_id @ [dot] @ ext"

definition dictionary_bundle_id :: "u64 \<Rightarrow> bytes" where
  "dictionary_bundle_id generation = bstr ''dict-'' @ fmt_u64 generation @ [dot]"

record SfxDictionaryMeta =
  generations :: "u64 list"
  next_generation :: u64
  next_ids :: "(u32 \<times> u64) list"
  dict_field_ids :: "u32 list"
  pending_segments :: "bytes list"

definition files_of :: "SfxDictionaryMeta \<Rightarrow> u64 \<Rightarrow> bytes list" where
  "files_of d generation = concat (map (\<lambda>f. map (dictionary_file_name generation f) GENERATION_EXTENSIONS) (dict_field_ids d))"

text \<open>The pair of a pending segment, \<open>(sfx, texts)\<close>: the current names, then the ones before 4.3.\<close>

definition pair_file_names :: "bytes \<Rightarrow> u32 \<Rightarrow> (bytes \<times> bytes) list" where
  "pair_file_names uuid field_id = (let stem = uuid @ [dot] @ fmt_u32 field_id @ [dot] in
     [(stem @ bstr ''minted.sfx'', stem @ bstr ''minted.termtexts''), (stem @ bstr ''newsfx'', stem @ bstr ''newtexts'')])"

definition pair_inventory :: "SfxDictionaryMeta \<Rightarrow> bytes \<Rightarrow> bytes list" where
  "pair_inventory d uuid = concat (map (\<lambda>f. concat (map (\<lambda>(a, b). [a, b]) (pair_file_names uuid f))) (dict_field_ids d))"

definition dictionary_files :: "SfxDictionaryMeta \<Rightarrow> bytes list" where
  "dictionary_files d = concat (map (files_of d) (generations d)) @ concat (map (pair_inventory d) (pending_segments d))"

record IndexMeta =
  meta_sfx_version :: u8
  derived_in_ram :: bool
  meta_positions :: bool
  segments :: "SegmentMeta list"
  sfx_dictionary :: "SfxDictionaryMeta option"

definition skips_derived_files :: "IndexMeta \<Rightarrow> bool" where
  "skips_derived_files m \<longleftrightarrow> derived_in_ram m \<or> \<not> meta_positions m"

section \<open>The exporter\<close>

type_synonym meta_parser = "bytes \<Rightarrow> IndexMeta option"

definition snapshot :: "meta_parser \<Rightarrow> dir \<Rightarrow> export_error + (bytes \<times> IndexMeta)" where
  "snapshot parse_metas fs =
     (case map_of fs META of None \<Rightarrow> Inl NoManifest
      | Some b \<Rightarrow>
        if \<not> utf8 b then Inl ManifestNotUtf8
        else case parse_metas b of None \<Rightarrow> Inl ManifestInvalid | Some m \<Rightarrow> Inr (b, m))"

definition exists_file :: "dir \<Rightarrow> bytes \<Rightarrow> bool" where
  "exists_file fs name \<longleftrightarrow> map_of fs name \<noteq> None"

definition pair_bundle_id :: "dir \<Rightarrow> bytes \<Rightarrow> u32 \<Rightarrow> bytes" where
  "pair_bundle_id fs u f = (let stem = u @ [dot] @ fmt_u32 f @ [dot] in
     if exists_file fs (stem @ bstr ''newtexts'') then stem @ bstr ''new'' else stem @ bstr ''minted.'')"

definition bundle_ids :: "dir \<Rightarrow> IndexMeta \<Rightarrow> bytes list" where
  "bundle_ids fs m = remdups (map (\<lambda>s. uuid_string (seg_uuid s)) (segments m)
     @ (case sfx_dictionary m of None \<Rightarrow> []
        | Some d \<Rightarrow> map dictionary_bundle_id (generations d)
          @ concat (map (\<lambda>u. map (pair_bundle_id fs u) (dict_field_ids d)) (pending_segments d))))"

definition is_pair_bundle :: "bytes \<Rightarrow> bool" where
  "is_pair_bundle i \<longleftrightarrow> (ends_with (bstr ''.minted.'') i \<and> count_list i dot = 3) \<or> (ends_with (bstr ''.new'') i \<and> count_list i dot = 2)"

text \<open>The named files that exist, with their contents.\<close>

definition existing :: "dir \<Rightarrow> bytes list \<Rightarrow> bundle_file list" where
  "existing fs names = List.map_filter (\<lambda>n. map_option (Pair n) (map_of fs n)) names"

definition pair_files :: "dir \<Rightarrow> bytes \<Rightarrow> bundle_file list" where
  "pair_files fs i = existing fs [i @ bstr ''sfx'', i @ bstr ''termtexts'']"

definition trim_end_dots :: "bytes \<Rightarrow> bytes" where
  "trim_end_dots s = rev (dropWhile (\<lambda>b. b = dot) (rev s))"

definition dict_generation :: "bytes \<Rightarrow> u64 option" where
  "dict_generation i = (if starts_with (bstr ''dict-'') i then parse_u64 (trim_end_dots (drop 5 i)) else None)"

text \<open>\<open>Path::extension\<close>: what follows the last dot, if a character precedes it.\<close>

definition path_extension :: "bytes \<Rightarrow> bytes option" where
  "path_extension name = (if dot \<in> set (tl name) then Some (rev (takeWhile (\<lambda>b. b \<noteq> dot) (rev name))) else None)"

fun dict_files :: "dir \<Rightarrow> bytes list \<Rightarrow> export_error + bundle_file list" where
  "dict_files fs [] = Inr []"
| "dict_files fs (n # ns) =
     (case map_of fs n of
        Some c \<Rightarrow> and_then (dict_files fs ns) (\<lambda>rest. Inr ((n, c) # rest))
      | None \<Rightarrow> if path_extension n = Some GROUP_INDEX_EXT then dict_files fs ns else Inl (CannotRead n))"

definition lucivy_bundle_files :: "dir \<Rightarrow> IndexMeta \<Rightarrow> bytes \<Rightarrow> export_error + bundle_file list" where
  "lucivy_bundle_files fs m i =
     (if is_pair_bundle i then Inr (pair_files fs i)
      else case dict_generation i of
        Some g \<Rightarrow> dict_files fs (case sfx_dictionary m of Some d \<Rightarrow> files_of d g | None \<Rightarrow> [])
      | None \<Rightarrow>
        (case find (\<lambda>s. uuid_string (seg_uuid s) = i) (segments m) of
           None \<Rightarrow> Inl (SegmentNotFound i)
         | Some s \<Rightarrow> Inr (existing fs (list_files_for s (meta_sfx_version m) (skips_derived_files m)))))"

definition lucivy_exporter :: "meta_parser \<Rightarrow> dir \<Rightarrow> bool \<Rightarrow> DeltaExporter" where
  "lucivy_exporter parse_metas fs uncommitted = \<lparr>
     current_bundle_ids = and_then (snapshot parse_metas fs) (\<lambda>(_, m). Inr (bundle_ids fs m)),
     manifest_bytes = and_then (snapshot parse_metas fs) (\<lambda>(b, _). Inr b),
     read_bundle_files = (\<lambda>i. and_then (snapshot parse_metas fs) (\<lambda>(_, m). lucivy_bundle_files fs m i)),
     read_config = map_of fs CONFIG,
     has_uncommitted = uncommitted\<rparr>"

definition export_delta :: "meta_parser \<Rightarrow> dir \<Rightarrow> bool \<Rightarrow> bytes list \<Rightarrow> bytes \<Rightarrow> export_error + IndexDelta" where
  "export_delta parse_metas fs uncommitted client_segment_ids client_version =
     export_delta_from (lucivy_exporter parse_metas fs uncommitted) client_segment_ids client_version"

section \<open>Sharded export\<close>

record ShardVersion =
  sv_shard_id :: nat
  sv_version :: bytes
  sv_segment_ids :: "bytes list"

definition compute_version :: "dir \<Rightarrow> export_error + bytes" where
  "compute_version fs = (case map_of fs META of None \<Rightarrow> Inl NoManifest | Some b \<Rightarrow> Inr (compute_version_from_bytes b))"

fun export_shards :: "meta_parser \<Rightarrow> ShardVersion list \<Rightarrow> nat list option \<Rightarrow> (nat \<times> dir \<times> bool) list \<Rightarrow> export_error + (nat \<times> IndexDelta) list" where
  "export_shards parse_metas client requested [] = Inr []"
| "export_shards parse_metas client requested ((shard_id, fs, uncommitted) # handles) =
     (let rest = export_shards parse_metas client requested handles;
          push = (\<lambda>r. and_then r (\<lambda>d. and_then rest (\<lambda>ds. Inr ((shard_id, d) # ds)))) in
      if (case requested of Some req \<Rightarrow> shard_id \<notin> set req | None \<Rightarrow> False) then rest
      else case find (\<lambda>sv. sv_shard_id sv = shard_id) client of
        Some sv \<Rightarrow> and_then (compute_version fs) (\<lambda>current_version.
          if current_version = sv_version sv then rest
          else push (export_delta parse_metas fs uncommitted (sv_segment_ids sv) (sv_version sv)))
      | None \<Rightarrow> push (export_delta parse_metas fs uncommitted [] []))"

definition export_sharded_delta ::
  "meta_parser \<Rightarrow> (nat \<times> dir \<times> bool) list \<Rightarrow> ShardVersion list \<Rightarrow> nat list option \<Rightarrow> bytes option \<Rightarrow> export_error + ShardedDelta" where
  "export_sharded_delta parse_metas shard_handles client_versions requested_shards config =
     and_then (export_shards parse_metas client_versions requested_shards shard_handles) (\<lambda>ds.
       Inr \<lparr>shard_deltas = ds, shard_config = config, sd_num_shards = length shard_handles\<rparr>)"

text \<open>\<open>segment_ids_from_meta\<close> on a JSON value: the strings under \<open>segment_id\<close>, without their hyphens.\<close>

datatype json = JString bytes | JArray "json list" | JObject "(bytes \<times> json) list" | JOther

definition json_get :: "json \<Rightarrow> bytes \<Rightarrow> json option" where
  "json_get v key = (case v of JObject kvs \<Rightarrow> map_of kvs key | _ \<Rightarrow> None)"

definition segment_id_of :: "json \<Rightarrow> bytes option" where
  "segment_id_of seg = (case json_get seg (bstr ''segment_id'') of Some (JString s) \<Rightarrow> Some (filter (\<lambda>b. b \<noteq> 45) s) | _ \<Rightarrow> None)"

definition segment_ids_from_meta :: "(bytes \<Rightarrow> json option) \<Rightarrow> bytes \<Rightarrow> bytes list option" where
  "segment_ids_from_meta from_slice meta_bytes =
     (case from_slice meta_bytes of None \<Rightarrow> None
      | Some v \<Rightarrow> (case json_get v (bstr ''segments'') of
          Some (JArray segs) \<Rightarrow> Some (remdups (List.map_filter segment_id_of segs)) | _ \<Rightarrow> None))"

text \<open>\<open>compute_shard_versions\<close> of the client's base directory; a shard without a manifest is skipped.\<close>

fun shard_versions :: "(bytes \<Rightarrow> json option) \<Rightarrow> base_dir \<Rightarrow> nat list \<Rightarrow> ShardVersion list option" where
  "shard_versions from_slice base [] = Some []"
| "shard_versions from_slice base (shard_id # ids) =
     (case map_of (shard_dir base shard_id) META of
        None \<Rightarrow> shard_versions from_slice base ids
      | Some meta_bytes \<Rightarrow> do {
          seg_ids \<leftarrow> segment_ids_from_meta from_slice meta_bytes;
          rest \<leftarrow> shard_versions from_slice base ids;
          Some (\<lparr>sv_shard_id = shard_id, sv_version = compute_version_from_bytes meta_bytes, sv_segment_ids = seg_ids\<rparr> # rest) })"

definition compute_shard_versions :: "(bytes \<Rightarrow> json option) \<Rightarrow> base_dir \<Rightarrow> nat \<Rightarrow> ShardVersion list option" where
  "compute_shard_versions from_slice base n = shard_versions from_slice base [0..<n]"

text \<open>The sharded handle (\<open>src/lucivy_core/src/sharded_handle.rs\<close>): its shards are the directories by shard id, with the
  flag of uncommitted changes. Applying a blob leaves the earlier shards changed when a later one is refused.\<close>

fun handle_versions :: "meta_parser \<Rightarrow> nat \<Rightarrow> dir list \<Rightarrow> export_error + ShardVersion list" where
  "handle_versions parse_metas i [] = Inr []"
| "handle_versions parse_metas i (fs # shards) =
     and_then (compute_version fs) (\<lambda>version.
     and_then (snapshot parse_metas fs) (\<lambda>(_, m).
     and_then (handle_versions parse_metas (Suc i) shards) (\<lambda>rest.
       Inr (\<lparr>sv_shard_id = i, sv_version = version, sv_segment_ids = remdups (map (\<lambda>s. uuid_string (seg_uuid s)) (segments m))\<rparr> # rest))))"

definition handle_export_delta :: "meta_parser \<Rightarrow> (dir \<times> bool) list \<Rightarrow> bytes option \<Rightarrow> ShardVersion list \<Rightarrow> export_error + bytes" where
  "handle_export_delta parse_metas shards config client_versions =
     and_then (export_sharded_delta parse_metas (enumerate 0 shards) client_versions None config)
       (\<lambda>delta. Inr (serialize_sharded_delta delta))"

datatype apply_error = BadBlob sync_error | NoShard nat

fun apply_shards :: "(nat \<times> IndexDelta) list \<Rightarrow> dir list \<Rightarrow> dir list \<times> apply_error option" where
  "apply_shards [] shards = (shards, None)"
| "apply_shards ((shard_id, shard_delta) # deltas) shards =
     (if length shards \<le> shard_id then (shards, Some (NoShard shard_id))
      else apply_shards deltas (shards[shard_id := apply_delta shard_delta (shards ! shard_id)]))"

definition handle_apply_delta :: "bytes \<Rightarrow> dir list \<Rightarrow> dir list \<times> apply_error option" where
  "handle_apply_delta b shards =
     (case deserialize_sharded_delta b of Inl e \<Rightarrow> (shards, Some (BadBlob e)) | Inr delta \<Rightarrow> apply_shards (shard_deltas delta) shards)"

section \<open>Names\<close>

lemma starts_with_append: "starts_with (a @ b) n \<Longrightarrow> starts_with a n"
  by (metis append_eq_conv_conj append_take_drop_id length_append starts_with_def take_add append.assoc)

lemma starts_with_self [simp]: "starts_with a (a @ b)"
  by (simp add: starts_with_def)

lemma starts_with_same_length: "starts_with a n \<Longrightarrow> starts_with b n \<Longrightarrow> length a = length b \<Longrightarrow> a = b"
  by (simp add: starts_with_def)

lemma starts_with_nth: "starts_with a n \<Longrightarrow> i < length a \<Longrightarrow> n ! i = a ! i"
  by (metis nth_take starts_with_def)

lemma ends_with_rev: "ends_with e s \<longleftrightarrow> starts_with (rev e) (rev s)"
  by (auto simp: ends_with_def starts_with_def take_rev rev_swap)
    (metis diff_le_self length_drop length_rev nat_le_linear diff_diff_cancel)

definition hex_chars :: "u8 set" where
  "hex_chars = hex_digit ` {0..<16}"

lemma hex_chars_enum: "hex_chars = {48, 49, 50, 51, 52, 53, 54, 55, 56, 57, 97, 98, 99, 100, 101, 102}"
proof -
  have "{0..<16 :: nat} = {0, 1, 2, 3, 4, 5, 6, 7, 8, 9, 10, 11, 12, 13, 14, 15}" by (auto, presburger)
  then show ?thesis by (simp add: hex_chars_def hex_digit_def insert_commute)
qed

lemma unat_and_15: "unat ((w :: 'a::len word) AND 15) < 16"
proof -
  have "w AND 15 = take_bit 4 w" by (simp add: take_bit_eq_mask mask_eq_exp_minus_1)
  then have "unat (w AND 15) = take_bit 4 (unat w)" by (simp add: unsigned_take_bit_eq)
  then show ?thesis using take_bit_nat_less_exp [of 4 "unat w"] by simp
qed

lemma hex_pad_set: "set (hex_pad n w) \<subseteq> hex_chars"
  by (auto simp: hex_pad_def hex_chars_def unat_and_15 intro!: imageI)

lemma length_uuid [simp]: "length (uuid_string u) = 32"
  by (simp add: uuid_string_def hex_pad_def)

lemma uuid_chars: "c \<in> set (uuid_string u) \<Longrightarrow> c \<in> hex_chars"
  using hex_pad_set by (auto simp: uuid_string_def)

lemma uuid_no_dot [simp]: "dot \<notin> set (uuid_string u)"
  using uuid_chars by (force simp: hex_chars_enum)

lemma uuid_nth: "i < 32 \<Longrightarrow> uuid_string u ! i \<in> hex_chars"
  using uuid_chars [OF nth_mem [of i "uuid_string u"]] by simp

lemma fmt_dec_digits: "set (fmt_dec n) \<subseteq> {48..57} \<and> fmt_dec n \<noteq> []"
proof (induction n rule: fmt_dec.induct)
  case (1 n)
  have d: "of_nat (48 + k) \<in> {48 :: u8 .. 57}" if "k < 10" for k
  proof -
    have "k \<in> {0, 1, 2, 3, 4, 5, 6, 7, 8, 9}" using that by auto
    then show ?thesis by auto
  qed
  then show ?case using 1 by (subst (1 2) fmt_dec.simps) (auto simp: d [of n] d [of "n mod 10"] simp del: of_nat_add)
qed

lemma fmt_no_dot [simp]: "dot \<notin> set (fmt_dec n)" "dot \<notin> set (fmt_u32 w)" "dot \<notin> set (fmt_u64 g)"
proof -
  have "dot \<notin> set (fmt_dec n)" for n
  proof
    assume "dot \<in> set (fmt_dec n)"
    then have "dot \<in> {48..57}" using fmt_dec_digits [of n] by blast
    then show False by simp
  qed
  then show "dot \<notin> set (fmt_dec n)" "dot \<notin> set (fmt_u32 w)" "dot \<notin> set (fmt_u64 g)" by (simp_all add: fmt_u32_def fmt_u64_def)
qed

lemma unat_digit: "k < 10 \<Longrightarrow> unat (of_nat (48 + k) :: u8) = 48 + k"
  by (simp add: unat_of_nat del: of_nat_add)

lemma dec_value_fmt: "dec_value (fmt_dec n) = n"
proof (induction n rule: fmt_dec.induct)
  case (1 n)
  show ?case
  proof (cases "n < 10")
    case True
    then show ?thesis using unat_digit [of n] by (simp add: fmt_dec.simps [of n] dec_value_def del: of_nat_add)
  next
    case False
    then show ?thesis using 1 unat_digit [of "n mod 10"]
      by (simp add: fmt_dec.simps [of n] dec_value_def del: of_nat_add)
  qed
qed

lemma parse_fmt_u64: "parse_u64 (fmt_u64 g) = Some g"
proof -
  let ?s = "fmt_dec (unat g)"
  have d: "list_all is_digit ?s" "?s \<noteq> []" using fmt_dec_digits [of "unat g"] by (auto simp: list_all_iff is_digit_def)
  then obtain b r where s: "?s = b # r" by (cases ?s) auto
  then have "is_digit b" using d by simp
  then have b: "b \<noteq> 43" by (auto simp: is_digit_def)
  have "unat g < 2 ^ 64" using unsigned_less [of g] by simp
  then show ?thesis using d b by (simp add: parse_u64_def fmt_u64_def Let_def s) (simp add: dec_value_fmt flip: s)
qed

lemma trim_end_dots_digits: "dot \<notin> set ds \<Longrightarrow> trim_end_dots (ds @ [dot]) = ds"
  by (cases "rev ds") (auto simp: trim_end_dots_def dropWhile_eq_self_iff)

lemma dict_generation_id: "dict_generation (dictionary_bundle_id g) = Some g"
proof -
  have "drop 5 (dictionary_bundle_id g) = fmt_u64 g @ [dot]" by (simp add: dictionary_bundle_id_def)
  then show ?thesis using trim_end_dots_digits [of "fmt_u64 g"] parse_fmt_u64 [of g]
    by (simp add: dict_generation_def) (simp add: dictionary_bundle_id_def)
qed

lemma dict_generation_uuid: "dict_generation (uuid_string u) = None"
proof -
  have "uuid_string u ! 1 \<noteq> bstr ''dict-'' ! 1" using uuid_nth [of 1 u] by (auto simp: hex_chars_enum bstr_def)
  then have "\<not> starts_with (bstr ''dict-'') (uuid_string u)" using starts_with_nth [of "bstr ''dict-''" "uuid_string u" 1] by auto
  then show ?thesis by (simp add: dict_generation_def)
qed

lemma count_list_none: "x \<notin> set xs \<Longrightarrow> count_list xs x = 0"
  by (simp add: count_list_0_iff)

lemma ends_with_dot_mem: "ends_with e s \<Longrightarrow> x \<in> set e \<Longrightarrow> x \<in> set s"
  by (metis ends_with_def in_set_dropD)

lemma not_pair_uuid: "\<not> is_pair_bundle (uuid_string u)"
  by (auto simp: is_pair_bundle_def count_list_none)

lemma not_pair_dict: "\<not> is_pair_bundle (dictionary_bundle_id g)"
proof -
  have "dot \<notin> set (bstr ''dict-'')" by (simp add: bstr_def)
  then have "count_list (dictionary_bundle_id g) dot = 1" by (simp add: dictionary_bundle_id_def count_list_none)
  then show ?thesis by (simp add: is_pair_bundle_def)
qed

lemma count_list_bstr: "count_list (bstr ''minted.'') dot = 1" "count_list (bstr ''new'') dot = 0"
  by (simp_all add: bstr_def)

lemma ends_with_append [simp]: "ends_with e (xs @ e)"
  by (simp add: ends_with_def)

lemma pair_bundle: "dot \<notin> set u \<Longrightarrow> is_pair_bundle (pair_bundle_id fs u f)"
proof -
  assume u: "dot \<notin> set u"
  let ?stem = "u @ [dot] @ fmt_u32 f @ [dot]"
  have "ends_with (bstr ''.minted.'') ((u @ [dot] @ fmt_u32 f) @ bstr ''.minted.'')" "ends_with (bstr ''.new'') ((u @ [dot] @ fmt_u32 f) @ bstr ''.new'')"
    by (rule ends_with_append)+
  moreover have "(u @ [dot] @ fmt_u32 f) @ bstr ''.minted.'' = ?stem @ bstr ''minted.''" "(u @ [dot] @ fmt_u32 f) @ bstr ''.new'' = ?stem @ bstr ''new''"
    by (simp_all add: bstr_def)
  ultimately have "ends_with (bstr ''.minted.'') (?stem @ bstr ''minted.'')" "ends_with (bstr ''.new'') (?stem @ bstr ''new'')" by simp_all
  then show ?thesis using u by (simp add: is_pair_bundle_def pair_bundle_id_def Let_def count_list_none count_list_bstr)
qed

section \<open>The exporter keeps the contract\<close>

lemma existing_iff: "(n, c) \<in> set (existing fs names) \<longleftrightarrow> n \<in> set names \<and> map_of fs n = Some c"
  by (force simp: existing_def map_filter_def)

lemma dict_files_mem: "dict_files fs ns = Inr files \<Longrightarrow> (n, c) \<in> set files \<longleftrightarrow> n \<in> set ns \<and> map_of fs n = Some c"
  by (induction ns arbitrary: files) (force simp: and_then_Inr split: option.splits if_splits)+

lemma bundle_files_of_dir: "lucivy_bundle_files fs m i = Inr files \<Longrightarrow> (n, c) \<in> set files \<Longrightarrow> map_of fs n = Some c"
  by (auto simp: lucivy_bundle_files_def pair_files_def existing_iff dict_files_mem split: if_splits option.splits)

lemma bundle_ids_cases:
  assumes "i \<in> set (bundle_ids fs m)"
  obtains (seg) s where "s \<in> set (segments m)" "i = uuid_string (seg_uuid s)"
  | (dict) d g where "sfx_dictionary m = Some d" "g \<in> set (generations d)" "i = dictionary_bundle_id g"
  | (pair) d u f where "sfx_dictionary m = Some d" "u \<in> set (pending_segments d)" "f \<in> set (dict_field_ids d)" "i = pair_bundle_id fs u f"
  using assms by (cases "sfx_dictionary m") (auto simp: bundle_ids_def)

lemma files_of_prefix: "n \<in> set (files_of d g) \<Longrightarrow> starts_with (dictionary_bundle_id g) n"
  by (auto simp: files_of_def dictionary_file_name_def dictionary_bundle_id_def starts_with_def)

lemma list_files_prefix: "n \<in> set (list_files_for s v derived) \<Longrightarrow> starts_with (uuid_string (seg_uuid s)) n"
  by (auto simp: list_files_for_def relative_path_def)

lemma pair_files_prefix: "(n, c) \<in> set (pair_files fs i) \<Longrightarrow> starts_with i n"
  by (auto simp: pair_files_def existing_iff)

lemma find_uuid: "find (\<lambda>s. uuid_string (seg_uuid s) = i) ss = Some s \<Longrightarrow> uuid_string (seg_uuid s) = i \<and> s \<in> set ss"
  by (auto simp: find_Some_iff)

lemma trim_end_dots_keeps: "x \<noteq> dot \<Longrightarrow> x \<in> set s \<Longrightarrow> x \<in> set (trim_end_dots s)"
  by (simp add: trim_end_dots_def) (metis (mono_tags, lifting) UnE set_append set_rev set_takeWhileD takeWhile_dropWhile_id)

lemma parse_u64_digits: "parse_u64 s = Some g \<Longrightarrow> x \<in> set s \<Longrightarrow> x = 43 \<or> is_digit x"
  by (auto simp: parse_u64_def Let_def list_all_iff split: list.splits if_splits)

lemma pair_id_not_generation: "dict_generation (pair_bundle_id fs u f) = None"
proof (cases "starts_with (bstr ''dict-'') (pair_bundle_id fs u f)")
  case True
  let ?i = "pair_bundle_id fs u f"
  obtain rest where rest: "rest \<in> {bstr ''new'', bstr ''minted.''}" "?i = u @ dot # fmt_u32 f @ dot # rest"
    by (cases "exists_file fs (u @ [dot] @ fmt_u32 f @ [dot] @ bstr ''newtexts'')") (auto simp: pair_bundle_id_def Let_def)
  have "5 \<le> length u"
  proof (rule ccontr)
    assume "\<not> 5 \<le> length u"
    then have l: "length u < length (bstr ''dict-'')" by simp
    have "bstr ''dict-'' ! length u = dot" using starts_with_nth [OF True l] rest by (simp add: nth_append)
    moreover have "dot \<notin> set (bstr ''dict-'')" by (simp add: bstr_def)
    ultimately show False using nth_mem [OF l] by simp
  qed
  then have "110 \<in> set (drop 5 ?i)" using rest by (auto simp: bstr_def)
  then have "110 \<in> set (trim_end_dots (drop 5 ?i))" by (intro trim_end_dots_keeps) auto
  moreover have "\<not> is_digit 110" by (simp add: is_digit_def)
  ultimately show ?thesis using parse_u64_digits [of "trim_end_dots (drop 5 ?i)" _ 110]
    by (cases "parse_u64 (trim_end_dots (drop 5 ?i))") (auto simp: dict_generation_def)
qed (simp add: dict_generation_def)

lemma dict_generation_named:
  assumes "i \<in> set (bundle_ids fs m)" and "dict_generation i = Some g"
  shows "i = dictionary_bundle_id g"
  using assms(1) by (cases rule: bundle_ids_cases)
    (use assms(2) in \<open>auto simp: dict_generation_uuid dict_generation_id pair_id_not_generation\<close>)

lemma bundle_files_named:
  assumes i: "i \<in> set (bundle_ids fs m)" and f: "lucivy_bundle_files fs m i = Inr files" "(n, c) \<in> set files"
  shows "starts_with i n"
proof (cases "is_pair_bundle i")
  case True
  then show ?thesis using f pair_files_prefix by (auto simp: lucivy_bundle_files_def)
next
  case pair: False
  show ?thesis
  proof (cases "dict_generation i")
    case None
    then show ?thesis using f pair
      by (auto simp: lucivy_bundle_files_def existing_iff split: option.splits dest!: find_uuid list_files_prefix)
  next
    case (Some g)
    then show ?thesis using f pair dict_generation_named [OF i Some] files_of_prefix
      by (auto simp: lucivy_bundle_files_def dict_files_mem split: option.splits)
  qed
qed

interpretation lx: delta_exporter "lucivy_exporter parse_metas fs uncommitted" fs for parse_metas fs uncommitted
proof (unfold_locales, goal_cases)
  case (1 i files n c)
  then show ?case by (auto simp: lucivy_exporter_def and_then_Inr intro: bundle_files_of_dir)
next
  case (2 ids i files n c)
  then show ?case by (auto simp: lucivy_exporter_def and_then_Inr intro: bundle_files_named)
qed

section \<open>What a synchronised client holds\<close>

text \<open>The files the manifest names: of every segment, generation and pending pair.\<close>

definition inventory :: "IndexMeta \<Rightarrow> bytes list" where
  "inventory m = concat (map (\<lambda>s. list_files_for s (meta_sfx_version m) (skips_derived_files m)) (segments m))
     @ (case sfx_dictionary m of None \<Rightarrow> [] | Some d \<Rightarrow> dictionary_files d)"

definition generation_files_present :: "dir \<Rightarrow> SfxDictionaryMeta \<Rightarrow> bool" where
  "generation_files_present fs d \<longleftrightarrow> (\<forall>g \<in> set (generations d). \<forall>f \<in> set (dict_field_ids d).
     exists_file fs (dictionary_file_name g f (bstr ''sfx'')) \<and> exists_file fs (dictionary_file_name g f (bstr ''termtexts'')))"

text \<open>A manifest with distinct segments, whose dictionary, if any, has the files of its generations and pending segments
  named by segment ids.\<close>

definition server_ok :: "dir \<Rightarrow> IndexMeta \<Rightarrow> bool" where
  "server_ok fs m \<longleftrightarrow> distinct (map (\<lambda>s. uuid_string (seg_uuid s)) (segments m)) \<and> (case sfx_dictionary m of None \<Rightarrow> True
     | Some d \<Rightarrow> generation_files_present fs d \<and> set (pending_segments d) \<subseteq> range uuid_string)"

text \<open>The files of pending pairs that a synchronisation does not leave on the client: the pair of a segment the client has
  and the manifest no longer lists; and of the two generations of names, \<open>newtexts\<close> and the current names where
  \<open>newtexts\<close> exists, \<open>newsfx\<close> where it does not.\<close>

definition pair_names :: "bytes \<Rightarrow> u32 \<Rightarrow> bytes set" where
  "pair_names u f = \<Union> ((\<lambda>(a, b). {a, b}) ` set (pair_file_names u f))"

definition unread_names :: "dir \<Rightarrow> bytes \<Rightarrow> u32 \<Rightarrow> bytes set" where
  "unread_names fs u f = (let stem = u @ [dot] @ fmt_u32 f @ [dot] in
     if exists_file fs (stem @ bstr ''newtexts'') then {stem @ bstr ''newtexts'', stem @ bstr ''minted.sfx'', stem @ bstr ''minted.termtexts''}
     else {stem @ bstr ''newsfx''})"

definition pair_left_out :: "dir \<Rightarrow> IndexMeta \<Rightarrow> bytes list \<Rightarrow> bytes \<Rightarrow> bool" where
  "pair_left_out fs m client_ids n \<longleftrightarrow> (case sfx_dictionary m of None \<Rightarrow> False
     | Some d \<Rightarrow> \<exists>u \<in> set (pending_segments d). \<exists>f \<in> set (dict_field_ids d).
         n \<in> unread_names fs u f
         \<or> (n \<in> pair_names u f \<and> u \<in> set client_ids \<and> u \<notin> (\<lambda>s. uuid_string (seg_uuid s)) ` set (segments m)))"

text \<open>The client holds the files of the segments it shares; files that record deletions excepted.\<close>

definition client_ok :: "dir \<Rightarrow> IndexMeta \<Rightarrow> bytes list \<Rightarrow> dir \<Rightarrow> bool" where
  "client_ok fs m client_ids client \<longleftrightarrow> (\<forall>s \<in> set (segments m). uuid_string (seg_uuid s) \<in> set client_ids \<longrightarrow>
     (\<forall>n \<in> set (list_files_for s (meta_sfx_version m) (skips_derived_files m)).
        exists_file fs n \<longrightarrow> \<not> ends_with (bstr ''.del'') n \<longrightarrow> map_of client n = map_of fs n))"

lemma dict_files_total:
  "\<forall>n \<in> set ns. exists_file fs n \<or> path_extension n = Some GROUP_INDEX_EXT \<Longrightarrow> \<exists>files. dict_files fs ns = Inr files"
  by (induction ns) (auto simp: exists_file_def split: option.splits)

lemma path_extension_dot: "s \<noteq> [] \<Longrightarrow> dot \<notin> set e \<Longrightarrow> path_extension (s @ dot # e) = Some e"
  by (cases s) (auto simp: path_extension_def takeWhile_append)

lemma path_extension_pidx: "path_extension (dictionary_file_name g f GROUP_INDEX_EXT) = Some GROUP_INDEX_EXT"
proof -
  have "dictionary_file_name g f GROUP_INDEX_EXT = (bstr ''dict-'' @ fmt_u64 g @ dot # fmt_u32 f) @ dot # GROUP_INDEX_EXT"
    by (simp add: dictionary_file_name_def)
  moreover have "path_extension ((bstr ''dict-'' @ fmt_u64 g @ dot # fmt_u32 f) @ dot # GROUP_INDEX_EXT) = Some GROUP_INDEX_EXT"
    by (rule path_extension_dot) (simp_all add: GROUP_INDEX_EXT_def bstr_def)
  ultimately show ?thesis by simp
qed

lemma bundle_files_total:
  assumes "server_ok fs m" and "i \<in> set (bundle_ids fs m)"
  shows "\<exists>files. lucivy_bundle_files fs m i = Inr files"
  using assms(2)
proof (cases rule: bundle_ids_cases)
  case (seg s)
  then have "find (\<lambda>s. uuid_string (seg_uuid s) = i) (segments m) \<noteq> None" by (auto simp: find_None_iff)
  then show ?thesis using seg by (auto simp: lucivy_bundle_files_def not_pair_uuid dict_generation_uuid)
next
  case (dict d g)
  then have "\<forall>n \<in> set (files_of d g). exists_file fs n \<or> path_extension n = Some GROUP_INDEX_EXT"
    using assms(1) by (auto simp: server_ok_def generation_files_present_def files_of_def GENERATION_EXTENSIONS_def path_extension_pidx)
  then show ?thesis using dict dict_files_total by (simp add: lucivy_bundle_files_def not_pair_dict dict_generation_id)
next
  case (pair d u f)
  then have "dot \<notin> set u" using assms(1) by (auto simp: server_ok_def)
  then show ?thesis using pair by (simp add: lucivy_bundle_files_def pair_bundle)
qed

lemma first_char:
  assumes "server_ok fs m" and "i \<in> set (bundle_ids fs m)" and "starts_with i n"
  shows "n ! 0 \<in> hex_chars"
  using assms(2)
proof (cases rule: bundle_ids_cases)
  case (seg s)
  then show ?thesis using starts_with_nth [OF assms(3), of 0] uuid_nth [of 0] by simp
next
  case (dict d g)
  then have "n ! 0 = 100" using starts_with_nth [OF assms(3), of 0] by (simp add: dictionary_bundle_id_def bstr_def)
  then show ?thesis by (simp add: hex_chars_enum)
next
  case (pair d u f)
  then obtain x where "u = uuid_string x" using assms(1) by (auto simp: server_ok_def)
  moreover have "starts_with u n" using pair(4) assms(3) starts_with_append by (fastforce simp: pair_bundle_id_def Let_def split: if_splits)
  ultimately show ?thesis using starts_with_nth [of u n 0] uuid_nth [of 0] by simp
qed

lemma special_first: "n \<in> {META, META_TMP, CONFIG} \<Longrightarrow> n ! 0 \<notin> hex_chars"
  by (auto simp: bstr_def hex_chars_enum)

lemma find_distinct:
  "distinct (map f xs) \<Longrightarrow> x \<in> set xs \<Longrightarrow> find (\<lambda>y. f y = f x) xs = Some x"
  by (induction xs) (auto simp: image_iff)

text \<open>A file the manifest names and the exporter reads lies in a bundle; a segment id that is not of the manifest is a
  prefix of it only if it is of a pending pair.\<close>

definition apart :: "IndexMeta \<Rightarrow> bytes \<Rightarrow> bytes \<Rightarrow> bool" where
  "apart m r n \<longleftrightarrow> \<not> starts_with r n \<or> r \<in> (\<lambda>s. uuid_string (seg_uuid s)) ` set (segments m)"

lemma segment_apart: "s \<in> set (segments m) \<Longrightarrow> starts_with (uuid_string (seg_uuid s)) n \<Longrightarrow> apart m (uuid_string x) n"
  using starts_with_same_length [of "uuid_string x" n "uuid_string (seg_uuid s)"] by (auto simp: apart_def)

lemma generation_apart: "starts_with (dictionary_bundle_id g) n \<Longrightarrow> apart m (uuid_string x) n"
proof -
  assume n: "starts_with (dictionary_bundle_id g) n"
  have "n ! 1 = 105" using starts_with_nth [OF n, of 1] by (simp add: dictionary_bundle_id_def bstr_def)
  then have "\<not> starts_with (uuid_string x) n" using starts_with_nth [of "uuid_string x" n 1] uuid_nth [of 1 x] by (auto simp: hex_chars_enum)
  then show ?thesis by (simp add: apart_def)
qed

lemma pair_names_prefix: "n \<in> pair_names u f \<Longrightarrow> starts_with u n"
  by (auto simp: pair_names_def pair_file_names_def Let_def)

lemma inventory_cases:
  assumes "n \<in> set (inventory m)"
  obtains (seg) s where "s \<in> set (segments m)" "n \<in> set (list_files_for s (meta_sfx_version m) (skips_derived_files m))"
  | (gen) d g where "sfx_dictionary m = Some d" "g \<in> set (generations d)" "n \<in> set (files_of d g)"
  | (pair) d u f where "sfx_dictionary m = Some d" "u \<in> set (pending_segments d)" "f \<in> set (dict_field_ids d)" "n \<in> pair_names u f"
  using assms by (cases "sfx_dictionary m") (fastforce simp: inventory_def dictionary_files_def pair_inventory_def pair_names_def)+

lemma pair_bundled:
  assumes "n \<in> pair_names u f" and "n \<notin> unread_names fs u f" and "map_of fs n = Some c"
  shows "(n, c) \<in> set (pair_files fs (pair_bundle_id fs u f))"
  using assms
  by (auto simp: pair_names_def pair_file_names_def unread_names_def pair_files_def pair_bundle_id_def existing_iff exists_file_def Let_def bstr_def
      split: if_splits)

lemma inventory_bundled:
  assumes ok: "server_ok fs m" and n: "n \<in> set (inventory m)" and c: "map_of fs n = Some c" and left: "\<not> pair_left_out fs m client_ids n"
  shows "\<exists>i \<in> set (bundle_ids fs m). \<exists>files. lucivy_bundle_files fs m i = Inr files \<and> (n, c) \<in> set files"
  using n
proof (cases rule: inventory_cases)
  case (seg s)
  let ?i = "uuid_string (seg_uuid s)"
  have "find (\<lambda>t. uuid_string (seg_uuid t) = ?i) (segments m) = Some s"
    using find_distinct [of "\<lambda>s. uuid_string (seg_uuid s)" "segments m" s] ok seg(1) by (simp add: server_ok_def)
  then have "lucivy_bundle_files fs m ?i = Inr (existing fs (list_files_for s (meta_sfx_version m) (skips_derived_files m)))"
    by (simp add: lucivy_bundle_files_def not_pair_uuid dict_generation_uuid)
  then show ?thesis using seg c by (intro bexI [of _ ?i]) (auto simp: existing_iff bundle_ids_def)
next
  case (gen d g)
  let ?i = "dictionary_bundle_id g"
  have i: "?i \<in> set (bundle_ids fs m)" using gen by (auto simp: bundle_ids_def)
  from bundle_files_total [OF ok i] obtain files where files: "lucivy_bundle_files fs m ?i = Inr files" by blast
  then have "dict_files fs (files_of d g) = Inr files" using gen by (simp add: lucivy_bundle_files_def not_pair_dict dict_generation_id)
  then show ?thesis using i files gen c dict_files_mem by blast
next
  case (pair d u f)
  have u: "dot \<notin> set u" using ok pair by (auto simp: server_ok_def)
  have "n \<notin> unread_names fs u f" using left pair by (auto simp: pair_left_out_def)
  then have "(n, c) \<in> set (pair_files fs (pair_bundle_id fs u f))" using pair_bundled pair(4) c by blast
  then show ?thesis using pair u by (intro bexI [of _ "pair_bundle_id fs u f"]) (auto simp: lucivy_bundle_files_def pair_bundle bundle_ids_def)
qed

lemma inventory_apart:
  assumes ok: "server_ok fs m" and n: "n \<in> set (inventory m)" and left: "\<not> pair_left_out fs m client_ids n" and r: "uuid_string x \<in> set client_ids"
  shows "apart m (uuid_string x) n"
  using n
proof (cases rule: inventory_cases)
  case (seg s)
  then show ?thesis using segment_apart list_files_prefix by blast
next
  case (gen d g)
  then show ?thesis using generation_apart files_of_prefix by blast
next
  case (pair d u f)
  obtain y where y: "u = uuid_string y" using ok pair by (auto simp: server_ok_def)
  have "uuid_string x = u" if "starts_with (uuid_string x) n"
    using starts_with_same_length [OF that pair_names_prefix [OF pair(4)]] y by simp
  then show ?thesis using left pair r by (auto simp: pair_left_out_def apart_def)
qed

lemma bundle_files_shared:
  assumes ok: "server_ok fs m" and cl: "client_ok fs m client_ids client" and ids: "set client_ids \<subseteq> range uuid_string"
    and i: "i \<in> set client_ids" and f: "lucivy_bundle_files fs m i = Inr files" "(n, c) \<in> set files" "\<not> is_del (n, c)"
  shows "map_of client n = Some c"
proof -
  obtain x where x: "i = uuid_string x" using i ids by blast
  then obtain s where s: "find (\<lambda>s. uuid_string (seg_uuid s) = i) (segments m) = Some s"
    and files: "files = existing fs (list_files_for s (meta_sfx_version m) (skips_derived_files m))"
    using f(1) by (auto simp: lucivy_bundle_files_def not_pair_uuid dict_generation_uuid split: option.splits)
  have "s \<in> set (segments m)" "uuid_string (seg_uuid s) \<in> set client_ids" using find_uuid [OF s] i by auto
  then show ?thesis using cl f(2,3) files by (auto simp: client_ok_def existing_iff is_del_def exists_file_def)
qed

lemma exporter_fields:
  assumes "snapshot parse_metas fs = Inr (b, m)"
  shows "current_bundle_ids (lucivy_exporter parse_metas fs uncommitted) = Inr (bundle_ids fs m)"
    and "manifest_bytes (lucivy_exporter parse_metas fs uncommitted) = Inr b"
    and "read_bundle_files (lucivy_exporter parse_metas fs uncommitted) i = lucivy_bundle_files fs m i"
    and "read_config (lucivy_exporter parse_metas fs uncommitted) = map_of fs CONFIG"
    and "has_uncommitted (lucivy_exporter parse_metas fs uncommitted) = uncommitted"
  using assms by (simp_all add: lucivy_exporter_def)

lemma lucivy_export_total:
  assumes "snapshot parse_metas fs = Inr (b, m)" and "server_ok fs m"
  shows "\<exists>d. export_delta parse_metas fs False client_ids v = Inr d"
  unfolding export_delta_def using exporter_fields [OF assms(1)] bundle_files_total [OF assms(2)]
  by (intro export_total) auto

lemma lucivy_delivers:
  assumes m: "snapshot parse_metas fs = Inr (b, m)" and ok: "server_ok fs m"
    and ids: "set client_ids \<subseteq> range uuid_string" and cl: "client_ok fs m client_ids client"
    and d: "export_delta parse_metas fs False client_ids v = Inr d" and n: "n \<in> set (inventory m)" and c: "map_of fs n = Some c"
    and left: "\<not> pair_left_out fs m client_ids n"
  shows "map_of (apply_delta d client) n = Some c"
proof -
  let ?ex = "lucivy_exporter parse_metas fs False"
  note e = exporter_fields [OF m, where uncommitted = False]
  note d' = d [unfolded export_delta_def]
  note b = inventory_bundled [OF ok n c left]
  have f: "bundle_file_of ?ex (bundle_ids fs m) n c" using b e(3) by (simp add: bundle_file_of_def)
  have keep: "\<not> retired d n"
  proof
    assume "retired d n"
    from lx.retired_not_current [OF d' e(1) f this] obtain r where r: "r \<in> set client_ids" "r \<notin> set (bundle_ids fs m)"
      "starts_with r n" by blast
    moreover obtain x where "r = uuid_string x" using r(1) ids by blast
    ultimately have "r \<in> (\<lambda>s. uuid_string (seg_uuid s)) ` set (segments m)" using inventory_apart [OF ok n left] by (auto simp: apart_def)
    then show False using r(2) by (auto simp: bundle_ids_def)
  qed
  have "n ! 0 \<in> hex_chars" using b first_char [OF ok] bundle_files_named by blast
  then have own: "n \<notin> {META, META_TMP, CONFIG}" using special_first by blast
  show ?thesis
    by (rule lx.delivers [OF d' e(1) _ f own keep]) (use bundle_files_shared [OF ok cl ids] e(3) in auto)
qed

lemma lucivy_retires:
  assumes m: "snapshot parse_metas fs = Inr (b, m)" and ids: "set client_ids \<subseteq> range uuid_string"
    and d: "export_delta parse_metas fs False client_ids v = Inr d"
    and r: "r \<in> set client_ids" "r \<notin> set (bundle_ids fs m)" "starts_with r n"
  shows "map_of (apply_delta d client) n = None"
proof -
  have "retired d n"
    using export_facts(4) [OF d [unfolded export_delta_def] exporter_fields(1) [OF m]] r by (auto simp: retired_def)
  moreover obtain x where "r = uuid_string x" using r(1) ids by blast
  then have "n ! 0 \<in> hex_chars" using starts_with_nth [OF r(3), of 0] uuid_nth [of 0 x] by simp
  then have "n \<notin> {META, META_TMP, CONFIG}" using special_first by blast
  ultimately show ?thesis by (simp add: map_of_apply_delta)
qed

lemma lucivy_manifest:
  assumes "snapshot parse_metas fs = Inr (b, m)" and "export_delta parse_metas fs False client_ids v = Inr d"
  shows "map_of (apply_delta d client) META = Some b"
  using export_facts(1) [OF assms(2) [unfolded export_delta_def] exporter_fields(1) [OF assms(1)]] exporter_fields(2) [OF assms(1)]
  by (simp add: map_of_apply_delta)

section \<open>What the exporter misses\<close>

text \<open>A pending segment that a merge has removed from the manifest: its pair is sent and then deleted again with the
  files of the segment, whose id is a prefix of theirs.\<close>

lemma merged_pending_pair_lost:
  assumes m: "snapshot parse_metas fs = Inr (b, m)" and ids: "set client_ids \<subseteq> range uuid_string"
    and d: "export_delta parse_metas fs False client_ids v = Inr d"
    and u: "u \<in> set client_ids" "u \<notin> set (bundle_ids fs m)"
    and pair: "(n, c) \<in> set (delta_files d)" "n = u @ [dot] @ fmt_u32 f @ [dot] @ bstr ''minted.termtexts''"
  shows "map_of (apply_delta d client) n = None"
  by (rule lucivy_retires [OF m ids d u]) (simp add: pair(2))

text \<open>The clients' ids are segment ids, so no file of a dictionary generation is ever removed.\<close>

lemma dictionary_never_retired:
  assumes m: "snapshot parse_metas fs = Inr (b, m)" and ids: "set client_ids \<subseteq> range uuid_string"
    and d: "export_delta parse_metas fs False client_ids v = Inr d" and n: "starts_with (bstr ''dict-'') n"
  shows "\<not> retired d n"
proof
  assume "retired d n"
  then obtain x where x: "starts_with (uuid_string x) n"
    using export_facts(4) [OF d [unfolded export_delta_def] exporter_fields(1) [OF m]] ids by (auto simp: retired_def)
  have "n ! 1 = 105" using starts_with_nth [OF n, of 1] by (simp add: bstr_def)
  moreover have "n ! 1 \<in> hex_chars" using starts_with_nth [OF x, of 1] uuid_nth [of 1 x] by simp
  ultimately show False by (simp add: hex_chars_enum)
qed

text \<open>The texts of a pair with the names before 4.3 are in no bundle: the exporter appends \<open>termtexts\<close> to the bundle id
  \<open><uuid>.<field>.new\<close>, while the file is \<open><uuid>.<field>.newtexts\<close>.\<close>

lemmas ends_with_eval = ends_with_rev starts_with_def bstr_def

lemma registry_not_newtexts: "e \<in> set (map fst all_indexes) \<Longrightarrow> \<not> ends_with (bstr ''newtexts'') (x @ dot # e)"
  unfolding all_indexes_def by (simp only: list.map fst_conv set_simps insert_iff empty_iff, elim disjE) (simp_all add: ends_with_eval)

lemma components_for_cases:
  assumes "c \<in> set (components_for fids v derived)"
  obtains "c \<in> set fixed_components" | fid where "c = SuffixFst fid" | fid e where "c = CustomSfxIndex fid e" "e \<in> set (map fst all_indexes)"
  using assms unfolding components_for_def by (force split: if_splits)

lemma fixed_not_newtexts: "c \<in> set fixed_components \<Longrightarrow> \<not> ends_with (bstr ''newtexts'') (relative_path s c)"
  unfolding fixed_components_def by (simp only: set_simps insert_iff empty_iff, elim disjE) (simp_all add: relative_path_def ends_with_eval)

lemma component_not_newtexts:
  assumes "c \<in> set (components_for fids v derived)"
  shows "\<not> ends_with (bstr ''newtexts'') (relative_path s c)"
  using assms
proof (cases rule: components_for_cases)
  case 1
  then show ?thesis by (rule fixed_not_newtexts)
next
  case (2 fid)
  then show ?thesis by (simp add: relative_path_def ends_with_eval)
next
  case (3 fid e)
  then show ?thesis using registry_not_newtexts [of e "uuid_string (seg_uuid s) @ [dot] @ fmt_u32 fid"] by (simp add: relative_path_def)
qed

lemma legacy_texts_not_sent:
  assumes "lucivy_bundle_files fs m i = Inr files" and "(n, c) \<in> set files"
  shows "\<not> ends_with (bstr ''newtexts'') n"
proof (cases "is_pair_bundle i")
  case True
  then have "n = i @ bstr ''sfx'' \<or> n = i @ bstr ''termtexts''" using assms by (auto simp: lucivy_bundle_files_def pair_files_def existing_iff)
  then show ?thesis by (auto simp: ends_with_rev starts_with_def bstr_def)
next
  case pair: False
  show ?thesis
  proof (cases "dict_generation i")
    case None
    then obtain s where "n \<in> set (list_files_for s (meta_sfx_version m) (skips_derived_files m))"
      using assms pair by (auto simp: lucivy_bundle_files_def existing_iff split: option.splits)
    then show ?thesis using component_not_newtexts by (auto simp: list_files_for_def)
  next
    case (Some g)
    then obtain d where "n \<in> set (files_of d g)" using assms pair by (auto simp: lucivy_bundle_files_def dict_files_mem split: option.splits)
    then show ?thesis
      by (auto simp: files_of_def dictionary_file_name_def GENERATION_EXTENSIONS_def GROUP_INDEX_EXT_def ends_with_rev starts_with_def bstr_def)
  qed
qed

lemma legacy_texts_lost:
  assumes m: "snapshot parse_metas fs = Inr (b, m)" and d: "export_delta parse_metas fs False client_ids v = Inr d"
    and n: "ends_with (bstr ''newtexts'') n"
  shows "map_of (apply_delta d []) n = None"
proof -
  have "\<not> ends_with (bstr ''newtexts'') META" "\<not> ends_with (bstr ''newtexts'') CONFIG"
    by (simp_all add: ends_with_rev starts_with_def bstr_def)
  then have own: "n \<noteq> META" "n \<noteq> CONFIG" using n by auto
  have "n \<notin> fst ` set (delta_files d)"
    using export_facts(3) [OF d [unfolded export_delta_def] exporter_fields(1) [OF m]] exporter_fields(3) [OF m] legacy_texts_not_sent n by fastforce
  then have "map_of (rev (delta_files d)) n = None" by (simp add: map_of_eq_None_iff)
  then show ?thesis using own by (simp add: map_of_apply_delta)
qed

section \<open>A synchronised shard\<close>

lemma sync_shard:
  assumes "snapshot parse_metas fs = Inr (b, m)" and "server_ok fs m"
    and "set client_ids \<subseteq> range uuid_string" and "client_ok fs m client_ids client"
    and "export_delta parse_metas fs False client_ids v = Inr d"
  shows "map_of (apply_delta d client) META = Some b
    \<and> (\<forall>n \<in> set (inventory m). exists_file fs n \<and> \<not> pair_left_out fs m client_ids n \<longrightarrow> map_of (apply_delta d client) n = map_of fs n)
    \<and> (\<forall>r \<in> set client_ids. r \<notin> set (bundle_ids fs m) \<longrightarrow> (\<forall>n. starts_with r n \<longrightarrow> map_of (apply_delta d client) n = None))"
proof (intro conjI ballI impI allI)
  show "map_of (apply_delta d client) META = Some b" using lucivy_manifest assms by blast
next
  fix n assume "n \<in> set (inventory m)" "exists_file fs n \<and> \<not> pair_left_out fs m client_ids n"
  then show "map_of (apply_delta d client) n = map_of fs n" using lucivy_delivers [OF assms] by (auto simp: exists_file_def)
next
  fix r n assume "r \<in> set client_ids" "r \<notin> set (bundle_ids fs m)" "starts_with r n"
  then show "map_of (apply_delta d client) n = None" using lucivy_retires [OF assms(1,3,5)] by blast
qed

text \<open>A server with a segment that has deletions, a dictionary of one generation and one pending pair; a client that has
  the segment without its deletions and a segment the server has merged away.\<close>

definition demo_segment :: SegmentMeta where
  "demo_segment = \<lparr>seg_uuid = 1, sfx_field_ids = [], delete_opstamp = Some 7, include_temp_doc_store = False\<rparr>"

definition demo_dict :: SfxDictionaryMeta where
  "demo_dict = \<lparr>generations = [3], next_generation = 4, next_ids = [], dict_field_ids = [5], pending_segments = [uuid_string 1]\<rparr>"

definition demo_meta :: IndexMeta where
  "demo_meta = \<lparr>meta_sfx_version = 4, derived_in_ram = False, meta_positions = True, segments = [demo_segment], sfx_dictionary = Some demo_dict\<rparr>"

definition demo_server :: dir where
  "demo_server = [(META, bstr ''{}''), (uuid_string 1 @ bstr ''.idx'', [1, 2]), (relative_path demo_segment Delete, [3]),
     (dictionary_file_name 3 5 (bstr ''sfx''), [4]), (dictionary_file_name 3 5 (bstr ''termtexts''), [5]),
     (uuid_string 1 @ [dot] @ fmt_u32 5 @ [dot] @ bstr ''minted.termtexts'', [6])]"

definition demo_client :: dir where
  "demo_client = [(uuid_string 1 @ bstr ''.idx'', [1, 2]), (META, bstr ''[]''), (uuid_string 2 @ bstr ''.idx'', [9])]"

abbreviation demo_parse :: meta_parser where "demo_parse \<equiv> \<lambda>_. Some demo_meta"

lemma uuid_not_special [simp]: "uuid_string u @ x \<noteq> META" "META \<noteq> uuid_string u @ x"
  using special_first [of META] uuid_nth [of 0 u] by (auto simp: nth_append dest!: arg_cong [where f = "\<lambda>n. n ! 0"])

lemma uuid_not_dict [simp]: "uuid_string u @ x \<noteq> dictionary_file_name g f e" "dictionary_file_name g f e \<noteq> uuid_string u @ x"
  using uuid_nth [of 1 u] by (auto simp: nth_append dictionary_file_name_def bstr_def hex_chars_enum dest!: arg_cong [where f = "\<lambda>n. n ! 1"])

lemma demo_snapshot: "snapshot demo_parse demo_server = Inr (bstr ''{}'', demo_meta)"
  by (simp add: snapshot_def demo_server_def bstr_def)

lemma demo_server_ok: "server_ok demo_server demo_meta"
  by (simp add: server_ok_def generation_files_present_def demo_meta_def demo_dict_def demo_segment_def exists_file_def demo_server_def)

lemma demo_client_ok: "client_ok demo_server demo_meta [uuid_string 1, uuid_string 2] demo_client"
proof -
  have "map_of demo_client n = map_of demo_server n"
    if "n \<in> set (list_files_for demo_segment 4 False)" "exists_file demo_server n" "\<not> ends_with (bstr ''.del'') n" for n
    using that
    by (auto simp: list_files_for_def components_for_def fixed_components_def demo_segment_def relative_path_def exists_file_def
        demo_server_def demo_client_def bstr_def ends_with_def split: if_splits)
  then show ?thesis by (simp add: client_ok_def demo_meta_def demo_segment_def skips_derived_files_def)
qed

lemma demo_del_listed: "relative_path demo_segment Delete \<in> set (inventory demo_meta)"
proof -
  have "Delete \<in> set (components_for [] 4 False)" by (simp add: components_for_def fixed_components_def)
  then have "relative_path demo_segment Delete \<in> set (list_files_for demo_segment 4 False)"
    unfolding list_files_for_def by (simp add: demo_segment_def)
  then show ?thesis by (simp add: inventory_def demo_meta_def skips_derived_files_def)
qed

lemma demo_del_stored: "map_of demo_server (relative_path demo_segment Delete) = Some [3]"
proof -
  let ?n = "relative_path demo_segment Delete"
  have "ends_with (bstr ''.del'') ?n" "\<not> ends_with (bstr ''.del'') (uuid_string 1 @ bstr ''.idx'')" "\<not> ends_with (bstr ''.del'') META"
    by (simp_all add: relative_path_def ends_with_eval)
  then have "?n \<noteq> uuid_string 1 @ bstr ''.idx''" "?n \<noteq> META" by metis+
  then show ?thesis by (simp only: demo_server_def map_of.simps fst_conv snd_conv fun_upd_apply) simp
qed

definition demo_pair :: bytes where
  "demo_pair = uuid_string 1 @ [dot] @ fmt_u32 5 @ [dot] @ bstr ''minted.termtexts''"

lemma demo_pair_listed: "demo_pair \<in> set (inventory demo_meta)"
  by (simp add: inventory_def dictionary_files_def pair_inventory_def pair_file_names_def demo_meta_def demo_dict_def demo_pair_def Let_def)

lemma demo_pair_stored: "map_of demo_server demo_pair = Some [6]"
proof -
  have e: "ends_with (bstr ''minted.termtexts'') demo_pair"
    unfolding demo_pair_def using ends_with_append [of "bstr ''minted.termtexts''" "uuid_string 1 @ [dot] @ fmt_u32 5 @ [dot]"] by simp
  have "\<forall>k \<in> {META, uuid_string 1 @ bstr ''.idx'', relative_path demo_segment Delete, dictionary_file_name 3 5 (bstr ''sfx''),
      dictionary_file_name 3 5 (bstr ''termtexts'')}. \<not> ends_with (bstr ''minted.termtexts'') k"
    by (simp add: relative_path_def dictionary_file_name_def ends_with_eval fmt_u32_def fmt_dec.simps [of 5])
  then have "demo_pair \<noteq> META" "demo_pair \<noteq> uuid_string 1 @ bstr ''.idx''" "demo_pair \<noteq> relative_path demo_segment Delete"
    "demo_pair \<noteq> dictionary_file_name 3 5 (bstr ''sfx'')" "demo_pair \<noteq> dictionary_file_name 3 5 (bstr ''termtexts'')" using e by auto
  then show ?thesis unfolding demo_server_def demo_pair_def [symmetric] by simp
qed

lemma demo_not_left_out:
  assumes "\<not> ends_with (bstr ''newsfx'') n"
  shows "\<not> pair_left_out demo_server demo_meta client_ids n"
proof -
  have "\<forall>k \<in> fst ` set demo_server. \<not> ends_with (bstr ''newtexts'') k"
    by (simp add: demo_server_def relative_path_def dictionary_file_name_def ends_with_eval)
  then have "\<not> exists_file demo_server (x @ bstr ''newtexts'')" for x
    using ends_with_append [of "bstr ''newtexts''" x] unfolding exists_file_def by (metis map_of_eq_None_iff)
  then have "unread_names demo_server u f = {(u @ [dot] @ fmt_u32 f @ [dot]) @ bstr ''newsfx''}" for u f
    unfolding unread_names_def Let_def by (metis append_assoc)
  moreover have "n \<noteq> x @ bstr ''newsfx''" for x using assms by auto
  ultimately show ?thesis by (simp add: pair_left_out_def demo_meta_def demo_dict_def demo_segment_def del: append_assoc)
qed

text \<open>C30.  The server has no uncommitted changes and its manifest parses, with distinct segments, every \<open>sfx\<close> and
  \<open>termtexts\<close> file of its dictionary generations present and its pending segments named by segment ids; the client sends
  segment ids, and holds the server's files of the segments it shares, those that record deletions excepted. Then the
  export succeeds, and applying it leaves on the client the server's manifest and, with the server's contents, every
  file the manifest names that the server has: segment files, new deletions, dictionary generations and pending pairs,
  except the pair files of \<open>pair_left_out\<close>. These are the pair of a pending segment the client has and the manifest no
  longer lists, which is sent and deleted again; and of the two namings of a pair, where the server has \<open>newtexts\<close> that
  file and the current names, and otherwise \<open>newsfx\<close>. Of the segments the server no longer lists no file is left.\<close>

theorem sync_delivers_index:
  assumes "snapshot parse_metas fs = Inr (b, m)" and "server_ok fs m"
    and "set client_ids \<subseteq> range uuid_string" and "client_ok fs m client_ids client"
  shows "\<exists>d. export_delta parse_metas fs False client_ids v = Inr d
    \<and> map_of (apply_delta d client) META = Some b
    \<and> (\<forall>n \<in> set (inventory m). exists_file fs n \<and> \<not> pair_left_out fs m client_ids n \<longrightarrow> map_of (apply_delta d client) n = map_of fs n)
    \<and> (\<forall>r \<in> set client_ids. r \<notin> set (bundle_ids fs m) \<longrightarrow> (\<forall>n. starts_with r n \<longrightarrow> map_of (apply_delta d client) n = None))"
  using lucivy_export_total [OF assms(1,2)] sync_shard [OF assms] by blast

theorem sync_delivers_index_witness:
  "\<exists>d. export_delta demo_parse demo_server False [uuid_string 1, uuid_string 2] (bstr ''v'') = Inr d
    \<and> map_of (apply_delta d demo_client) META = Some (bstr ''{}'')
    \<and> map_of (apply_delta d demo_client) (relative_path demo_segment Delete) = Some [3]
    \<and> map_of (apply_delta d demo_client) demo_pair = Some [6]"
proof -
  let ?n = "relative_path demo_segment Delete" and ?ids = "[uuid_string 1, uuid_string 2]"
  have ids: "set ?ids \<subseteq> range uuid_string" by simp
  obtain d where d: "export_delta demo_parse demo_server False ?ids (bstr ''v'') = Inr d"
    "map_of (apply_delta d demo_client) META = Some (bstr ''{}'')"
    "\<forall>n \<in> set (inventory demo_meta). exists_file demo_server n \<and> \<not> pair_left_out demo_server demo_meta ?ids n
      \<longrightarrow> map_of (apply_delta d demo_client) n = map_of demo_server n"
    using sync_delivers_index [OF demo_snapshot demo_server_ok ids demo_client_ok, of "bstr ''v''"] by blast
  have "\<not> ends_with (bstr ''newsfx'') ?n" "\<not> ends_with (bstr ''newsfx'') demo_pair"
    by (simp_all add: relative_path_def demo_pair_def ends_with_eval)
  then have left: "\<not> pair_left_out demo_server demo_meta ?ids ?n" "\<not> pair_left_out demo_server demo_meta ?ids demo_pair"
    by (simp_all only: demo_not_left_out not_False_eq_True)
  have "exists_file demo_server ?n" "exists_file demo_server demo_pair"
    by (simp_all only: exists_file_def demo_del_stored demo_pair_stored option.distinct not_False_eq_True)
  then have "map_of (apply_delta d demo_client) ?n = Some [3]" "map_of (apply_delta d demo_client) demo_pair = Some [6]"
    using bspec [OF d(3) demo_del_listed] bspec [OF d(3) demo_pair_listed] left demo_del_stored demo_pair_stored by simp_all
  then show ?thesis using d(1,2) by blast
qed

end
