(* ===== verification/SyncHistory.thy ===== *)
theory SyncHistory
  imports LucivySync
begin

text \<open>
  The server's version history (\<open>src/lucistore/src/sync_server.rs\<close>) and the commits recorded in it
  (\<open>record_commit\<close> of \<open>src/lucivy_core/src/sync.rs\<close>): per shard the last versions with their segment ids, from which
  a client that is behind is answered.
\<close>

section \<open>The server\<close>

record VersionEntry =
  ve_version :: bytes
  ve_segment_ids :: "bytes list"

datatype SyncResponse = ClientSegments bytes "bytes list" | FullSnapshot | UpToDate

record SyncServer =
  shard_histories :: "VersionEntry list list"
  max_history :: nat
  srv_num_shards :: nat

datatype server_error = BadShard nat | ManifestMissing | NoSegments

definition server_new :: "nat \<Rightarrow> SyncServer" where
  "server_new max_h = \<lparr>shard_histories = [[]], max_history = max_h, srv_num_shards = 1\<rparr>"

definition server_new_sharded :: "nat \<Rightarrow> nat \<Rightarrow> SyncServer" where
  "server_new_sharded n max_h = \<lparr>shard_histories = replicate n [], max_history = max_h, srv_num_shards = n\<rparr>"

definition last_entry :: "'a list \<Rightarrow> 'a option" where
  "last_entry xs = (if xs = [] then None else Some (last xs))"

definition repeats :: "VersionEntry \<Rightarrow> VersionEntry list \<Rightarrow> bool" where
  "repeats e history \<longleftrightarrow> map_option ve_version (last_entry history) = Some (ve_version e)"

definition push_version :: "nat \<Rightarrow> VersionEntry \<Rightarrow> VersionEntry list \<Rightarrow> VersionEntry list" where
  "push_version max_h e history =
     (if repeats e history then history
      else (if max_h \<le> length history then tl history else history) @ [e])"

definition record_version :: "nat \<Rightarrow> bytes \<Rightarrow> bytes list \<Rightarrow> SyncServer \<Rightarrow> (server_error + SyncServer) exec" where
  "record_version shard_id version segment_ids srv =
     (if srv_num_shards srv \<le> shard_id then Some (Inl (BadShard shard_id))
      else do {
        history \<leftarrow> idx (shard_histories srv) shard_id;
        Some (Inr (srv\<lparr>shard_histories := (shard_histories srv)[shard_id :=
          push_version (max_history srv) \<lparr>ve_version = version, ve_segment_ids = segment_ids\<rparr> history]\<rparr>)) })"

definition record_single :: "bytes \<Rightarrow> bytes list \<Rightarrow> SyncServer \<Rightarrow> (server_error + SyncServer) exec" where
  "record_single version segment_ids srv = record_version 0 version segment_ids srv"

definition current_version :: "SyncServer \<Rightarrow> nat \<Rightarrow> bytes option" where
  "current_version srv shard_id = do {
     h \<leftarrow> (if shard_id < length (shard_histories srv) then Some (shard_histories srv ! shard_id) else None);
     e \<leftarrow> last_entry h;
     Some (ve_version e) }"

definition answer :: "VersionEntry list \<Rightarrow> bytes \<Rightarrow> SyncResponse" where
  "answer history client_version =
     (if map_option ve_version (last_entry history) = Some client_version then UpToDate
      else case find (\<lambda>e. ve_version e = client_version) history of
        Some entry \<Rightarrow> ClientSegments (ve_version entry) (ve_segment_ids entry)
      | None \<Rightarrow> FullSnapshot)"

definition server_lookup :: "SyncServer \<Rightarrow> nat \<Rightarrow> bytes \<Rightarrow> (server_error + SyncResponse) exec" where
  "server_lookup srv shard_id client_version =
     (if srv_num_shards srv \<le> shard_id then Some (Inl (BadShard shard_id))
      else do {
        history \<leftarrow> idx (shard_histories srv) shard_id;
        Some (Inr (answer history client_version)) })"

definition lookup_single :: "SyncServer \<Rightarrow> bytes \<Rightarrow> (server_error + SyncResponse) exec" where
  "lookup_single srv client_version = server_lookup srv 0 client_version"

definition record_commit :: "(bytes \<Rightarrow> json option) \<Rightarrow> nat \<Rightarrow> dir \<Rightarrow> SyncServer \<Rightarrow> (server_error + SyncServer) exec" where
  "record_commit from_slice shard_id fs srv =
     (case map_of fs META of None \<Rightarrow> Some (Inl ManifestMissing)
      | Some meta_bytes \<Rightarrow>
        (case segment_ids_from_meta from_slice meta_bytes of None \<Rightarrow> Some (Inl NoSegments)
         | Some segment_ids \<Rightarrow> record_version shard_id (compute_version_from_bytes meta_bytes) segment_ids srv))"

section \<open>Histories\<close>

text \<open>The servers a program can hold, with the versions recorded so far, oldest first.\<close>

inductive serving :: "nat \<Rightarrow> nat \<Rightarrow> (nat \<times> VersionEntry) list \<Rightarrow> SyncServer \<Rightarrow> bool" for n max_h where
  serving_new: "serving n max_h [] (server_new_sharded n max_h)"
| serving_record: "serving n max_h recs srv \<Longrightarrow> record_version s (ve_version e) (ve_segment_ids e) srv = Some (Inr srv') \<Longrightarrow>
    serving n max_h (recs @ [(s, e)]) srv'"

text \<open>What was recorded for a shard, with repetitions of the newest version left out.\<close>

definition changes :: "VersionEntry list \<Rightarrow> VersionEntry list" where
  "changes es = foldl (\<lambda>h e. if repeats e h then h else h @ [e]) [] es"

definition entries_of :: "nat \<Rightarrow> (nat \<times> VersionEntry) list \<Rightarrow> VersionEntry list" where
  "entries_of s recs = map snd (filter (\<lambda>r. fst r = s) recs)"

definition recent :: "nat \<Rightarrow> 'a list \<Rightarrow> 'a list" where
  "recent max_h es = drop (length es - max 1 max_h) es"

lemma last_entry_snoc [simp]: "last_entry (xs @ [x]) = Some x"
  by (simp add: last_entry_def)

lemma last_entry_recent: "last_entry (recent max_h es) = last_entry es"
proof (cases "es = []")
  case False
  then have "length es - max 1 max_h < length es" by (intro diff_less) auto
  then have "drop (length es - max 1 max_h) es \<noteq> []" "last (drop (length es - max 1 max_h) es) = last es" by (simp_all only: drop_eq_Nil not_le last_drop)
  then show ?thesis using False by (simp only: last_entry_def recent_def if_False)
qed (simp add: recent_def)

lemma length_recent: "length (recent max_h es) = min (length es) (max 1 max_h)"
  by (simp add: recent_def min_def)

lemma recent_short: "length es \<le> max 1 max_h \<Longrightarrow> recent max_h es = es"
  by (simp only: recent_def diff_is_0_eq [THEN iffD2] drop_0)

lemma recent_snoc: "recent max_h (es @ [e]) = (if max_h \<le> length (recent max_h es) then tl (recent max_h es) else recent max_h es) @ [e]"
proof (cases "length es < max 1 max_h")
  case True
  then have 1: "recent max_h es = es" "recent max_h (es @ [e]) = es @ [e]" by (simp_all only: recent_short less_imp_le Suc_leI length_append_singleton)
  show ?thesis
  proof (cases "max_h \<le> length es")
    case le: True
    then have "es = []" using True by (cases "1 \<le> max_h") (simp_all add: max_def)
    then show ?thesis using 1 by (simp add: recent_def)
  next
    case False
    then show ?thesis using 1 by simp
  qed
next
  case False
  let ?k = "length es - max 1 max_h"
  have "length (es @ [e]) - max 1 max_h = Suc ?k" "?k < length es" using False by (simp_all add: Suc_diff_le)
  then have "recent max_h (es @ [e]) = drop (Suc ?k) es @ [e]" by (simp only: recent_def drop_append) simp
  moreover have "tl (recent max_h es) = drop (Suc ?k) es" by (simp only: recent_def drop_Suc tl_drop)
  moreover have "max_h \<le> length (recent max_h es)" using False by (simp add: length_recent)
  ultimately show ?thesis by (simp only: if_True)
qed

lemma push_recent: "push_version max_h e (recent max_h (changes es)) = recent max_h (changes (es @ [e]))"
  by (simp add: push_version_def repeats_def last_entry_recent changes_def recent_snoc del: map_option_eq_Some)

lemma entry_eta [simp]: "\<lparr>ve_version = ve_version e, ve_segment_ids = ve_segment_ids e\<rparr> = e"
  by (cases e) simp

lemma entries_of_snoc: "entries_of s (recs @ [(t, e)]) = (if t = s then entries_of s recs @ [e] else entries_of s recs)"
  by (simp add: entries_of_def)

lemma serving_histories:
  "serving n max_h recs srv \<Longrightarrow> srv_num_shards srv = n \<and> max_history srv = max_h \<and> length (shard_histories srv) = n
    \<and> (\<forall>s < n. shard_histories srv ! s = recent max_h (changes (entries_of s recs)))"
proof (induction rule: serving.induct)
  case serving_new
  then show ?case by (simp add: server_new_sharded_def entries_of_def changes_def recent_def)
next
  case (serving_record recs srv s e srv')
  then have s: "s < n" and srv': "srv' = srv\<lparr>shard_histories := (shard_histories srv)[s := push_version max_h e (shard_histories srv ! s)]\<rparr>"
    by (auto simp: record_version_def idx_def split: if_splits)
  have "shard_histories srv' ! t = recent max_h (changes (entries_of t (recs @ [(s, e)])))" if "t < n" for t
    using serving_record.IH s that by (cases "t = s") (auto simp: srv' entries_of_snoc push_recent)
  then show ?case using serving_record.IH by (simp add: srv')
qed

lemma answer_UpToDate: "answer h v = UpToDate \<longleftrightarrow> map_option ve_version (last_entry h) = Some v"
  by (auto simp: answer_def split: option.splits)

lemma answer_FullSnapshot: "answer h v = FullSnapshot \<longleftrightarrow> v \<notin> ve_version ` set h"
proof -
  have "map_option ve_version (last_entry h) = Some v \<Longrightarrow> v \<in> ve_version ` set h" by (auto simp: last_entry_def split: if_splits)
  then show ?thesis by (auto simp: answer_def find_None_iff find_Some_iff image_iff split: option.splits)
qed

lemma answer_ClientSegments: "answer h v = ClientSegments w ids \<Longrightarrow> w = v \<and> (\<exists>e \<in> set h. ve_version e = v \<and> ve_segment_ids e = ids)"
  by (auto simp: answer_def find_Some_iff split: if_splits option.splits)

text \<open>A single-shard server is one of these, and a recorded commit of a shard is one of these steps.\<close>

lemma server_new_single: "server_new max_h = server_new_sharded 1 max_h"
  by (simp add: server_new_def server_new_sharded_def)

lemma record_commit_serving:
  assumes "serving n max_h recs srv" and "record_commit from_slice s fs srv = Some (Inr srv')"
  shows "\<exists>meta_bytes ids. map_of fs META = Some meta_bytes \<and> segment_ids_from_meta from_slice meta_bytes = Some ids
    \<and> serving n max_h (recs @ [(s, \<lparr>ve_version = compute_version_from_bytes meta_bytes, ve_segment_ids = ids\<rparr>)]) srv'"
  using assms serving_record [OF assms(1)] by (fastforce simp: record_commit_def split: option.splits)

section \<open>What a client is told\<close>

text \<open>C33.  The history of a shard is the last recorded versions, at most the configured number (and at least one) and
  without repetitions of the newest; a client is up to date exactly when its version is the newest one, needs a full
  snapshot exactly when its version is not in the history, and is otherwise given segment ids recorded with it.\<close>

theorem server_answers:
  assumes "serving n max_h recs srv" and "s < n"
  shows "\<exists>r. server_lookup srv s v = Some (Inr r)
    \<and> (r = UpToDate \<longleftrightarrow> current_version srv s = Some v)
    \<and> (r = FullSnapshot \<longleftrightarrow> v \<notin> ve_version ` set (recent max_h (changes (entries_of s recs))))
    \<and> (\<forall>w ids. r = ClientSegments w ids \<longrightarrow> w = v \<and> (\<exists>e. (s, e) \<in> set recs \<and> ve_version e = v \<and> ve_segment_ids e = ids))"
proof -
  let ?h = "recent max_h (changes (entries_of s recs))"
  have srv: "srv_num_shards srv = n" "length (shard_histories srv) = n" "shard_histories srv ! s = ?h"
    using serving_histories [OF assms(1)] assms(2) by auto
  have l: "server_lookup srv s v = Some (Inr (answer ?h v))" using srv assms(2) by (simp add: server_lookup_def idx_def)
  have c: "current_version srv s = map_option ve_version (last_entry ?h)" using srv assms(2) by (cases "last_entry ?h") (simp_all add: current_version_def)
  have ch: "set (changes es) \<subseteq> set es" for es
    by (induction es rule: rev_induct) (auto simp: changes_def)
  have "set ?h \<subseteq> set (entries_of s recs)" using ch by (auto simp: recent_def dest: in_set_dropD)
  then have "(s, e) \<in> set recs" if "e \<in> set ?h" for e using that by (auto simp: entries_of_def)
  then have "w = v \<and> (\<exists>e. (s, e) \<in> set recs \<and> ve_version e = v \<and> ve_segment_ids e = ids)" if "answer ?h v = ClientSegments w ids" for w ids
    using answer_ClientSegments [OF that] by blast
  then show ?thesis using l c answer_UpToDate [of ?h v] answer_FullSnapshot [of ?h v] by (intro exI [of _ "answer ?h v"]) simp
qed

definition demo_entry :: "string \<Rightarrow> VersionEntry" where
  "demo_entry v = \<lparr>ve_version = bstr v, ve_segment_ids = [bstr ''a1'']\<rparr>"

theorem server_answers_witness:
  "\<exists>srv r. serving 2 1 [(0, demo_entry ''v1''), (0, demo_entry ''v2'')] srv \<and> server_lookup srv 0 (bstr ''v1'') = Some (Inr r)
    \<and> r = FullSnapshot"
proof -
  have 1: "\<exists>srv'. serving 2 1 (recs @ [(0, e)]) srv'" if st: "serving 2 1 recs srv" for recs e srv
  proof -
    obtain srv' where "record_version 0 (ve_version e) (ve_segment_ids e) srv = Some (Inr srv')"
      using serving_histories [OF st] by (simp add: record_version_def idx_def)
    then show ?thesis using serving_record [OF st] by blast
  qed
  obtain srv where "serving 2 1 ([] @ [(0, demo_entry ''v1'')]) srv" using 1 serving_new by blast
  then obtain srv' where s: "serving 2 1 [(0, demo_entry ''v1''), (0, demo_entry ''v2'')] srv'" using 1 by fastforce
  have "recent 1 (changes (entries_of 0 [(0, demo_entry ''v1''), (0, demo_entry ''v2'')])) = [demo_entry ''v2'']"
    by (simp add: entries_of_def changes_def recent_def repeats_def last_entry_def demo_entry_def bstr_def)
  moreover have "bstr ''v1'' \<notin> ve_version ` set [demo_entry ''v2'']" by (simp add: demo_entry_def bstr_def)
  ultimately show ?thesis using s server_answers [OF s, of 0 "bstr ''v1''"] by auto
qed

end
