(* ===== verification/Spec2Isabelle.thy ===== *)
theory Spec2Isabelle
  imports Varint BlockOffsets SectionFile Gmap PosMap WordPosMap SiblingTable FuzzySpans Myers DagProps ShardRouter WordSfxRead SyncHistory
begin

text \<open>
  A verification library for lucivy, a full-text search engine written in Rust.

  \<^bold>\<open>The program.\<close> An index is a set of segments. Next to the term dictionary, a segment has sidecar files that
  map tokens and words to documents, positions and byte offsets (\<open>src/src/suffix_fst\<close>); queries combine them
  and check fuzzy matches by edit distance. Documents are spread over shards by a router
  (\<open>src/lucistore/src/shard_router.rs\<close>), and indexing and search run as graphs of tasks on an actor scheduler
  (\<open>src/luciole/src\<close>). A client follows a server by snapshots and by deltas of segment files, computed from the
  server's manifest and applied to the client's directory (\<open>src/lucistore/src\<close>, \<open>src/lucivy_core/src/sync.rs\<close>).
  The library models the sidecar formats, the edit-distance kernel, the router, the synchronisation layer, and
  the task graphs with their executors and checkpoints, function by function.

  \<^bold>\<open>Theories.\<close>

  \<^item> \<open>Prelude\<close>: machine integers, byte buffers, indexing and slicing that panic, little-endian fields, start
    offsets of concatenated regions, the binary search of the readers. \<open>Codec\<close>: the contract of an encoder
    and a decoder at a position (locale \<open>codec\<close>), for runs and pairs of values.
  \<^item> \<open>Varint\<close> (\<open>varint.rs\<close>, and the tight decoder of \<open>sfxpost_v2.rs\<close>): round trip, length, truncated input, and
    what an over-long encoding is read as.
  \<^item> \<open>BlockOffsets\<close> (\<open>block_offsets.rs\<close>): block-coded and flat offset tables, one contract (locale
    \<open>offset_table\<close>) with an interpretation for each.
  \<^item> \<open>SectionFile\<close> (\<open>section_file.rs\<close>): the section container refines a map from ids to bytes.
  \<^item> \<open>Gmap\<close> (\<open>gmap.rs\<close>): local and global ids, the galloping lower bound (locale \<open>id_list\<close>, one
    interpretation per layout).
  \<^item> \<open>DocTable\<close>, \<open>PosMap\<close> (\<open>posmap.rs\<close>), \<open>WordPosMap\<close> (\<open>word_pos_map.rs\<close>): position maps refine a function from
    document and position (locale \<open>slot_writer\<close>); byte offsets from checkpoints.
  \<^item> \<open>SiblingTable\<close> (\<open>sibling_table.rs\<close>): the table is the relation it was built from.
  \<^item> \<open>WordSfxPost\<close>, \<open>WordSfxRead\<close> (\<open>word_sfxpost.rs\<close>): word postings, their delta coding with checkpoints, the
    lookup over the checkpoints, the documents-only layout.
  \<^item> \<open>EditDistance\<close>, \<open>FuzzySpans\<close>, \<open>Myers\<close> (\<open>briques/fuzzy_spans.rs\<close>): the edit distance and its matrix, the
    spans of fuzzy matches, and the bit-parallel, early-exit and long-text routines that replace the matrix.
  \<^item> \<open>Dag\<close> (\<open>dag.rs\<close>, \<open>port.rs\<close>, \<open>node.rs\<close>): construction, levels and validation of task graphs. \<open>Checkpoint\<close>
    (\<open>checkpoint.rs\<close>): the store interface (locale \<open>checkpoint_store\<close>), the in-memory and the file store.
    \<open>DagRuntime\<close> (\<open>runtime.rs\<close>): the executors. \<open>DagRefine\<close>: a reference executor and the simulation proofs;
    \<open>DagRollback\<close>: undo; \<open>DagResume\<close>: checkpointed runs; \<open>DagProps\<close>: what follows for the executors.
  \<^item> \<open>ShardRouter\<close> (\<open>shard_router.rs\<close>): counters, routing, the rebuilding of the counters from the term
    dictionaries, and the statistics file.
  \<^item> \<open>SyncFormats\<close> (\<open>binary.rs\<close>, \<open>version.rs\<close>, \<open>delta.rs\<close>, \<open>delta_sharded.rs\<close>, \<open>snapshot.rs\<close>): the exchange formats as
    codecs that refuse every truncation (locale \<open>tight_codec\<close>, closed under pairs, runs and bijections); the
    table of contents of a snapshot, walked by code of its own, agrees with the import on every input.
  \<^item> \<open>SyncExport\<close> (\<open>delta.rs\<close>, \<open>fs_utils.rs\<close>): the exporter interface (locale \<open>delta_exporter\<close>), the computation of a
    delta, its application as a sequence of file system operations, and what an interrupted run leaves.
  \<^item> \<open>LucivySync\<close> (\<open>sync.rs\<close>, the delta operations of \<open>sharded_handle.rs\<close>, file names of \<open>index_meta.rs\<close>,
    \<open>segment_component.rs\<close>, \<open>index_registry.rs\<close>, \<open>dictionary.rs\<close>): the exporter of an index keeps that contract, so a
    client ends with every file the manifest names, except the pair files of \<open>pair_left_out\<close>; and why
    these are missed.
  \<^item> \<open>SyncHistory\<close> (\<open>sync_server.rs\<close>): the versions a server remembers and what it answers.

  \<^bold>\<open>How the code is rendered.\<close> A \<open>u8\<close> to \<open>u64\<close> is a word of its width and wraps as in the release profile; a \<open>usize\<close> is
  a \<open>nat\<close>. A panic is \<open>None\<close> of the type \<open>'a exec\<close>; a Rust \<open>Option\<close> or \<open>Result\<close> is an \<open>option\<close> or a sum. Structs are
  records, writers and readers are passed and returned. A trait object is a state type with a record of its
  operations (\<open>Node\<close>, \<open>CheckpointStore\<close>). A \<open>HashMap\<close> is a map, or an association list where its iteration order
  can be observed. Loops are structural or terminating recursion; the galloping loop of \<open>Gmap\<close> is a partial
  function, and its correctness includes that it returns.

  \<^bold>\<open>Bounds.\<close> A block-coded table is proved for at most \<open>2 ^ 29\<close> offsets, far above the number of terms of a segment and
  low enough that its own 32-bit fields cannot wrap. Serialised regions stay below \<open>2 ^ 32\<close> bytes, which the
  writers assert. The synchronisation formats are proved for
  lengths below \<open>2 ^ 32\<close>, which their writers do not check. Global counters of the router stay below \<open>2 ^ 32\<close>. No definition needs fuel.

  \<^bold>\<open>Parameters.\<close> The nodes of a task graph are an argument of its executors, as functions of their state and inputs
  that do not panic, and so is the answer of the
  scheduler to whether a level runs inline. The arithmetic of \<open>f64\<close> is an argument of the router: its theorems hold
  for every arithmetic, except that the choice of the best shard asks for scores that compare like
  numbers. The file system of the file store is a map from names to contents; that of
  the synchronisation layer is the list of a directory's files in listing order, and a failing operation is a run
  that stops there; a write within a file is not divided further. The parser of \<open>meta.json\<close> is an argument of the exporter.

  \<^bold>\<open>Not modelled.\<close> Threads, actors, mailboxes and timing (\<open>scheduler.rs\<close>, \<open>mailbox.rs\<close>, \<open>async_executor.rs\<close>): their
  behaviour is that of atomics and channels. Query parsing, scoring, aggregation, columnar storage, the
  stores and the segment writers inherited from the engine lucivy is built on (\<open>src/src\<close>, \<open>columnar\<close>, \<open>sstable\<close>,
  \<open>stacker\<close>, \<open>query-grammar\<close>), the FST crate, the bindings and the browser playground. Of the sidecars, the token
  postings and texts (\<open>sfxpost_v2.rs\<close>, \<open>termtexts_v3.rs\<close>), the dictionary and its folding, and the query plans over
  them.
\<close>

end
